(* ===== verification/Prelude.thy ===== *)
theory Prelude
  imports Main "HOL-Library.Word"
begin

text \<open>
  The prelude of the development: the C types the program uses, the undefined behaviours the
  model makes visible, decimal printing as the output streams do it, the combinator for the
  program's \<open>while (true)\<close> loops, and reachability for the thread models.  The collections
  declared here are filled by the component theories.
\<close>

named_theorems sys_simps "the socket calls, unfolded over the call history"
named_theorems hist_simps "what the views of the call history make of one more event"
named_theorems body_defs "the bodies of the program's loops"

unbundle bit_operations_syntax

subsection \<open>C types and undefined behaviour\<close>

type_synonym byte = "8 word"
type_synonym size_t = "64 word"

text \<open>
  Where the C++ program leaves the defined language, the model returns \<open>Inl\<close> of one of these
  instead of a value.
\<close>

datatype ub = Out_of_bounds | Signed_overflow | Null_deref | Empty_front

definition INT_MAX :: int where
  "INT_MAX = 2147483647"

definition INVALID_FD :: int where
  "INVALID_FD = -1"

text \<open>\<open>static_cast\<close> of a 64 bit signed value to a 32 bit \<open>int\<close>, and of an \<open>int\<close> to \<open>size_t\<close>.\<close>

definition to_c_int :: "int \<Rightarrow> int" where
  "to_c_int r = sint (word_of_int r :: 32 word)"

definition to_size_t :: "int \<Rightarrow> size_t" where
  "to_size_t r = word_of_int r"

lemma to_c_int_small: "- 2147483648 \<le> r \<Longrightarrow> r < 2147483648 \<Longrightarrow> to_c_int r = r"
  by (simp add: to_c_int_def sint_sbintrunc' signed_take_bit_int_eq_self)

lemma to_size_t_nat [simp]: "unat (to_size_t (int n)) = n mod 2 ^ 64"
  by (simp add: to_size_t_def unat_of_nat)

lemma to_size_t_minus_one: "to_size_t (- 1) = - 1"
  by (simp add: to_size_t_def)

lemma not_size_t_neg [simp]: "\<not> (x :: size_t) < 0"
  by simp

subsection \<open>Decimal output\<close>

text \<open>\<open>std::ostream << int\<close>: an optional minus sign and the decimal digits.\<close>

definition digit_char :: "nat \<Rightarrow> char" where
  "digit_char d = ''0123456789abcdef'' ! d"

fun show_nat :: "nat \<Rightarrow> string" where
  "show_nat n = (if n < 10 then [digit_char n] else show_nat (n div 10) @ [digit_char (n mod 10)])"

declare show_nat.simps [simp del]

definition show_int :: "int \<Rightarrow> string" where
  "show_int i = (if i < 0 then CHR ''-'' # show_nat (nat (- i)) else show_nat (nat i))"

subsection \<open>The loop \<open>while (true)\<close>\<close>

text \<open>
  One turn of the loop body either leaves the function with a result (\<open>Inl\<close>) or goes round
  again with a new state (\<open>Inr\<close>).  The first argument bounds the number of turns; \<open>None\<close> says
  that the loop is still running after that many.
\<close>

primrec forever :: "('s \<Rightarrow> 'r + 's) \<Rightarrow> nat \<Rightarrow> 's \<Rightarrow> 'r option" where
  "forever body 0 s = None"
| "forever body (Suc n) s = (case body s of Inl r \<Rightarrow> Some r | Inr s' \<Rightarrow> forever body n s')"

lemma forever_mono:
  "forever body n s = Some r \<Longrightarrow> n \<le> m \<Longrightarrow> forever body m s = Some r"
proof (induction n arbitrary: s m)
  case 0
  then show ?case by simp
next
  case (Suc n)
  then obtain m' where "m = Suc m'" "n \<le> m'" by (cases m) auto
  with Suc show ?case by (auto split: sum.splits)
qed

text \<open>The result does not depend on the bound: two bounds that are both enough agree.\<close>

lemma forever_determ:
  "forever body n s = Some r \<Longrightarrow> forever body m s = Some r' \<Longrightarrow> r = r'"
  by (metis forever_mono nat_le_linear option.inject)

text \<open>The state after \<open>k\<close> turns that all went round again.\<close>

primrec turns :: "('s \<Rightarrow> 'r + 's) \<Rightarrow> nat \<Rightarrow> 's \<Rightarrow> 's option" where
  "turns body 0 s = Some s"
| "turns body (Suc k) s = (case body s of Inl r \<Rightarrow> None | Inr s' \<Rightarrow> turns body k s')"

text \<open>The loop leaves in a turn that only turns going round precede, and no other way.\<close>

lemma forever_iff:
  "forever body n s = Some r \<longleftrightarrow> (\<exists>k < n. \<exists>t. turns body k s = Some t \<and> body t = Inl r)"
proof (induction n arbitrary: s)
  case (Suc n)
  show ?case
  proof (cases "body s")
    case (Inl r')
    then have "turns body k s = Some t \<longleftrightarrow> k = 0 \<and> t = s" for k t by (cases k) auto
    with Inl show ?thesis by auto
  next
    case (Inr s')
    with Suc.IH[of s'] show ?thesis by (auto simp: less_Suc_eq_0_disj)
  qed
qed simp

text \<open>Partial correctness: an invariant of the turns, and what a leaving turn makes of it.\<close>

lemma forever_rule:
  assumes "forever body n s = Some r" and "I s"
    and "\<And>s s'. I s \<Longrightarrow> body s = Inr s' \<Longrightarrow> I s'"
    and "\<And>s r. I s \<Longrightarrow> body s = Inl r \<Longrightarrow> Q r"
  shows "Q r"
  using assms(1,2)
proof (induction n arbitrary: s)
  case (Suc n)
  then show ?case using assms(3,4) by (auto split: sum.splits)
qed simp

text \<open>Termination: a measure that every further turn decreases.\<close>

lemma forever_terminates:
  assumes "I s" and "m s < n"
    and "\<And>s s'. I s \<Longrightarrow> body s = Inr s' \<Longrightarrow> I s' \<and> m s' < (m s :: nat)"
  shows "\<exists>r. forever body n s = Some r"
  using assms(1,2)
proof (induction n arbitrary: s)
  case (Suc n)
  show ?case
  proof (cases "body s")
    case (Inr s')
    with Suc.prems assms(3)[of s s'] have "I s'" "m s' < n" by auto
    with Suc.IH Inr show ?thesis by simp
  qed simp
qed simp

subsection \<open>Transition systems\<close>

text \<open>The states a step relation reaches from a given start.\<close>

inductive reach :: "('s \<Rightarrow> 's \<Rightarrow> bool) \<Rightarrow> 's \<Rightarrow> 's \<Rightarrow> bool" for step :: "'s \<Rightarrow> 's \<Rightarrow> bool" and s0 :: 's where
  reach_start: "reach step s0 s0"
| reach_step: "reach step s0 s \<Longrightarrow> step s t \<Longrightarrow> reach step s0 t"

lemma reach_trans: "reach step b c \<Longrightarrow> reach step a b \<Longrightarrow> reach step a c"
  by (induction rule: reach.induct) (auto intro: reach_step)

lemma reach_mono:
  assumes "reach step a b" and "\<And>s t. step s t \<Longrightarrow> step' s t"
  shows "reach step' a b"
  using assms(1) by (induction rule: reach.induct) (auto intro: reach_start reach_step assms(2))

text \<open>The run of a list of actors, and the states it reaches.\<close>

primrec sched :: "('a \<Rightarrow> 's \<Rightarrow> 's option) \<Rightarrow> 'a list \<Rightarrow> 's \<Rightarrow> 's option" where
  "sched next [] s = Some s"
| "sched next (a # as) s = (case next a s of None \<Rightarrow> None | Some t \<Rightarrow> sched next as t)"

lemma sched_append:
  "sched next (as @ bs) s = (case sched next as s of None \<Rightarrow> None | Some t \<Rightarrow> sched next bs t)"
  by (induction as arbitrary: s) (auto split: option.splits)

lemma sched_reach:
  assumes "\<And>a s t. next a s = Some t \<Longrightarrow> step s t"
  shows "sched next as s = Some t \<Longrightarrow> reach step s t"
proof (induction as arbitrary: s)
  case Nil
  then show ?case by (simp add: reach_start)
next
  case (Cons a as)
  then obtain s' where "next a s = Some s'" "sched next as s' = Some t"
    by (auto split: option.splits)
  with Cons.IH have "step s s'" "reach step s' t" by (auto intro: assms)
  then show ?case by (blast intro: reach_trans reach_step reach_start)
qed

text \<open>The contract of an invariant: it holds at the start and every step keeps it.\<close>

locale invariant_system =
  fixes step :: "'s \<Rightarrow> 's \<Rightarrow> bool" and start :: "'s \<Rightarrow> bool" and inv :: "'s \<Rightarrow> bool"
  assumes inv_start: "start s \<Longrightarrow> inv s"
    and inv_step: "inv s \<Longrightarrow> step s t \<Longrightarrow> inv t"
begin

lemma inv_closed: "reach step s t \<Longrightarrow> inv s \<Longrightarrow> inv t"
  by (induction rule: reach.induct) (auto intro: inv_step)

lemma reach_inv: "reach step s t \<Longrightarrow> start s \<Longrightarrow> inv t"
  by (rule inv_closed) (auto intro: inv_start)

end

text \<open>
  The contract of a refinement: seen through \<open>abs_of\<close>, every step from a state that satisfies the
  invariant is a step of an abstract system, or no step at all.
\<close>

locale refinement = invariant_system step start inv
  for step :: "'s \<Rightarrow> 's \<Rightarrow> bool" and start :: "'s \<Rightarrow> bool" and inv :: "'s \<Rightarrow> bool" +
  fixes astep :: "'a \<Rightarrow> 'a \<Rightarrow> bool" and abs_of :: "'s \<Rightarrow> 'a"
  assumes refine_step: "inv s \<Longrightarrow> step s t \<Longrightarrow> abs_of t = abs_of s \<or> astep (abs_of s) (abs_of t)"
begin

lemma refine_reach:
  assumes "reach step s t" and "start s"
  shows "reach astep (abs_of s) (abs_of t)"
  using assms(1)
proof (induction rule: reach.induct)
  case reach_start
  show ?case by (rule reach.reach_start)
next
  case (reach_step t u)
  from reach_step(1) assms(2) have "inv t" by (rule reach_inv)
  from refine_step[OF this reach_step(2)] reach_step(3) show ?case by (auto intro: reach.reach_step)
qed

end

text \<open>
  The contract of a system that comes to rest: every step from a state that satisfies the invariant
  brings it closer to the end.
\<close>

locale resting_system =
  fixes step :: "'s \<Rightarrow> 's \<Rightarrow> bool" and inv :: "'s \<Rightarrow> bool" and left :: "'s \<Rightarrow> nat"
  assumes rest_inv: "inv s \<Longrightarrow> step s t \<Longrightarrow> inv t"
    and rest_left: "inv s \<Longrightarrow> step s t \<Longrightarrow> left t < left s"
begin

lemma run_bounded: "(step ^^ n) s t \<Longrightarrow> inv s \<Longrightarrow> n + left t \<le> left s \<and> inv t"
proof (induction n arbitrary: t)
  case (Suc n)
  then obtain u where u: "(step ^^ n) s u" "step u t" by auto
  from Suc.IH[OF u(1) Suc.prems(2)] have "n + left u \<le> left s" "inv u" by simp_all
  with rest_left[OF this(2) u(2)] rest_inv[OF this(2) u(2)] show ?case by simp
qed simp

lemma run_completes: "inv s \<Longrightarrow> \<exists>n t. (step ^^ n) s t \<and> (\<forall>u. \<not> step t u)"
proof (induction "left s" arbitrary: s rule: less_induct)
  case less
  show ?case
  proof (cases "\<exists>u. step s u")
    case True
    then obtain u where u: "step s u" ..
    from less.hyps[OF rest_left[OF less.prems u] rest_inv[OF less.prems u]]
    obtain n t where n: "(step ^^ n) u t" "\<forall>v. \<not> step t v" by blast
    from u n(1) have "(step ^^ Suc n) s t" by (rule relpowp_Suc_I2)
    with n(2) show ?thesis by blast
  next
    case False
    then have "(step ^^ 0) s s \<and> (\<forall>u. \<not> step s u)" by simp
    then show ?thesis by blast
  qed
qed

end

lemma reach_run: "(step ^^ n) s t \<Longrightarrow> reach step s t"
  by (induction n arbitrary: t) (auto intro: reach_start reach_step)

lemma sched_run:
  assumes "\<And>a s t. next a s = Some t \<Longrightarrow> step s t"
  shows "sched next as s = Some t \<Longrightarrow> (step ^^ length as) s t"
proof (induction as arbitrary: s)
  case (Cons a as)
  then obtain u where u: "next a s = Some u" "sched next as u = Some t" by (auto split: option.splits)
  from relpowp_Suc_I2[OF assms[OF u(1)] Cons.IH[OF u(2)]] show ?case by simp
qed simp

end
