(* ===== verification/Hexdump.thy ===== *)
theory Hexdump
  imports Prelude
begin

text \<open>
  \<open>IOHelper::hexdump\<close> (IOHelper.cpp) and \<open>ThreadsClientHandle::dumpHex\<close>
  (ThreadsClientHandle.cpp): the loops with their index of type \<open>int\<close>, the byte formatting of
  the output stream, a contract that both functions meet, and a reader for the text they print.
  Reading behind the buffer and overflowing the index are undefined behaviour, so both
  functions return \<open>Inl\<close> there.
\<close>

subsection \<open>The stream manipulators\<close>

fun show_hex :: "nat \<Rightarrow> string" where
  "show_hex n = (if n < 16 then [digit_char n] else show_hex (n div 16) @ [digit_char (n mod 16)])"

declare show_hex.simps [simp del]

text \<open>\<open>std::setw\<close> with \<open>std::setfill\<close>: pad on the left up to the width.\<close>

definition setw :: "nat \<Rightarrow> char \<Rightarrow> string \<Rightarrow> string" where
  "setw n c s = replicate (n - length s) c @ s"

definition endl :: string where
  "endl = [CHR 0x0A]"

text \<open>What one turn of either loop writes for an element with the value \<open>v\<close>.\<close>

definition hex_entry :: "32 word \<Rightarrow> string" where
  "hex_entry v = ''0x'' @ setw 2 (CHR ''0'') (show_hex (unat v)) @ '' ''"

definition line_end :: "int \<Rightarrow> string" where
  "line_end i = (if (i + 1) mod 0x10 = 0 then endl else [])"

subsection \<open>The two functions\<close>

text \<open>\<open>hexdump\<close>: unsigned bytes; the \<open>int\<close> index is converted to \<open>size_t\<close> to be compared.\<close>

definition uchar_val :: "byte \<Rightarrow> 32 word" where
  "uchar_val b = (ucast b :: 32 word) AND 0xff"

function hexdump_loop :: "byte list \<Rightarrow> size_t \<Rightarrow> int \<Rightarrow> string \<Rightarrow> ub + string" where
  "hexdump_loop data len i oss =
     (if to_size_t i = len then Inr oss
      else if i < 0 \<or> int (length data) \<le> i then Inl Out_of_bounds
      else let oss' = oss @ hex_entry (uchar_val (data ! nat i))
           in if i = INT_MAX then Inl Signed_overflow
              else hexdump_loop data len (i + 1) (oss' @ line_end i))"
  by pat_completeness auto
termination
  by (relation "measure (\<lambda>(data, len, i, oss). nat (int (length data) - i))") auto

declare hexdump_loop.simps [simp del]

definition hexdump :: "byte list \<Rightarrow> size_t \<Rightarrow> ub + string" where
  "hexdump buffer len = hexdump_loop buffer len 0 []"

text \<open>\<open>dumpHex\<close>: the elements are \<open>char\<close>, sign-extended to \<open>int\<close>, and the length is an \<open>int\<close>.\<close>

definition schar_val :: "byte \<Rightarrow> 32 word" where
  "schar_val b = (scast b :: 32 word) AND 0xff"

function dumpHex_loop :: "byte list \<Rightarrow> int \<Rightarrow> int \<Rightarrow> string \<Rightarrow> ub + string" where
  "dumpHex_loop buf len i oss =
     (if i = len then Inr oss
      else if i < 0 \<or> int (length buf) \<le> i then Inl Out_of_bounds
      else let oss' = oss @ hex_entry (schar_val (buf ! nat i))
           in if i = INT_MAX then Inl Signed_overflow
              else dumpHex_loop buf len (i + 1) (oss' @ line_end i))"
  by pat_completeness auto
termination
  by (relation "measure (\<lambda>(buf, len, i, oss). nat (int (length buf) - i))") auto

declare dumpHex_loop.simps [simp del]

definition dumpHex :: "byte list \<Rightarrow> int \<Rightarrow> ub + string" where
  "dumpHex buf len = dumpHex_loop buf len 0 []"

subsection \<open>The text, and a reader for it\<close>

text \<open>The reference text: one entry per byte, a line end after each sixteenth.\<close>

definition byte_text :: "byte \<Rightarrow> string" where
  "byte_text b = [CHR ''0'', CHR ''x'', digit_char (unat b div 16), digit_char (unat b mod 16), CHR '' '']"

fun hex_text :: "nat \<Rightarrow> byte list \<Rightarrow> string" where
  "hex_text i [] = []"
| "hex_text i (b # bs) = byte_text b @ line_end (int i) @ hex_text (Suc i) bs"

definition digit_val :: "char \<Rightarrow> nat" where
  "digit_val c = (if of_char c < (58 :: nat) then of_char c - 48 else of_char c - (87 :: nat))"

fun read_hex :: "string \<Rightarrow> byte list option" where
  "read_hex [] = Some []"
| "read_hex [c] = (if c = CHR 0x0A then Some [] else None)"
| "read_hex (c1 # c2 # s) =
     (if c1 = CHR 0x0A then read_hex (c2 # s)
      else if c1 = CHR ''0'' \<and> c2 = CHR ''x'' then
        (case s of h # l # sp # s' \<Rightarrow>
           (if sp = CHR '' '' then
              map_option (\<lambda>bs. word_of_nat (16 * digit_val h + digit_val l) # bs) (read_hex s')
            else None)
         | _ \<Rightarrow> None)
      else None)"

subsection \<open>One byte\<close>

lemma bit_255: "bit (0xff :: 32 word) n \<longleftrightarrow> n < 8"
proof -
  have "(0xff :: 32 word) = mask 8" by (simp add: mask_eq_exp_minus_1)
  then have "bit (0xff :: 32 word) n = bit (mask 8 :: 32 word) n" by (rule arg_cong)
  then show ?thesis by (simp only: bit_mask_iff) auto
qed

lemma bit_byte: "bit (b :: byte) n \<Longrightarrow> n < 8"
  using bit_imp_le_length[of b n] by simp

lemma bit_and_255: "bit (w AND 0xff :: 32 word) n \<longleftrightarrow> bit w n \<and> n < 8"
  by (simp only: bit_and_iff bit_255)

lemma unat_byte_less: "unat (b :: byte) < 256"
  using unsigned_less[of b] by simp

lemma uchar_val_unat: "unat (uchar_val b) = unat b"
proof -
  have "uchar_val b = ucast b"
    by (rule bit_word_eqI, unfold uchar_val_def bit_and_255 bit_ucast_iff) (auto dest: bit_byte)
  moreover have "unat b < 2 ^ 32" using unat_byte_less[of b] by simp
  ultimately show ?thesis by (simp add: unsigned_ucast_eq take_bit_nat_eq_self)
qed

text \<open>Sign extension followed by the mask is zero extension.\<close>

lemma schar_val_eq: "schar_val b = uchar_val b"
  by (rule bit_word_eqI, unfold schar_val_def uchar_val_def bit_and_255 bit_ucast_iff
      bit_word_scast_iff) auto

lemma show_hex_byte:
  assumes "n < 256"
  shows "setw 2 (CHR ''0'') (show_hex n) = [digit_char (n div 16), digit_char (n mod 16)]"
proof (cases "n < 16")
  case True
  then show ?thesis by (simp add: show_hex.simps setw_def digit_char_def)
next
  case False
  with assms have "n div 16 < 16" by simp
  with False show ?thesis
    by (simp add: show_hex.simps[of n] show_hex.simps[of "n div 16"] setw_def)
qed

lemma hex_entry_uchar: "hex_entry (uchar_val b) = byte_text b"
  using unat_byte_less[of b] by (simp add: hex_entry_def byte_text_def uchar_val_unat show_hex_byte)

lemma length_byte_text [simp]: "length (byte_text b) = 5"
  by (simp add: byte_text_def)

lemma digits_16: "d < 16 \<Longrightarrow> d \<in> {0, 1, 2, 3, 4, 5, 6, 7, 8, 9, 10, 11, 12, 13, 14, 15 :: nat}"
  by (auto simp: numeral_eq_Suc less_Suc_eq)

lemma digit_val_char: "d < 16 \<Longrightarrow> digit_val (digit_char d) = d"
  by (drule digits_16) (auto simp: digit_val_def digit_char_def)

subsection \<open>The reference text\<close>

lemma length_hex_text: "length (hex_text i bs) = 5 * length bs + (i + length bs) div 16 - i div 16"
proof (induction bs arbitrary: i)
  case (Cons b bs)
  have "Suc i div 16 \<le> (Suc i + length bs) div 16" by (rule div_le_mono) simp
  moreover have "(int i + 1) mod 16 = 0 \<longleftrightarrow> Suc i mod 16 = 0" by presburger
  moreover have "Suc i div 16 = (if Suc i mod 16 = 0 then Suc (i div 16) else i div 16)" by (rule div_Suc)
  moreover have "i div 16 \<le> (i + Suc (length bs)) div 16" by (rule div_le_mono) simp
  ultimately show ?case using Cons.IH[of "Suc i"] by (simp add: line_end_def endl_def add.assoc)
qed simp

lemma read_byte_text: "read_hex (byte_text b @ s) = map_option (\<lambda>bs. b # bs) (read_hex s)"
proof -
  have "16 * (unat b div 16) + unat b mod 16 = unat b" by simp
  then have "word_of_nat (16 * (unat b div 16) + unat b mod 16) = b" by simp
  moreover have "unat b div 16 < 16" using unat_byte_less[of b] by simp
  ultimately show ?thesis by (simp add: byte_text_def digit_val_char)
qed

lemma read_line_end: "read_hex (line_end i @ s) = read_hex s"
  by (cases s) (auto simp: line_end_def endl_def)

lemma read_hex_text: "read_hex (hex_text i bs) = Some bs"
  by (induction bs arbitrary: i) (auto simp: read_byte_text read_line_end)

subsection \<open>The loops\<close>

lemma hex_text_step:
  assumes "k < n" and "n \<le> length data"
  shows "hex_text k (take (n - k) (drop k data)) =
    byte_text (data ! k) @ line_end (int k) @ hex_text (Suc k) (take (n - Suc k) (drop (Suc k) data))"
proof -
  have "n - k = Suc (n - Suc k)" using assms(1) by simp
  moreover have "drop k data = data ! k # drop (Suc k) data"
    using assms by (simp add: Cons_nth_drop_Suc)
  ultimately show ?thesis by simp
qed

lemma hexdump_loop_text:
  assumes "k \<le> n" and "n \<le> length data" and "int n \<le> INT_MAX"
  shows "hexdump_loop data (to_size_t (int n)) (int k) oss =
    Inr (oss @ hex_text k (take (n - k) (drop k data)))"
  using assms(1)
proof (induction "n - k" arbitrary: k oss)
  case 0
  then show ?case by (simp add: hexdump_loop.simps)
next
  case (Suc m)
  then have k: "k < n" by simp
  have "to_size_t (int k) \<noteq> to_size_t (int n)"
  proof
    assume "to_size_t (int k) = to_size_t (int n)"
    then have "unat (to_size_t (int k)) = unat (to_size_t (int n))" by simp
    with k assms(3) show False by (simp add: INT_MAX_def)
  qed
  moreover have "hexdump_loop data (to_size_t (int n)) (int k + 1) (oss @ byte_text (data ! k) @ line_end (int k)) =
    Inr ((oss @ byte_text (data ! k) @ line_end (int k)) @ hex_text (Suc k) (take (n - Suc k) (drop (Suc k) data)))"
    using Suc.hyps(1)[of "Suc k"] Suc.hyps(2) k by (simp add: add.commute)
  ultimately show ?case
    using k assms by (simp add: hexdump_loop.simps[of _ _ "int k"] hex_entry_uchar hex_text_step Let_def)
qed

lemma dumpHex_loop_text:
  assumes "k \<le> n" and "n \<le> length data" and "int n \<le> INT_MAX"
  shows "dumpHex_loop data (int n) (int k) oss = Inr (oss @ hex_text k (take (n - k) (drop k data)))"
  using assms(1)
proof (induction "n - k" arbitrary: k oss)
  case 0
  then show ?case by (simp add: dumpHex_loop.simps)
next
  case (Suc m)
  then have k: "k < n" by simp
  moreover have "dumpHex_loop data (int n) (int k + 1) (oss @ byte_text (data ! k) @ line_end (int k)) =
    Inr ((oss @ byte_text (data ! k) @ line_end (int k)) @ hex_text (Suc k) (take (n - Suc k) (drop (Suc k) data)))"
    using Suc.hyps(1)[of "Suc k"] Suc.hyps(2) k by (simp add: add.commute)
  ultimately show ?case
    using assms by (simp add: dumpHex_loop.simps[of _ _ "int k"] schar_val_eq hex_entry_uchar hex_text_step Let_def)
qed

text \<open>Asked for more than the buffer holds, either loop runs into its end.\<close>

lemma hexdump_loop_overrun:
  assumes "k \<le> length data" and "length data < unat len"
  shows "\<exists>u. hexdump_loop data len (int k) oss = Inl u"
  using assms(1)
proof (induction "length data - k" arbitrary: k oss)
  case 0
  then have "to_size_t (int k) \<noteq> len"
    using assms(2) to_size_t_nat[of k] mod_less_eq_dividend[of k "2 ^ 64"] by (metis diff_is_0_eq le_antisym leD)
  with 0 show ?case by (simp add: hexdump_loop.simps)
next
  case (Suc m)
  then have k: "k < length data" by simp
  have "to_size_t (int k) \<noteq> len"
    using k assms(2) to_size_t_nat[of k] mod_less_eq_dividend[of k "2 ^ 64"] by (metis leD le_trans less_imp_le)
  moreover have "\<exists>u. hexdump_loop data len (int k + 1) oss' = Inl u" for oss'
    using Suc.hyps(1)[of "Suc k"] Suc.hyps(2) k by (simp add: add.commute)
  ultimately show ?case
    using k by (simp add: hexdump_loop.simps[of _ _ "int k"] Let_def)
qed

lemma hexdump_overrun: "length data < unat len \<Longrightarrow> \<exists>u. hexdump data len = Inl u"
  unfolding hexdump_def using hexdump_loop_overrun[of 0 data len "[]"] by simp

subsection \<open>The contract of a hex dump\<close>

text \<open>
  What the callers of either function rely on: asked for a prefix of the buffer, it prints the
  reference text of that prefix.
\<close>

locale hex_dumper =
  fixes dump :: "byte list \<Rightarrow> int \<Rightarrow> ub + string"
  assumes dump_text:
    "0 \<le> n \<Longrightarrow> n \<le> INT_MAX \<Longrightarrow> n \<le> int (length data) \<Longrightarrow>
     dump data n = Inr (hex_text 0 (take (nat n) data))"
begin

lemma dump_returns: "int (length bs) \<le> INT_MAX \<Longrightarrow> dump bs (int (length bs)) = Inr (hex_text 0 bs)"
  using dump_text[of "int (length bs)" bs] by simp

lemma dump_read:
  "0 \<le> n \<Longrightarrow> n \<le> INT_MAX \<Longrightarrow> n \<le> int (length data) \<Longrightarrow>
   \<exists>s. dump data n = Inr s \<and> read_hex s = Some (take (nat n) data) \<and> length s = 5 * nat n + nat n div 16"
  using dump_text[of n data] by (simp add: read_hex_text length_hex_text min_absorb2 nat_le_iff)

lemma dump_inj:
  assumes "int (length bs) \<le> INT_MAX" "int (length cs) \<le> INT_MAX"
    and "dump bs (int (length bs)) = dump cs (int (length cs))"
  shows "bs = cs"
proof -
  have "hex_text 0 bs = hex_text 0 cs" using assms by (simp add: dump_returns)
  then have "read_hex (hex_text 0 bs) = read_hex (hex_text 0 cs)" by simp
  then show ?thesis by (simp add: read_hex_text)
qed

end

interpretation io_dump: hex_dumper "\<lambda>data n. hexdump data (to_size_t n)"
proof
  fix n :: int and data :: "byte list"
  assume n: "0 \<le> n" "n \<le> INT_MAX" "n \<le> int (length data)"
  then have "int (nat n) = n" by simp
  then show "hexdump data (to_size_t n) = Inr (hex_text 0 (take (nat n) data))"
    using hexdump_loop_text[of 0 "nat n" data "[]"] n by (simp add: hexdump_def nat_le_iff)
qed

interpretation client_dump: hex_dumper dumpHex
proof
  fix n :: int and data :: "byte list"
  assume n: "0 \<le> n" "n \<le> INT_MAX" "n \<le> int (length data)"
  then have "int (nat n) = n" by simp
  then show "dumpHex data n = Inr (hex_text 0 (take (nat n) data))"
    using dumpHex_loop_text[of 0 "nat n" data "[]"] n by (simp add: dumpHex_def nat_le_iff)
qed

subsection \<open>Properties\<close>

lemma hexdump_defined:
  assumes "int (unat len) \<le> INT_MAX"
  shows "(\<exists>s. hexdump data len = Inr s) \<longleftrightarrow> unat len \<le> length data"
proof
  assume "unat len \<le> length data"
  then have "int (unat len) \<le> int (length data)" by (simp only: of_nat_le_iff)
  moreover have "to_size_t (int (unat len)) = len" by (simp add: to_size_t_def)
  ultimately show "\<exists>s. hexdump data len = Inr s"
    using io_dump.dump_text[OF of_nat_0_le_iff assms, of data] by metis
next
  assume "\<exists>s. hexdump data len = Inr s"
  then show "unat len \<le> length data" using hexdump_overrun[of data len] by (metis leI sum.distinct(1))
qed

lemma dumpHex_loop_overrun:
  assumes "0 \<le> i" and "i \<le> int (length data)" and "n < i \<or> int (length data) < n"
  shows "\<exists>u. dumpHex_loop data n i oss = Inl u"
  using assms
proof (induction data n i oss rule: dumpHex_loop.induct)
  case (1 data n i oss)
  show ?case
  proof (cases "i < int (length data) \<and> i \<noteq> INT_MAX \<and> i \<noteq> n")
    case True
    then have "\<exists>u. dumpHex_loop data n (i + 1)
        ((oss @ hex_entry (schar_val (data ! nat i))) @ line_end i) = Inl u"
      using "1.prems" by (intro "1.IH") auto
    with True "1.prems" show ?thesis by (simp add: dumpHex_loop.simps[of data n i] Let_def)
  next
    case False
    with "1.prems" show ?thesis by (auto simp: dumpHex_loop.simps[of data n i] Let_def)
  qed
qed

lemma dumpHex_defined:
  assumes "n \<le> INT_MAX"
  shows "(\<exists>s. dumpHex data n = Inr s) \<longleftrightarrow> 0 \<le> n \<and> n \<le> int (length data)"
proof
  assume "0 \<le> n \<and> n \<le> int (length data)"
  then show "\<exists>s. dumpHex data n = Inr s" using client_dump.dump_text[of n data] assms by simp
next
  assume "\<exists>s. dumpHex data n = Inr s"
  then show "0 \<le> n \<and> n \<le> int (length data)"
    using dumpHex_loop_overrun[of 0 data n "[]"] unfolding dumpHex_def
    by (metis leI of_nat_0_le_iff order_refl sum.distinct(1))
qed

text \<open>
  C25: The text \<open>IOHelper::hexdump\<close> prints for the first \<open>n\<close> bytes of a buffer can be read
  back to exactly those bytes, and is \<open>5 n + n div 16\<close> characters long.
\<close>

theorem hexdump_roundtrip:
  assumes "0 \<le> n" and "n \<le> INT_MAX" and "n \<le> int (length data)"
  shows "\<exists>s. hexdump data (to_size_t n) = Inr s \<and> read_hex s = Some (take (nat n) data) \<and>
    length s = 5 * nat n + nat n div 16"
  using assms by (rule io_dump.dump_read)

theorem hexdump_roundtrip_witness:
  "\<exists>s. hexdump [0, 255, 16] (to_size_t 2) = Inr s \<and> read_hex s = Some (take (nat 2) [0, 255, 16]) \<and>
    length s = 5 * nat 2 + nat 2 div 16"
  by (rule hexdump_roundtrip) (simp_all add: INT_MAX_def)

text \<open>
  C39: \<open>ThreadsClientHandle::dumpHex\<close>, which reads the bytes as signed characters and counts
  with an \<open>int\<close>, prints the same text as \<open>IOHelper::hexdump\<close> for every prefix of a buffer.
\<close>

theorem dumpHex_hexdump:
  assumes "0 \<le> n" and "n \<le> INT_MAX" and "n \<le> int (length data)"
  shows "dumpHex data n = hexdump data (to_size_t n)"
  using io_dump.dump_text[OF assms] client_dump.dump_text[OF assms] by simp

theorem dumpHex_hexdump_witness:
  "dumpHex [128, 255, 10] 3 = hexdump [128, 255, 10] (to_size_t 3)"
  by (rule dumpHex_hexdump) (simp_all add: INT_MAX_def)

text \<open>
  For lengths up to \<open>INT_MAX\<close>, \<open>hexdump\<close> stays inside the defined language exactly when
  the length does not exceed the buffer, and \<open>dumpHex\<close> exactly when its \<open>int\<close> length is not
  negative either; otherwise both run out of the buffer.
\<close>

lemma dumps_defined:
  assumes "int (unat len) \<le> INT_MAX" and "n \<le> INT_MAX"
  shows "((\<exists>s. hexdump data len = Inr s) \<longleftrightarrow> unat len \<le> length data) \<and>
    ((\<exists>s. dumpHex data n = Inr s) \<longleftrightarrow> 0 \<le> n \<and> n \<le> int (length data))"
  using hexdump_defined[OF assms(1)] dumpHex_defined[OF assms(2)] by simp

end
