(* ===== verification/Posix.thy ===== *)
theory Posix
  imports Prelude
begin

text \<open>
  The operating system as the program sees it.  The kernel is not part of the program: it is a
  parameter, a record of functions that answer each socket call from the history of the calls
  the process has made.  A statement about every such record is a statement about every way
  the system can behave.  The history is kept with the newest event first; the descriptors a
  process holds, the bytes it has sent and received, and \<open>errno\<close> are views of the history.
\<close>

subsection \<open>Calls, answers and events\<close>

datatype errno = EAGAIN | EWOULDBLOCK | EOther int

text \<open>\<open>Fail e\<close> is the answer \<open>-1\<close> with \<open>errno\<close> set to \<open>e\<close>.\<close>

datatype 'a sysres = Fail errno | Done 'a

fun c_ret :: "('a \<Rightarrow> int) \<Rightarrow> 'a sysres \<Rightarrow> int" where
  "c_ret f (Fail e) = -1"
| "c_ret f (Done x) = f x"

datatype domain = AF_INET | AF_INET6

datatype sockopt = SO_REUSEADDR | IPV6_V6ONLY | SO_RCVTIMEO int | SO_SNDTIMEO int

text \<open>Socket addresses; the ports are in network byte order, as in the C structures.\<close>

datatype sockaddr =
    Sockaddr_in "32 word" "16 word"
  | Sockaddr_in6 "128 word" "16 word"

datatype event =
    E_socket domain "int sysres"
  | E_setsockopt int sockopt "int sysres"
  | E_bind int sockaddr "int sysres"
  | E_listen int int "int sysres"
  | E_accept int "int sysres"
  | E_recv int "byte list sysres"
  | E_send int "byte list" int "int sysres"
  | E_close int

type_synonym history = "event list"

text \<open>
  The answers of the system.  \<open>k_accept4\<close> and \<open>k_accept6\<close> give the new descriptor and the
  peer's address and port; the address conversions and the logger's level are library code.
\<close>

record platform =
  k_socket :: "history \<Rightarrow> domain \<Rightarrow> int sysres"
  k_setsockopt :: "history \<Rightarrow> int \<Rightarrow> sockopt \<Rightarrow> int sysres"
  k_bind :: "history \<Rightarrow> int \<Rightarrow> sockaddr \<Rightarrow> int sysres"
  k_listen :: "history \<Rightarrow> int \<Rightarrow> int \<Rightarrow> int sysres"
  k_accept4 :: "history \<Rightarrow> int \<Rightarrow> (int \<times> 32 word \<times> 16 word) sysres"
  k_accept6 :: "history \<Rightarrow> int \<Rightarrow> (int \<times> 128 word \<times> 16 word) sysres"
  k_recv :: "history \<Rightarrow> int \<Rightarrow> nat \<Rightarrow> int \<Rightarrow> byte list sysres"
  k_send :: "history \<Rightarrow> int \<Rightarrow> byte list \<Rightarrow> int \<Rightarrow> int sysres"
  inet_addr :: "string \<Rightarrow> 32 word"
  inet_pton6 :: "string \<Rightarrow> 128 word option"
  inet_ntoa :: "32 word \<Rightarrow> string"
  inet_ntop6 :: "128 word \<Rightarrow> string"
  trace_enabled :: "history \<Rightarrow> bool"

text \<open>Network byte order on a little-endian host.\<close>

definition htons :: "16 word \<Rightarrow> 16 word" where
  "htons w = (push_bit 8 w) OR (drop_bit 8 w)"

definition ntohs :: "16 word \<Rightarrow> 16 word" where
  "ntohs w = (push_bit 8 w) OR (drop_bit 8 w)"

lemma ntohs_htons [simp]: "ntohs (htons w) = w"
proof (rule bit_word_eqI)
  fix n
  assume "n < LENGTH(16)"
  then show "bit (ntohs (htons w)) n = bit w n"
    by (auto simp: ntohs_def htons_def bit_or_iff bit_push_bit_iff bit_drop_bit_eq
        dest: bit_imp_le_length)
qed

subsection \<open>Views of the history\<close>

fun open_fds :: "history \<Rightarrow> int set" where
  "open_fds [] = {}"
| "open_fds (E_socket d r # h) =
     (if 0 \<le> c_ret id r then insert (c_ret id r) (open_fds h) else open_fds h)"
| "open_fds (E_accept s r # h) =
     (if 0 \<le> c_ret id r then insert (c_ret id r) (open_fds h) else open_fds h)"
| "open_fds (E_close fd # h) = open_fds h - {fd}"
| "open_fds (_ # h) = open_fds h"

lemma INVALID_not_open: "INVALID_FD \<notin> open_fds h"
  by (induction h rule: open_fds.induct) (auto simp: INVALID_FD_def split: if_splits)

fun closes_of :: "int \<Rightarrow> history \<Rightarrow> nat" where
  "closes_of fd [] = 0"
| "closes_of fd (E_close fd' # h) = (if fd' = fd then Suc (closes_of fd h) else closes_of fd h)"
| "closes_of fd (_ # h) = closes_of fd h"

fun received :: "int \<Rightarrow> history \<Rightarrow> byte list" where
  "received fd [] = []"
| "received fd (E_recv fd' (Done bs) # h) =
     (if fd' = fd then received fd h @ bs else received fd h)"
| "received fd (_ # h) = received fd h"

fun sent :: "int \<Rightarrow> history \<Rightarrow> byte list" where
  "sent fd [] = []"
| "sent fd (E_send fd' bs fl (Done n) # h) =
     (if fd' = fd then sent fd h @ take (nat n) bs else sent fd h)"
| "sent fd (_ # h) = sent fd h"

fun failed_with :: "event \<Rightarrow> errno option" where
  "failed_with (E_socket d (Fail e)) = Some e"
| "failed_with (E_setsockopt fd opt (Fail e)) = Some e"
| "failed_with (E_bind fd a (Fail e)) = Some e"
| "failed_with (E_listen fd n (Fail e)) = Some e"
| "failed_with (E_accept fd (Fail e)) = Some e"
| "failed_with (E_recv fd (Fail e)) = Some e"
| "failed_with (E_send fd bs fl (Fail e)) = Some e"
| "failed_with _ = None"

text \<open>\<open>errno\<close> is set by a failing call and left alone by a succeeding one.\<close>

fun last_errno :: "history \<Rightarrow> errno" where
  "last_errno [] = EOther 0"
| "last_errno (ev # h) = (case failed_with ev of Some e \<Rightarrow> e | None \<Rightarrow> last_errno h)"

definition would_block :: "history \<Rightarrow> bool" where
  "would_block h \<longleftrightarrow> last_errno h = EAGAIN \<or> last_errno h = EWOULDBLOCK"

subsection \<open>The calls\<close>

definition sys_socket :: "platform \<Rightarrow> domain \<Rightarrow> history \<Rightarrow> int \<times> history" where
  "sys_socket p d h = (let r = k_socket p h d in (c_ret id r, E_socket d r # h))"

definition sys_setsockopt :: "platform \<Rightarrow> int \<Rightarrow> sockopt \<Rightarrow> history \<Rightarrow> int \<times> history" where
  "sys_setsockopt p fd opt h =
     (let r = k_setsockopt p h fd opt in (c_ret id r, E_setsockopt fd opt r # h))"

definition sys_bind :: "platform \<Rightarrow> int \<Rightarrow> sockaddr \<Rightarrow> history \<Rightarrow> int \<times> history" where
  "sys_bind p fd a h = (let r = k_bind p h fd a in (c_ret id r, E_bind fd a r # h))"

definition sys_listen :: "platform \<Rightarrow> int \<Rightarrow> int \<Rightarrow> history \<Rightarrow> int \<times> history" where
  "sys_listen p fd n h = (let r = k_listen p h fd n in (c_ret id r, E_listen fd n r # h))"

fun peer_of :: "(int \<times> 'a \<times> 'b) sysres \<Rightarrow> 'a \<Rightarrow> 'b \<Rightarrow> 'a \<times> 'b" where
  "peer_of (Fail e) a b = (a, b)"
| "peer_of (Done (fd, a', b')) a b = (a', b')"

fun conn_of :: "(int \<times> 'a) sysres \<Rightarrow> int sysres" where
  "conn_of (Fail e) = Fail e"
| "conn_of (Done (fd, a)) = Done fd"

definition sys_accept4 ::
  "platform \<Rightarrow> int \<Rightarrow> history \<Rightarrow> int \<times> (32 word \<times> 16 word) \<times> history" where
  "sys_accept4 p fd h =
     (let r = k_accept4 p h fd
      in (c_ret id (conn_of r), peer_of r 0 0, E_accept fd (conn_of r) # h))"

definition sys_accept6 ::
  "platform \<Rightarrow> int \<Rightarrow> history \<Rightarrow> int \<times> (128 word \<times> 16 word) \<times> history" where
  "sys_accept6 p fd h =
     (let r = k_accept6 p h fd
      in (c_ret id (conn_of r), peer_of r 0 0, E_accept fd (conn_of r) # h))"

fun data_of :: "byte list sysres \<Rightarrow> byte list" where
  "data_of (Fail e) = []"
| "data_of (Done bs) = bs"

definition sys_recv ::
  "platform \<Rightarrow> int \<Rightarrow> nat \<Rightarrow> int \<Rightarrow> history \<Rightarrow> int \<times> byte list \<times> history" where
  "sys_recv p fd n flags h =
     (let r = k_recv p h fd n flags
      in (c_ret (\<lambda>bs. int (length bs)) r, data_of r, E_recv fd r # h))"

definition sys_send ::
  "platform \<Rightarrow> int \<Rightarrow> byte list \<Rightarrow> int \<Rightarrow> history \<Rightarrow> int \<times> history" where
  "sys_send p fd bs flags h =
     (let r = k_send p h fd bs flags in (c_ret id r, E_send fd bs flags r # h))"

definition sys_close :: "int \<Rightarrow> history \<Rightarrow> history" where
  "sys_close fd h = E_close fd # h"

lemmas sys_defs [sys_simps] =
  sys_socket_def sys_setsockopt_def sys_bind_def sys_listen_def sys_accept4_def sys_accept6_def
  sys_recv_def sys_send_def sys_close_def

lemma conn_of_simps [hist_simps]:
  "c_ret id (conn_of r) < 0 \<longleftrightarrow> (case r of Fail e \<Rightarrow> True | Done (fd, a) \<Rightarrow> fd < 0)"
  by (auto split: sysres.splits)

lemma sys_recv_event: "sys_recv p fd n fl h = (r, bs, h') \<Longrightarrow> h' = E_recv fd (k_recv p h fd n fl) # h"
  by (simp add: sys_recv_def Let_def)

subsection \<open>Documented behaviour of the system\<close>

text \<open>
  What POSIX promises and some properties rely on, each named and used as a hypothesis of its
  own: \<open>accept\<close> on a number that is no descriptor of the process fails (\<open>EBADF\<close>);
  \<open>send\<close> takes no more than it is offered; \<open>recv\<close> delivers no more than was asked for.
\<close>

definition accept_ebadf :: "platform \<Rightarrow> bool" where
  "accept_ebadf p \<longleftrightarrow>
     (\<forall>h fd. fd \<notin> open_fds h \<longrightarrow> (\<exists>e. k_accept4 p h fd = Fail e) \<and> (\<exists>e. k_accept6 p h fd = Fail e))"

definition send_bounded :: "platform \<Rightarrow> bool" where
  "send_bounded p \<longleftrightarrow>
     (\<forall>h fd bs fl n. k_send p h fd bs fl = Done n \<longrightarrow> 0 \<le> n \<and> n \<le> int (length bs))"

definition recv_bounded :: "platform \<Rightarrow> bool" where
  "recv_bounded p \<longleftrightarrow>
     (\<forall>h fd n fl bs. k_recv p h fd n fl = Done bs \<longrightarrow> length bs \<le> n)"

lemma send_boundedD:
  "send_bounded p \<Longrightarrow> k_send p h fd bs fl = Done n \<Longrightarrow> 0 \<le> n \<and> n \<le> int (length bs)"
  unfolding send_bounded_def by blast

lemma recv_boundedD:
  "recv_bounded p \<Longrightarrow> k_recv p h fd n fl = Done bs \<Longrightarrow> length bs \<le> n"
  unfolding recv_bounded_def by blast

text \<open>
  Documented behaviour of \<open>send\<close> on a stream socket: given at least one byte, a successful call
  takes at least one, and the count fits in \<open>ssize_t\<close>.  Failures are allowed.
\<close>

definition send_never_zero :: "platform \<Rightarrow> bool" where
  "send_never_zero p \<longleftrightarrow>
     (\<forall>h fd bs fl n. bs \<noteq> [] \<longrightarrow> k_send p h fd bs fl = Done n \<longrightarrow> 0 < n \<and> n < 2 ^ 63)"

lemma send_never_zeroD:
  assumes "send_never_zero p" and "bs \<noteq> []"
  shows "to_size_t (c_ret id (k_send p h fd bs fl)) \<noteq> 0"
proof (cases "k_send p h fd bs fl")
  case (Done n)
  then have n: "0 < n" "n < 2 ^ 63" using assms unfolding send_never_zero_def by blast+
  then have "unat (to_size_t (int (nat n))) = nat n" by (subst to_size_t_nat) simp
  with n have "unat (to_size_t n) \<noteq> 0" by simp
  then show ?thesis using Done by auto
qed (simp add: to_size_t_def)

text \<open>A system for the witnesses: descriptor 3, everything succeeds, nothing is ever accepted.\<close>

definition sample_platform :: platform where
  "sample_platform = \<lparr>
     k_socket = (\<lambda>h d. Done 3),
     k_setsockopt = (\<lambda>h fd opt. Done 0),
     k_bind = (\<lambda>h fd a. Done 0),
     k_listen = (\<lambda>h fd n. Done 0),
     k_accept4 = (\<lambda>h fd. Fail (EOther 9)),
     k_accept6 = (\<lambda>h fd. Fail (EOther 9)),
     k_recv = (\<lambda>h fd n fl. Done (take n [104, 105])),
     k_send = (\<lambda>h fd bs fl. Done (int (length bs))),
     inet_addr = (\<lambda>s. 0x0100007F),
     inet_pton6 = (\<lambda>s. if s = ''::1'' then Some 1 else None),
     inet_ntoa = (\<lambda>a. ''127.0.0.1''),
     inet_ntop6 = (\<lambda>a. ''::1''),
     trace_enabled = (\<lambda>h. False) \<rparr>"

lemma sample_platform_sel [simp]:
  "k_socket sample_platform h d = Done 3"
  "k_setsockopt sample_platform h fd opt = Done 0"
  "k_bind sample_platform h fd a = Done 0"
  "k_listen sample_platform h fd n = Done 0"
  "k_accept4 sample_platform h fd = Fail (EOther 9)"
  "k_accept6 sample_platform h fd = Fail (EOther 9)"
  "k_recv sample_platform h fd m fl = Done (take m [104, 105])"
  "k_send sample_platform h fd bs fl = Done (int (length bs))"
  "inet_addr sample_platform s = 0x0100007F"
  "inet_pton6 sample_platform s = (if s = ''::1'' then Some 1 else None)"
  "trace_enabled sample_platform h = False"
  by (simp_all add: sample_platform_def)

lemma sample_platform_laws:
  "accept_ebadf sample_platform" "send_bounded sample_platform" "recv_bounded sample_platform"
  by (auto simp: accept_ebadf_def send_bounded_def recv_bounded_def)

end
