(* ===== verification/IOHelper.thy ===== *)
theory IOHelper
  imports Posix Hexdump
begin

text \<open>
  \<open>IOHelper::send_bytes\<close> and \<open>IOHelper::recv_bytes\<close> (IOHelper.cpp): the retry loops
  around \<open>send\<close> and \<open>recv\<close>, with the C types of their counters.  The state of a loop is
  its counter, the buffer where the loop writes one, and the call history; the result is the
  returned \<open>bool\<close>, or the undefined behaviour the loop ran into.
\<close>

subsection \<open>send_bytes\<close>

text \<open>
  \<open>send\<close> returns a \<open>ssize_t\<close> that the code stores in \<open>size_t sb\<close>, so the test
  \<open>sb < 0\<close> compares an unsigned value.
\<close>

definition send_body ::
  "platform \<Rightarrow> int \<Rightarrow> byte list \<Rightarrow> size_t \<Rightarrow> int \<Rightarrow> size_t \<times> history \<Rightarrow>
   ((ub + bool) \<times> history) + (size_t \<times> history)" where
  [body_defs]: "send_body p sockfd data len flags = (\<lambda>(total_send, h).
     if total_send < len then
       let left_len = len - total_send in
       if length data < unat total_send + unat left_len then Inl (Inl Out_of_bounds, h)
       else
         let (r, h') = sys_send p sockfd (take (unat left_len) (drop (unat total_send) data)) flags h;
             sb = to_size_t r in
         if sb < 0 then
           (if would_block h' then Inr (total_send, h') else Inl (Inr False, h'))
         else if sb = 0 then Inl (Inr False, h')
         else
           let total_send' = total_send + sb in
           if trace_enabled p h' then
             (case hexdump data sb of
                Inl u \<Rightarrow> Inl (Inl u, h')
              | Inr s \<Rightarrow> Inr (total_send', h'))
           else Inr (total_send', h')
     else Inl (Inr True, h))"

definition send_bytes ::
  "platform \<Rightarrow> nat \<Rightarrow> int \<Rightarrow> byte list \<Rightarrow> size_t \<Rightarrow> int \<Rightarrow> history \<Rightarrow>
   ((ub + bool) \<times> history) option" where
  "send_bytes p fuel sockfd buf len flags h =
     forever (send_body p sockfd buf len flags) fuel (0, h)"

subsection \<open>recv_bytes\<close>

text \<open>What \<open>recv\<close> leaves in the buffer: the received bytes from the given offset on.\<close>

definition store_at :: "nat \<Rightarrow> byte list \<Rightarrow> byte list \<Rightarrow> byte list" where
  "store_at k bs buf = take k buf @ bs @ drop (k + length bs) buf"

definition recv_body ::
  "platform \<Rightarrow> int \<Rightarrow> size_t \<Rightarrow> int \<Rightarrow> size_t \<times> byte list \<times> history \<Rightarrow>
   ((ub + bool) \<times> byte list \<times> history) + (size_t \<times> byte list \<times> history)" where
  [body_defs]: "recv_body p sockfd len flags = (\<lambda>(total_rb, data, h).
     if total_rb < len then
       let (r, bs, h') = sys_recv p sockfd (unat (len - total_rb)) flags h in
       if length data < unat total_rb + length bs then Inl (Inl Out_of_bounds, data, h')
       else
         let data' = store_at (unat total_rb) bs data;
             rb = to_c_int r in
         if rb < 0 then
           (if would_block h' then Inr (total_rb, data', h') else Inl (Inr False, data', h'))
         else if rb = 0 then Inl (Inr False, data', h')
         else
           let total_rb' = total_rb + to_size_t rb in
           if trace_enabled p h' then
             (case hexdump data' (to_size_t rb) of
                Inl u \<Rightarrow> Inl (Inl u, data', h')
              | Inr s \<Rightarrow> Inr (total_rb', data', h'))
           else Inr (total_rb', data', h')
     else Inl (Inr True, data, h))"

definition recv_bytes ::
  "platform \<Rightarrow> nat \<Rightarrow> int \<Rightarrow> byte list \<Rightarrow> size_t \<Rightarrow> int \<Rightarrow> history \<Rightarrow>
   ((ub + bool) \<times> byte list \<times> history) option" where
  "recv_bytes p fuel sockfd buf len flags h =
     forever (recv_body p sockfd len flags) fuel (0, buf, h)"

subsection \<open>Lemmas on send_bytes\<close>

text \<open>The events a run of a loop has added to the history.\<close>

definition added :: "history \<Rightarrow> history \<Rightarrow> history \<Rightarrow> bool" where
  "added h evs h' \<longleftrightarrow> h' = evs @ h"

fun sends_on :: "int \<Rightarrow> event \<Rightarrow> bool" where
  "sends_on fd (E_send fd' bs fl r) = (fd' = fd)"
| "sends_on fd _ = False"

fun send_failed :: "event \<Rightarrow> bool" where
  "send_failed (E_send fd bs fl (Fail e)) = True"
| "send_failed _ = False"

text \<open>The position the loop is at is the number of bytes sent so far, while no call fails.\<close>

definition send_inv :: "int \<Rightarrow> byte list \<Rightarrow> size_t \<Rightarrow> history \<Rightarrow> size_t \<times> history \<Rightarrow> bool" where
  "send_inv fd data len h0 = (\<lambda>(tot, h).
     \<exists>evs. added h0 evs h \<and> list_all (sends_on fd) evs \<and>
       ((\<forall>ev\<in>set evs. \<not> send_failed ev) \<longrightarrow>
         tot \<le> len \<and> sent fd h = sent fd h0 @ take (unat tot) data))"

lemma send_inv_start: "send_inv fd data len h (0, h)"
  by (simp add: send_inv_def added_def)

lemma send_body_step:
  assumes "send_body p fd data len fl (tot, h) = Inr (tot', h')"
  obtains (partial) n where
      "k_send p h fd (take (unat (len - tot)) (drop (unat tot) data)) fl = Done n"
      "h' = E_send fd (take (unat (len - tot)) (drop (unat tot) data)) fl (Done n) # h"
      "tot < len" "unat tot + unat (len - tot) \<le> length data" "tot' = tot + to_size_t n"
      "to_size_t n \<noteq> 0"
  | (failed) e where
      "k_send p h fd (take (unat (len - tot)) (drop (unat tot) data)) fl = Fail e"
      "h' = E_send fd (take (unat (len - tot)) (drop (unat tot) data)) fl (Fail e) # h"
      "tot < len" "tot' = tot - 1"
proof (cases "k_send p h fd (take (unat (len - tot)) (drop (unat tot) data)) fl")
  case (Fail e)
  with assms that(2)[OF Fail] show ?thesis
    by (auto simp: body_defs sys_simps Let_def to_size_t_minus_one split: if_splits sum.splits)
next
  case (Done n)
  with assms that(1)[OF Done] show ?thesis
    by (auto simp: body_defs sys_simps Let_def split: if_splits sum.splits)
qed

text \<open>Moving a \<open>size_t\<close> position forward inside its limit does not wrap around.\<close>

lemma size_t_advance:
  assumes "tot \<le> len" and "0 \<le> n" and "n \<le> int (unat (len - tot))"
  shows "unat (tot + to_size_t n) = unat tot + nat n" and "tot + to_size_t n \<le> len"
proof -
  have sub: "unat (len - tot) = unat len - unat tot" using assms(1) by (rule unat_sub)
  have le: "unat tot \<le> unat len" using assms(1) by (simp add: word_le_nat_alt)
  have len: "unat len < 2 ^ 64" using unsigned_less[of len] by simp
  have "n = int (nat n)" using assms(2) by simp
  moreover have n: "nat n \<le> unat len - unat tot" using assms(3) sub by simp
  ultimately have "unat (to_size_t n) = nat n" using len by (metis to_size_t_nat mod_less diff_le_self le_less_trans)
  then show *: "unat (tot + to_size_t n) = unat tot + nat n"
    using n le len by (simp add: unat_word_ariths)
  show "tot + to_size_t n \<le> len" using * n le by (simp add: word_le_nat_alt)
qed

lemma size_t_left: "tot \<le> len \<Longrightarrow> unat tot + unat (len - tot) = unat len"
  by (simp add: unat_sub word_le_nat_alt)

text \<open>A turn whose \<open>send\<close> took \<open>n\<close> bytes moves the position by \<open>n\<close> and hands over the next \<open>n\<close>.\<close>

lemma send_partial:
  assumes "send_bounded p" and "tot \<le> len"
    and "k_send p h fd (take (unat (len - tot)) (drop (unat tot) data)) fl = Done n"
    and "unat tot + unat (len - tot) \<le> length data"
  shows "tot + to_size_t n \<le> len" "unat (tot + to_size_t n) = unat tot + nat n"
    "take (unat (tot + to_size_t n)) data =
       take (unat tot) data @ take (nat n) (take (unat (len - tot)) (drop (unat tot) data))"
proof -
  have "length (take (unat (len - tot)) (drop (unat tot) data)) = unat (len - tot)"
    using assms(4) by simp
  with send_boundedD[OF assms(1,3)]
  have n: "0 \<le> n" "n \<le> int (unat (len - tot))" by (simp_all only:)
  then have "nat n \<le> unat (len - tot)" by (simp only: nat_le_iff)
  with size_t_advance[OF assms(2) n]
  show "tot + to_size_t n \<le> len" "unat (tot + to_size_t n) = unat tot + nat n"
    "take (unat (tot + to_size_t n)) data =
       take (unat tot) data @ take (nat n) (take (unat (len - tot)) (drop (unat tot) data))"
    by (simp_all add: take_add min_absorb1)
qed

lemma send_inv_step:
  assumes "send_bounded p" and "send_inv fd data len h0 (tot, h)"
    and "send_body p fd data len fl (tot, h) = Inr (tot', h')"
  shows "send_inv fd data len h0 (tot', h')"
proof -
  obtain evs where evs: "added h0 evs h" "list_all (sends_on fd) evs"
    and clean: "(\<forall>ev\<in>set evs. \<not> send_failed ev) \<longrightarrow>
      tot \<le> len \<and> sent fd h = sent fd h0 @ take (unat tot) data"
    using assms(2) by (auto simp: send_inv_def)
  from assms(3) show ?thesis
  proof (cases rule: send_body_step)
    case (partial n)
    with send_partial[OF assms(1) less_imp_le[OF partial(3)] partial(1,4)] evs clean
    show ?thesis
      unfolding send_inv_def added_def by (auto intro!: exI[of _ "_ # evs"])
  next
    case (failed e)
    with evs show ?thesis
      unfolding send_inv_def added_def by (auto intro!: exI[of _ "_ # evs"])
  qed
qed

text \<open>How a turn leaves the function.\<close>

lemma send_body_exit:
  assumes "send_body p fd data len fl (tot, h) = Inl (r, h')"
  shows "(r = Inr True \<and> h' = h \<and> len \<le> tot) \<or>
    (r = Inr False \<and> tot < len \<and> (\<exists>bs n. h' = E_send fd bs fl (Done n) # h \<and> to_size_t n = 0)) \<or>
    (\<exists>u. r = Inl u)"
  using assms
  by (cases "k_send p h fd (take (unat (len - tot)) (drop (unat tot) data)) fl")
    (auto simp: body_defs sys_simps Let_def to_size_t_minus_one split: if_splits sum.splits)

lemma send_bytes_exit:
  assumes "send_bounded p" and "send_bytes p fuel fd data len fl h = Some (Inr b, h')"
  shows "(b \<and> (\<exists>tot. len \<le> tot \<and> send_inv fd data len h (tot, h'))) \<or>
    (\<not> b \<and> (\<exists>bs n h''. h' = E_send fd bs fl (Done n) # h'' \<and> to_size_t n = 0))"
proof -
  have "(fst r = Inr True \<longrightarrow> (\<exists>tot. len \<le> tot \<and> send_inv fd data len h (tot, snd r))) \<and>
      (fst r = Inr False \<longrightarrow> (\<exists>bs n h''. snd r = E_send fd bs fl (Done n) # h'' \<and> to_size_t n = 0))"
    if "forever (send_body p fd data len fl) fuel (0, h) = Some r" for r
    using that
  proof (rule forever_rule[where I = "send_inv fd data len h"])
    show "send_inv fd data len h (0, h)" by (rule send_inv_start)
  next
    fix s s'
    assume "send_inv fd data len h s" "send_body p fd data len fl s = Inr s'"
    with send_inv_step[OF assms(1)] show "send_inv fd data len h s'"
      by (cases s; cases s') metis
  next
    fix s r
    assume "send_inv fd data len h s" "send_body p fd data len fl s = Inl r"
    with send_body_exit show "(fst r = Inr True \<longrightarrow> (\<exists>tot. len \<le> tot \<and> send_inv fd data len h (tot, snd r))) \<and>
      (fst r = Inr False \<longrightarrow> (\<exists>bs n h''. snd r = E_send fd bs fl (Done n) # h'' \<and> to_size_t n = 0))"
      by (cases s; cases r) fastforce
  qed
  from this[OF assms(2)[unfolded send_bytes_def]] show ?thesis by (cases b) auto
qed

text \<open>The function makes no other calls than \<open>send\<close>, and none at all for an empty buffer.\<close>

lemma send_body_event:
  assumes "send_body p fd data len fl (tot, h) = x" and "x = Inr (tot', h') \<or> x = Inl (r, h')"
  shows "h' = h \<or> (\<exists>ev. sends_on fd ev \<and> h' = ev # h)"
  using assms by (auto simp: body_defs sys_simps Let_def split: if_splits sum.splits)

definition only_sends :: "int \<Rightarrow> history \<Rightarrow> history \<Rightarrow> bool" where
  "only_sends fd h h' \<longleftrightarrow> (\<exists>evs. h' = evs @ h \<and> list_all (sends_on fd) evs)"

lemma only_sends_event:
  assumes "only_sends fd h h1" and "h2 = h1 \<or> (\<exists>ev. sends_on fd ev \<and> h2 = ev # h1)"
  shows "only_sends fd h h2"
proof -
  obtain evs where evs: "h1 = evs @ h" "list_all (sends_on fd) evs" using assms(1) by (auto simp: only_sends_def)
  from assms(2) show ?thesis
  proof
    assume "\<exists>ev. sends_on fd ev \<and> h2 = ev # h1"
    then obtain ev where "sends_on fd ev" "h2 = (ev # evs) @ h" using evs(1) by auto
    with evs(2) show ?thesis unfolding only_sends_def by (intro exI[of _ "ev # evs"]) simp
  qed (use assms(1) in simp)
qed

lemma send_bytes_only_sends:
  assumes "send_bytes p fuel fd data len fl h = Some (r, h')"
  shows "only_sends fd h h'"
proof -
  have "only_sends fd h (snd r)" if "forever (send_body p fd data len fl) fuel (0, h) = Some r" for r
    using that
  proof (rule forever_rule[where I = "\<lambda>s. only_sends fd h (snd s)"])
    fix s s'
    assume "only_sends fd h (snd s)" "send_body p fd data len fl s = Inr s'"
    then show "only_sends fd h (snd s')"
      using only_sends_event send_body_event[of p fd data len fl "fst s" "snd s"] by (metis surjective_pairing)
  next
    fix s r
    assume "only_sends fd h (snd s)" "send_body p fd data len fl s = Inl r"
    then show "only_sends fd h (snd r)"
      using only_sends_event send_body_event[of p fd data len fl "fst s" "snd s"] by (metis surjective_pairing)
  qed (simp add: only_sends_def)
  from this[OF assms[unfolded send_bytes_def]] show ?thesis by simp
qed

lemma sends_keep_views:
  assumes "only_sends fd h h'"
  shows "closes_of fd' h' = closes_of fd' h \<and> open_fds h' = open_fds h \<and>
    received fd' h' = received fd' h"
proof -
  have "closes_of fd' (evs @ h) = closes_of fd' h \<and> open_fds (evs @ h) = open_fds h \<and>
      received fd' (evs @ h) = received fd' h" if "list_all (sends_on fd) evs" for evs
    using that
  proof (induction evs)
    case (Cons ev evs)
    then show ?case by (cases ev) auto
  qed simp
  with assms show ?thesis by (auto simp: only_sends_def)
qed

lemma send_bytes_empty: "send_bytes p fuel fd [] 0 fl h = Some (r, h') \<Longrightarrow> r = Inr True \<and> h' = h"
  by (cases fuel) (auto simp: send_bytes_def body_defs)

lemma send_bytes_nothing [simp]: "send_bytes p (Suc n) fd [] 0 fl h = Some (Inr True, h)"
  by (simp add: send_bytes_def body_defs)

text \<open>A system whose \<open>send\<close> always makes progress.\<close>

definition send_progresses :: "platform \<Rightarrow> bool" where
  "send_progresses p \<longleftrightarrow>
     send_bounded p \<and> (\<forall>h fd bs fl. bs \<noteq> [] \<longrightarrow> (\<exists>n > 0. k_send p h fd bs fl = Done n))"

lemma send_progressesD:
  assumes "send_progresses p" and "bs \<noteq> []"
  obtains n where "k_send p h fd bs fl = Done n" "0 < n" "n \<le> int (length bs)"
  using assms send_boundedD unfolding send_progresses_def by metis

lemma send_progresses_bounded: "send_progresses p \<Longrightarrow> send_bounded p"
  by (simp add: send_progresses_def)

text \<open>Each turn of such a send either finishes or gets closer to the end of the buffer.\<close>

lemma send_progress_turn:
  assumes "send_progresses p" and "tot < len" and "unat len \<le> length data"
  obtains n where
    "k_send p h fd (take (unat (len - tot)) (drop (unat tot) data)) fl = Done n"
    "0 < n" "n \<le> int (length data)" "unat (tot + to_size_t n) = unat tot + nat n"
    "tot + to_size_t n \<le> len"
    "take (unat (tot + to_size_t n)) data =
       take (unat tot) data @ take (nat n) (take (unat (len - tot)) (drop (unat tot) data))"
    "unat tot + unat (len - tot) \<le> length data"
proof -
  let ?bs = "take (unat (len - tot)) (drop (unat tot) data)"
  have le: "tot \<le> len" using assms(2) by simp
  have room: "unat tot + unat (len - tot) \<le> length data" using size_t_left[OF le] assms(3) by simp
  then have ln: "length ?bs = unat (len - tot)" by simp
  moreover have "unat (len - tot) \<noteq> 0" using assms(2) size_t_left[OF le] by (simp add: word_less_nat_alt)
  ultimately have "?bs \<noteq> []" by force
  with send_progressesD[OF assms(1)] obtain n
    where k: "k_send p h fd ?bs fl = Done n" and n: "0 < n" "n \<le> int (length ?bs)" by metis
  have "n \<le> int (length data)" using n(2) by simp
  with that[OF k n(1)] send_partial[OF send_progresses_bounded[OF assms(1)] le k room] room
  show ?thesis by blast
qed

definition sent_upto :: "int \<Rightarrow> byte list \<Rightarrow> size_t \<Rightarrow> history \<Rightarrow> size_t \<times> history \<Rightarrow> bool" where
  "sent_upto fd data len h0 = (\<lambda>(tot, h).
     tot \<le> len \<and> sent fd h = sent fd h0 @ take (unat tot) data)"

lemma send_progress_body:
  assumes "send_progresses p" and "unat len \<le> length data" and "int (length data) \<le> INT_MAX"
    and "sent_upto fd data len h0 (tot, h)"
  shows "(tot = len \<and> send_body p fd data len fl (tot, h) = Inl (Inr True, h)) \<or>
    (\<exists>tot' h'. send_body p fd data len fl (tot, h) = Inr (tot', h') \<and>
       sent_upto fd data len h0 (tot', h') \<and> unat (len - tot') < unat (len - tot))"
proof (cases "tot < len")
  case False
  with assms(4) show ?thesis by (auto simp: body_defs sent_upto_def)
next
  case True
  from send_progress_turn[OF assms(1) True assms(2)] obtain n where
    n: "k_send p h fd (take (unat (len - tot)) (drop (unat tot) data)) fl = Done n"
    "0 < n" "n \<le> int (length data)" "unat (tot + to_size_t n) = unat tot + nat n"
    "tot + to_size_t n \<le> len"
    "take (unat (tot + to_size_t n)) data =
       take (unat tot) data @ take (nat n) (take (unat (len - tot)) (drop (unat tot) data))"
    "unat tot + unat (len - tot) \<le> length data" by blast
  have "to_size_t n \<noteq> 0" using n(2,4) by auto
  moreover have "hexdump data (to_size_t n) = Inr (hex_text 0 (take (nat n) data))"
    using io_dump.dump_text[of n data] n(2,3) assms(3) by simp
  moreover have "unat (len - (tot + to_size_t n)) < unat (len - tot)"
    using n(2,4) size_t_left[OF less_imp_le[OF True]] size_t_left[OF n(5)] by simp
  ultimately show ?thesis
    using assms(4) True n by (auto simp: body_defs sys_simps Let_def sent_upto_def)
qed

lemma send_bytes_progress:
  assumes "send_progresses p" and "unat len \<le> length data" and "int (length data) \<le> INT_MAX"
    and "unat len < fuel"
  shows "\<exists>h'. send_bytes p fuel fd data len fl h = Some (Inr True, h') \<and>
    sent fd h' = sent fd h @ take (unat len) data"
proof -
  note turn = send_progress_body[OF assms(1-3)]
  have start: "sent_upto fd data len h (0, h)" by (simp add: sent_upto_def)
  have "\<exists>r. forever (send_body p fd data len fl) fuel (0, h) = Some r"
  proof (rule forever_terminates[where I = "sent_upto fd data len h" and m = "\<lambda>s. unat (len - fst s)"])
    fix s s'
    assume "sent_upto fd data len h s" "send_body p fd data len fl s = Inr s'"
    with turn[of fd h "fst s" "snd s" fl]
    show "sent_upto fd data len h s' \<and> unat (len - fst s') < unat (len - fst s)" by auto
  qed (use assms(4) start in auto)
  then obtain r where r: "forever (send_body p fd data len fl) fuel (0, h) = Some r" by blast
  then have "fst r = Inr True \<and> sent fd (snd r) = sent fd h @ take (unat len) data"
  proof (rule forever_rule[where I = "sent_upto fd data len h"])
    fix s s'
    assume "sent_upto fd data len h s" "send_body p fd data len fl s = Inr s'"
    with turn[of fd h "fst s" "snd s" fl] show "sent_upto fd data len h s'" by auto
  next
    fix s r
    assume "sent_upto fd data len h s" "send_body p fd data len fl s = Inl r"
    with turn[of fd h "fst s" "snd s" fl]
    show "fst r = Inr True \<and> sent fd (snd r) = sent fd h @ take (unat len) data"
      by (auto simp: sent_upto_def)
  qed (rule start)
  with r show ?thesis unfolding send_bytes_def by (cases r) auto
qed

subsection \<open>Lemmas on recv_bytes\<close>

lemma store_at_nil [simp]: "store_at k [] buf = buf"
  by (simp add: store_at_def)

lemma length_store_at: "k + length bs \<le> length buf \<Longrightarrow> length (store_at k bs buf) = length buf"
  by (simp add: store_at_def)

lemma take_store_at: "k \<le> length buf \<Longrightarrow> take (k + length bs) (store_at k bs buf) = take k buf @ bs"
  by (simp add: store_at_def)

lemma drop_store_at:
  "k + length bs \<le> m \<Longrightarrow> m \<le> length buf \<Longrightarrow> drop m (store_at k bs buf) = drop m buf"
  by (simp add: store_at_def)

definition recv_upto ::
  "int \<Rightarrow> byte list \<Rightarrow> size_t \<Rightarrow> history \<Rightarrow> size_t \<times> byte list \<times> history \<Rightarrow> bool" where
  "recv_upto fd buf len h0 = (\<lambda>(tot, data, h).
     tot \<le> len \<and> length data = length buf \<and> drop (unat len) data = drop (unat len) buf \<and>
     received fd h = received fd h0 @ take (unat tot) data)"

text \<open>A closing event: the connection ended, or failed with an error that is no retry.\<close>

fun recv_ended :: "int \<Rightarrow> history \<Rightarrow> bool" where
  "recv_ended fd (E_recv fd' (Done bs) # h) = (fd' = fd \<and> bs = [])"
| "recv_ended fd (E_recv fd' (Fail e) # h) = (fd' = fd \<and> e \<noteq> EAGAIN \<and> e \<noteq> EWOULDBLOCK)"
| "recv_ended fd _ = False"

definition never_again :: "platform \<Rightarrow> bool" where
  "never_again p \<longleftrightarrow> (\<forall>h fd n fl. k_recv p h fd n fl \<noteq> Fail EAGAIN \<and> k_recv p h fd n fl \<noteq> Fail EWOULDBLOCK)"

lemma recv_body_data:
  assumes "recv_bounded p" and "unat len \<le> length buf" and "int (unat len) \<le> INT_MAX"
    and upto: "recv_upto fd buf len h0 (tot, data, h)" and "tot < len" and "bs \<noteq> []"
    and k: "k_recv p h fd (unat (len - tot)) fl = Done bs"
  shows "\<exists>tot' data' h'. recv_body p fd len fl (tot, data, h) = Inr (tot', data', h') \<and>
    recv_upto fd buf len h0 (tot', data', h') \<and> unat (len - tot') < unat (len - tot)"
proof -
  have le: "tot \<le> len" using assms(5) by simp
  have bs: "length bs \<le> unat (len - tot)" using recv_boundedD[OF assms(1) k] .
  then have "int (length bs) \<le> int (unat (len - tot))" by (simp only: of_nat_le_iff)
  from size_t_advance[OF le _ this]
  have adv: "unat (tot + to_size_t (int (length bs))) = unat tot + length bs"
    "tot + to_size_t (int (length bs)) \<le> len" by simp_all
  have room: "unat tot + length bs \<le> unat len" using bs size_t_left[OF le] by simp
  have small: "to_c_int (int (length bs)) = int (length bs)"
    using room assms(3) unfolding INT_MAX_def by (intro to_c_int_small) linarith+
  have len: "length data = length buf" using upto by (simp add: recv_upto_def)
  let ?data = "store_at (unat tot) bs data"
  have "hexdump ?data (to_size_t (int (length bs))) = Inr (hex_text 0 (take (length bs) ?data))"
    using io_dump.dump_text[of "int (length bs)" ?data] room len assms(2,3)
    by (simp add: length_store_at)
  then have "recv_body p fd len fl (tot, data, h) =
      Inr (tot + to_size_t (int (length bs)), ?data, E_recv fd (Done bs) # h)"
    using assms(2,5,6) k small room len by (simp add: body_defs sys_simps Let_def)
  moreover have "recv_upto fd buf len h0 (tot + to_size_t (int (length bs)), ?data, E_recv fd (Done bs) # h)"
    using upto adv bs room len assms(2)
    by (simp add: recv_upto_def length_store_at take_store_at drop_store_at)
  moreover have "unat (len - (tot + to_size_t (int (length bs)))) < unat (len - tot)"
    using adv(1) assms(6) size_t_left[OF le] size_t_left[OF adv(2)] by (cases bs) simp_all
  ultimately show ?thesis by blast
qed

lemma recv_body_other:
  assumes upto: "recv_upto fd buf len h0 (tot, data, h)" and "unat len \<le> length buf"
    and "tot < len" and "k_recv p h fd (unat (len - tot)) fl = r" and "data_of r = []"
  shows "recv_body p fd len fl (tot, data, h) =
     (if r = Fail EAGAIN \<or> r = Fail EWOULDBLOCK then Inr (tot, data, E_recv fd r # h)
      else Inl (Inr False, data, E_recv fd r # h))"
proof -
  have "unat tot \<le> length data"
    using upto assms(2,3) by (simp add: recv_upto_def word_less_nat_alt)
  then show ?thesis
    using assms(3-5)
    by (cases r) (auto simp: body_defs sys_simps Let_def would_block_def to_c_int_small)
qed

lemma recv_body_turn:
  assumes "recv_bounded p" and "unat len \<le> length buf" and "int (unat len) \<le> INT_MAX"
    and upto: "recv_upto fd buf len h0 (tot, data, h)"
  shows "(tot = len \<and> recv_body p fd len fl (tot, data, h) = Inl (Inr True, data, h)) \<or>
    (\<exists>h'. recv_body p fd len fl (tot, data, h) = Inl (Inr False, data, h') \<and> recv_ended fd h' \<and>
       recv_upto fd buf len h0 (tot, data, h')) \<or>
    (\<exists>tot' data' h'. recv_body p fd len fl (tot, data, h) = Inr (tot', data', h') \<and>
       recv_upto fd buf len h0 (tot', data', h') \<and>
       (never_again p \<longrightarrow> unat (len - tot') < unat (len - tot)))"
proof (cases "tot < len")
  case False
  with upto show ?thesis by (auto simp: body_defs recv_upto_def)
next
  case True
  show ?thesis
  proof (cases "data_of (k_recv p h fd (unat (len - tot)) fl) = []")
    case False
    then obtain bs where "k_recv p h fd (unat (len - tot)) fl = Done bs" "bs \<noteq> []"
      by (cases "k_recv p h fd (unat (len - tot)) fl") auto
    with recv_body_data[OF assms True] show ?thesis by blast
  next
    case empty: True
    have ev: "recv_upto fd buf len h0 (tot, data, E_recv fd r # h)" if "data_of r = []" for r
      using upto that by (cases r) (auto simp: recv_upto_def)
    from recv_body_other[OF upto assms(2) True refl empty] ev[OF empty] empty show ?thesis
      by (cases "k_recv p h fd (unat (len - tot)) fl") (auto simp: never_again_def)
  qed
qed

lemma recv_bytes_rule:
  assumes "recv_bounded p" and "unat len \<le> length buf" and "int (unat len) \<le> INT_MAX"
    and "recv_bytes p fuel fd buf len fl h = Some (r, data, h')"
  shows "(r = Inr True \<and> recv_upto fd buf len h (len, data, h')) \<or>
    (r = Inr False \<and> recv_ended fd h' \<and> (\<exists>tot. recv_upto fd buf len h (tot, data, h')))"
  using assms(4) unfolding recv_bytes_def
proof -
  assume run: "forever (recv_body p fd len fl) fuel (0, buf, h) = Some (r, data, h')"
  have "case x of (r, data, h') \<Rightarrow> (r = Inr True \<and> recv_upto fd buf len h (len, data, h')) \<or>
      (r = Inr False \<and> recv_ended fd h' \<and> (\<exists>tot. recv_upto fd buf len h (tot, data, h')))"
    if "forever (recv_body p fd len fl) fuel (0, buf, h) = Some x" for x
    using that
  proof (rule forever_rule[where I = "recv_upto fd buf len h"])
    show "recv_upto fd buf len h (0, buf, h)" by (simp add: recv_upto_def)
  next
    fix s s'
    assume s: "recv_upto fd buf len h s" "recv_body p fd len fl s = Inr s'"
    obtain tot d h1 where "s = (tot, d, h1)" by (cases s)
    with s recv_body_turn[OF assms(1-3), of fd h tot d h1 fl]
    show "recv_upto fd buf len h s'" by auto
  next
    fix s x
    assume s: "recv_upto fd buf len h s" "recv_body p fd len fl s = Inl x"
    obtain tot d h1 where "s = (tot, d, h1)" by (cases s)
    with s recv_body_turn[OF assms(1-3), of fd h tot d h1 fl]
    show "case x of (r, data, h') \<Rightarrow> (r = Inr True \<and> recv_upto fd buf len h (len, data, h')) \<or>
      (r = Inr False \<and> recv_ended fd h' \<and> (\<exists>tot. recv_upto fd buf len h (tot, data, h')))" by auto
  qed
  from this[OF run] show ?thesis by simp
qed

lemma recv_bytes_returns:
  assumes "recv_bounded p" and "never_again p" and "unat len \<le> length buf"
    and "int (unat len) \<le> INT_MAX" and "unat len < fuel"
  shows "\<exists>r. recv_bytes p fuel fd buf len fl h = Some r"
  unfolding recv_bytes_def
proof (rule forever_terminates[where I = "recv_upto fd buf len h" and m = "\<lambda>s. unat (len - fst s)"])
  show "recv_upto fd buf len h (0, buf, h)" by (simp add: recv_upto_def)
  show "unat (len - fst (0, buf, h)) < fuel" using assms(5) by simp
  fix s s'
  assume s: "recv_upto fd buf len h s" "recv_body p fd len fl s = Inr s'"
  obtain tot d h1 where "s = (tot, d, h1)" by (cases s)
  with s assms(2) recv_body_turn[OF assms(1,3,4), of fd h tot d h1 fl]
  show "recv_upto fd buf len h s' \<and> unat (len - fst s') < unat (len - fst s)" by auto
qed

subsection \<open>A failing send\<close>

lemma unat_minus_one: "unat (- 1 :: size_t) = 2 ^ 64 - 1"
  by (simp add: unsigned_minus_1_eq_mask mask_eq_exp_minus_1)

lemma not_less_minus_one [simp]: "\<not> (- 1 :: size_t) < w"
  using word_order.not_eq_extremum[of w] by (metis word_order.extremum_strict)

lemma unat_length [simp]: "length data < 2 ^ 64 \<Longrightarrow> unat (to_size_t (int (length data))) = length data"
  by simp

lemma size_t_pos: "data \<noteq> [] \<Longrightarrow> length data < 2 ^ 64 \<Longrightarrow> 0 < to_size_t (int (length data))"
  by (simp add: word_less_nat_alt)

lemma send_body_error:
  assumes "tot < len" and "unat len \<le> length data"
    and "k_send p h fd (take (unat (len - tot)) (drop (unat tot) data)) fl = Fail e"
  shows "send_body p fd data len fl (tot, h) =
    (let h' = E_send fd (take (unat (len - tot)) (drop (unat tot) data)) fl (Fail e) # h
     in if trace_enabled p h' then
          (case hexdump data (- 1) of Inl u \<Rightarrow> Inl (Inl u, h') | Inr s \<Rightarrow> Inr (tot - 1, h'))
        else Inr (tot - 1, h'))"
  using assms size_t_left[of tot len]
  by (simp add: body_defs sys_simps Let_def to_size_t_minus_one split: sum.splits)

subsection \<open>Properties\<close>

text \<open>
  C15: Over a system whose \<open>send\<close> makes progress, \<open>send_bytes\<close> returns, its result is
  true, and the bytes handed to the connection are the buffer, whatever the sizes of the
  partial writes; at most one turn per byte is needed.
\<close>

theorem send_bytes_delivers:
  assumes "send_progresses p" and "unat len \<le> length data" and "int (length data) \<le> INT_MAX"
    and "unat len < fuel"
  shows "\<exists>h'. send_bytes p fuel fd data len fl h = Some (Inr True, h') \<and>
    sent fd h' = sent fd h @ take (unat len) data"
  using assms by (rule send_bytes_progress)

lemma sample_send_progresses: "send_progresses sample_platform"
  by (simp add: send_progresses_def sample_platform_laws)

theorem send_bytes_delivers_witness:
  "\<exists>h'. send_bytes sample_platform 4 7 [1, 2, 3] 3 0 [] = Some (Inr True, h') \<and>
    sent 7 h' = sent 7 [] @ take (unat (3 :: size_t)) [1, 2, 3]"
  by (rule send_bytes_delivers) (simp_all add: sample_send_progresses INT_MAX_def)

text \<open>
  If \<open>send_bytes\<close> returns true and none of its \<open>send\<close> calls failed, the connection was
  handed exactly the first \<open>len\<close> bytes of the buffer, in order and each once.
\<close>

lemma send_bytes_true_sent:
  assumes "send_bounded p" and "send_bytes p fuel fd data len fl h = Some (Inr True, evs @ h)"
    and "\<forall>ev\<in>set evs. \<not> send_failed ev"
  shows "sent fd (evs @ h) = sent fd h @ take (unat len) data"
  using send_bytes_exit[OF assms(1,2)] assms(3) by (auto simp: send_inv_def added_def)

text \<open>
  \<open>send_bytes\<close> never reports an error of \<open>send\<close>: whenever it returns false, the last
  call answered \<open>0\<close>.
\<close>

lemma send_bytes_false_zero:
  assumes "send_bounded p" and "send_bytes p fuel fd data len fl h = Some (Inr False, h')"
  shows "\<exists>bs n h''. h' = E_send fd bs fl (Done n) # h'' \<and> to_size_t n = 0"
  using send_bytes_exit[OF assms] by simp

text \<open>
  The error test of \<open>send_bytes\<close> compares an unsigned value: when the first \<open>send\<close>
  fails, with whatever error, the function returns true after that one call although nothing was
  sent.
\<close>

lemma send_bytes_error_as_success:
  assumes "data \<noteq> []" and "length data < 2 ^ 64" and "k_send p h fd data fl = Fail e"
    and "\<not> trace_enabled p (E_send fd data fl (Fail e) # h)"
  shows "send_bytes p (Suc (Suc n)) fd data (to_size_t (int (length data))) fl h =
      Some (Inr True, E_send fd data fl (Fail e) # h) \<and>
    sent fd (E_send fd data fl (Fail e) # h) = sent fd h"
  using assms size_t_pos[OF assms(1,2)]
  by (simp add: send_bytes_def send_body_error Let_def) (simp add: body_defs)

text \<open>
  With tracing on, the same failure makes \<open>send_bytes\<close> dump \<open>2 ^ 64 - 1\<close> bytes of the
  buffer, which runs out of it: undefined behaviour instead of an error report.
\<close>

lemma send_bytes_error_traced:
  assumes "data \<noteq> []" and "length data < 2 ^ 64 - 1" and "k_send p h fd data fl = Fail e"
    and "trace_enabled p (E_send fd data fl (Fail e) # h)"
  shows "\<exists>u. send_bytes p (Suc n) fd data (to_size_t (int (length data))) fl h =
    Some (Inl u, E_send fd data fl (Fail e) # h)"
proof -
  have "length data < 2 ^ 64" using assms(2) by simp
  moreover obtain u where "hexdump data (- 1) = Inl u"
    using hexdump_overrun[of data "- 1"] assms(2) by (auto simp: unat_minus_one)
  ultimately show ?thesis
    using assms size_t_pos[of data] by (simp add: send_bytes_def send_body_error Let_def)
qed

lemma send_body_done:
  assumes "tot < len" and "unat len \<le> length data"
    and "k_send p h fd (take (unat (len - tot)) (drop (unat tot) data)) fl = Done n"
    and "to_size_t n \<noteq> 0" and "\<And>h. \<not> trace_enabled p h"
  shows "send_body p fd data len fl (tot, h) =
    Inr (tot + to_size_t n, E_send fd (take (unat (len - tot)) (drop (unat tot) data)) fl (Done n) # h)"
  using assms size_t_left[of tot len] by (simp add: body_defs sys_simps Let_def)

lemma size_t_position:
  assumes "m \<le> n" and "n < 2 ^ 64"
  shows "unat (to_size_t (int m)) = m" "unat (to_size_t (int n) - to_size_t (int m)) = n - m"
    "to_size_t (int m) < to_size_t (int n) \<longleftrightarrow> m < n"
    "to_size_t (int m) + to_size_t (int j) = to_size_t (int (m + j))"
    "0 < m \<Longrightarrow> to_size_t (int m) - 1 = to_size_t (int (m - 1))"
    "0 < m \<Longrightarrow> to_size_t (int m) \<noteq> 0"
proof -
  show u: "unat (to_size_t (int m)) = m" using assms by simp
  moreover have "unat (to_size_t (int n)) = n" using assms by simp
  ultimately show "unat (to_size_t (int n) - to_size_t (int m)) = n - m"
    "to_size_t (int m) < to_size_t (int n) \<longleftrightarrow> m < n"
    using assms by (simp_all add: unat_sub word_le_nat_alt word_less_nat_alt)
  show "to_size_t (int m) + to_size_t (int j) = to_size_t (int (m + j))"
    by (simp add: to_size_t_def)
  show "to_size_t (int m) - 1 = to_size_t (int (m - 1))" if "0 < m"
    using that by (cases m) (simp_all add: to_size_t_def)
  show "to_size_t (int m) \<noteq> 0" if "0 < m" using that u by (metis unsigned_0 less_numeral_extra(3))
qed

text \<open>One turn at position \<open>m\<close> of a buffer sent as a whole.\<close>

lemma send_turn_done:
  assumes "m < length data" and "length data < 2 ^ 64" and "\<And>h. \<not> trace_enabled p h"
    and "k_send p h fd (drop m data) fl = Done (int j)" and "0 < j" and "m + j \<le> length data"
  shows "send_body p fd data (to_size_t (int (length data))) fl (to_size_t (int m), h) =
    Inr (to_size_t (int (m + j)), E_send fd (drop m data) fl (Done (int j)) # h)"
proof -
  note pos = size_t_position[OF less_imp_le[OF assms(1)] assms(2)]
  have "to_size_t (int j) \<noteq> 0" using size_t_position(6)[of j "length data"] assms(2,5,6) by simp
  with send_body_done[of "to_size_t (int m)" "to_size_t (int (length data))" data p h fd fl "int j"] assms
  show ?thesis by (simp only: pos) (simp only: unat_length[OF assms(2)] take_all_iff length_drop order_refl if_True, simp)
qed

lemma send_turn_fail:
  assumes "0 < m" and "m < length data" and "length data < 2 ^ 64" and "\<And>h. \<not> trace_enabled p h"
    and "k_send p h fd (drop m data) fl = Fail e"
  shows "send_body p fd data (to_size_t (int (length data))) fl (to_size_t (int m), h) =
    Inr (to_size_t (int (m - 1)), E_send fd (drop m data) fl (Fail e) # h)"
proof -
  note pos = size_t_position[OF less_imp_le[OF assms(2)] assms(3)]
  have "take (length data - m) (drop m data) = drop m data" by simp
  with send_body_error[of "to_size_t (int m)" "to_size_t (int (length data))" data p h fd fl e] assms(1,2,4,5)
  show ?thesis by (simp only: pos unat_length[OF assms(3)]) (simp add: Let_def)
qed

text \<open>
  C38: A failure in the middle is not reported either: it moves the position one byte back, so
  the retry hands the last byte of the part already sent over a second time, and the function
  returns true with a corrupted stream.
\<close>

theorem send_bytes_error_duplicates:
  fixes k :: nat
  defines "hist1 \<equiv> \<lambda>h fd data fl. E_send fd data fl (Done (int k)) # h"
  defines "hist2 \<equiv> \<lambda>h fd data fl e. E_send fd (drop k data) fl (Fail e) # hist1 h fd data fl"
  assumes "0 < k" and "k < length data" and "length data < 2 ^ 64"
    and "\<And>h. \<not> trace_enabled p h"
    and "k_send p h fd data fl = Done (int k)"
    and "k_send p (hist1 h fd data fl) fd (drop k data) fl = Fail e"
    and "k_send p (hist2 h fd data fl e) fd (drop (k - 1) data) fl = Done (int (length data - (k - 1)))"
  shows "\<exists>h'. send_bytes p (Suc (Suc (Suc (Suc n)))) fd data (to_size_t (int (length data))) fl h =
      Some (Inr True, h') \<and>
    sent fd h' = sent fd h @ take k data @ drop (k - 1) data"
proof -
  let ?len = "to_size_t (int (length data))"
  let ?h1 = "hist1 h fd data fl" and ?h2 = "hist2 h fd data fl e"
  let ?h3 = "E_send fd (drop (k - 1) data) fl (Done (int (length data - (k - 1)))) # ?h2"
  have zero: "(0 :: size_t) = to_size_t (int 0)" by (simp add: to_size_t_def)
  have data: "data \<noteq> []" using assms(4) by auto
  have "send_body p fd data ?len fl (to_size_t (int 0), h) = Inr (to_size_t (int k), ?h1)"
    using send_turn_done[of 0 data p h fd fl k] assms data by simp
  moreover have "send_body p fd data ?len fl (to_size_t (int k), ?h1) = Inr (to_size_t (int (k - 1)), ?h2)"
    using send_turn_fail[of k data p ?h1 fd fl e] assms by simp
  moreover have "send_body p fd data ?len fl (to_size_t (int (k - 1)), ?h2) = Inr (?len, ?h3)"
    using send_turn_done[of "k - 1" data p ?h2 fd fl "length data - (k - 1)"] assms by simp
  moreover have "send_body p fd data ?len fl (?len, ?h3) = Inl (Inr True, ?h3)"
    by (simp add: body_defs)
  ultimately have "send_bytes p (Suc (Suc (Suc (Suc n)))) fd data ?len fl h = Some (Inr True, ?h3)"
    unfolding send_bytes_def zero by (simp del: of_nat_0 of_nat_diff)
  moreover have "sent fd ?h3 = sent fd h @ take k data @ drop (k - 1) data"
    by (simp add: assms(1,2))
  ultimately show ?thesis by blast
qed

theorem send_bytes_error_duplicates_witness:
  "\<exists>h'. send_bytes (sample_platform\<lparr>k_send := \<lambda>h fd bs fl.
        case h of [] \<Rightarrow> Done 1 | [ev] \<Rightarrow> Fail EAGAIN | _ \<Rightarrow> Done (int (length bs))\<rparr>)
      (Suc (Suc (Suc (Suc 0)))) 7 [1, 2] (to_size_t (int (length [1, 2 :: byte]))) 0 [] = Some (Inr True, h') \<and>
    sent 7 h' = sent 7 [] @ take 1 [1, 2] @ drop (1 - 1) [1, 2]"
  by (rule send_bytes_error_duplicates) simp_all

text \<open>
  C30: What \<open>recv_bytes\<close> does: it has no undefined behaviour and returns true only when the first
  \<open>len\<close> bytes of the buffer are exactly the bytes received during the call, in order, and false only
  when the connection has ended or failed, with what was received until then at the front of the
  buffer; the rest of the buffer is as before, and the retries after \<open>EAGAIN\<close> lose and duplicate
  nothing.  Over a system that never answers \<open>EAGAIN\<close> or \<open>EWOULDBLOCK\<close> it returns within
  \<open>len + 1\<close> turns.
\<close>

theorem recv_bytes_spec:
  assumes "recv_bounded p" and "unat len \<le> length buf" and "int (unat len) \<le> INT_MAX"
  shows "(\<forall>r data h'. recv_bytes p fuel fd buf len fl h = Some (r, data, h') \<longrightarrow>
      length data = length buf \<and> drop (unat len) data = drop (unat len) buf \<and>
      (r = Inr True \<and> received fd h' = received fd h @ take (unat len) data \<or>
       r = Inr False \<and> recv_ended fd h' \<and> (\<exists>n \<le> unat len. received fd h' = received fd h @ take n data))) \<and>
    (never_again p \<and> unat len < fuel \<longrightarrow> (\<exists>r. recv_bytes p fuel fd buf len fl h = Some r))"
proof (intro conjI allI impI)
  fix r data h'
  assume "recv_bytes p fuel fd buf len fl h = Some (r, data, h')"
  from recv_bytes_rule[OF assms this]
  show "length data = length buf" "drop (unat len) data = drop (unat len) buf"
    "r = Inr True \<and> received fd h' = received fd h @ take (unat len) data \<or>
       r = Inr False \<and> recv_ended fd h' \<and> (\<exists>n \<le> unat len. received fd h' = received fd h @ take n data)"
    by (auto simp: recv_upto_def word_le_nat_alt)
next
  assume "never_again p \<and> unat len < fuel"
  with assms show "\<exists>r. recv_bytes p fuel fd buf len fl h = Some r" by (intro recv_bytes_returns) simp_all
qed

lemma sample_recv_run:
  "recv_bytes sample_platform (Suc (Suc (Suc 0))) 7 [0, 0, 0, 9] 3 0 [] =
    Some (Inr True, [104, 105, 104, 9], [E_recv 7 (Done [104]), E_recv 7 (Done [104, 105])])"
  by (simp add: recv_bytes_def body_defs sys_simps Let_def to_c_int_small to_size_t_def store_at_def)

theorem recv_bytes_spec_witness:
  "received 7 [E_recv 7 (Done [104]), E_recv 7 (Done [104, 105])] =
      received 7 [] @ take (unat (3 :: size_t)) [104, 105, 104, 9] \<and>
    drop (unat (3 :: size_t)) [104, 105, 104, 9 :: byte] = drop (unat (3 :: size_t)) [0, 0, 0, 9] \<and>
    (\<exists>r. recv_bytes sample_platform 6 7 [0, 0, 0, 0, 0] 5 0 [] = Some r)"
proof -
  have i: "unat (3 :: size_t) \<le> length [0, 0, 0, 9 :: byte]" "int (unat (3 :: size_t)) \<le> INT_MAX"
    "unat (5 :: size_t) \<le> length [0, 0, 0, 0, 0 :: byte]" "int (unat (5 :: size_t)) \<le> INT_MAX"
    "never_again sample_platform" by (simp_all add: INT_MAX_def never_again_def)
  from recv_bytes_spec[OF sample_platform_laws(3) i(1,2)] sample_recv_run
    recv_bytes_spec[OF sample_platform_laws(3) i(3,4), of 6 7 0 "[]"] i(5)
  show ?thesis by fastforce
qed

end
