(* ===== verification/Client_Handle.thy ===== *)
theory Client_Handle
  imports IOHelper
begin

text \<open>
  The clients of the older servers: \<open>IPV4ThreadsClientHandle\<close> and \<open>IPV6ThreadsClientHandle\<close>
  with the state of \<open>ThreadsClientHandle\<close>.  \<open>doWork\<close> starts a reader thread that pushes every
  received message into a queue and a writer thread that sends the messages back.  The three
  threads are functions from a state to the state after their next step, \<open>None\<close> when they
  cannot take one; the section under \<open>mMutex\<close> is one step of each thread, a call of \<open>send\<close>
  or \<open>recv\<close> is one step, and a close is a step of its own before the field is invalidated.
  The \<open>SIGPIPE\<close> that the IPv6 writer does not block is the subject of the theory Process.
\<close>

subsection \<open>State\<close>

datatype family = V4 | V6

datatype work_pc = D_Read | D_Write | D_JoinRead | D_JoinWrite | D_Done

datatype reader_pc =
    Rd_Unborn | Rd_Start | Rd_Recv | Rd_Push "byte list" | Rd_Notify
  | Rd_Close | Rd_Clear | Rd_Last | Rd_Done | Rd_Throw | Rd_Undefined

datatype writer_pc =
    Wr_Unborn | Wr_Start | Wr_Top | Wr_Wait | Wr_Send "byte list" size_t
  | Wr_ErrClose | Wr_ErrClear | Wr_After | Wr_Close | Wr_Clear | Wr_Done | Wr_Throw | Wr_Undefined

text \<open>
  \<open>cast_ok\<close> is the outcome of the \<open>dynamic_pointer_cast\<close> of the context; \<open>hfd\<close> is the
  context's \<open>mClientFd\<close>; \<open>notified\<close> says that a notification found the writer waiting.
\<close>

record handle =
  hhist :: history
  cast_ok :: bool
  hfd :: int
  mMessageQueue :: "byte list list"
  notified :: bool
  work :: work_pc
  rd :: reader_pc
  wr :: writer_pc

definition ThreadsClientHandle :: "bool \<Rightarrow> int \<Rightarrow> history \<Rightarrow> handle" where
  "ThreadsClientHandle ok fd h =
     \<lparr>hhist = h, cast_ok = ok, hfd = fd, mMessageQueue = [], notified = False,
      work = D_Read, rd = Rd_Unborn, wr = Wr_Unborn\<rparr>"

definition MAX_MESSAGEBUFF_LEN_s :: nat where
  "MAX_MESSAGEBUFF_LEN_s = 1024 * 1024 * 1"

subsection \<open>The threads\<close>

text \<open>
  \<open>doWork\<close> of both classes: create the reader, create the writer, join them in this order.
\<close>

definition IPV4_doWork :: "handle \<Rightarrow> handle option" where
  "IPV4_doWork s = (case work s of
     D_Read \<Rightarrow> Some (s\<lparr>work := D_Write, rd := Rd_Start\<rparr>)
   | D_Write \<Rightarrow> Some (s\<lparr>work := D_JoinRead, wr := Wr_Start\<rparr>)
   | D_JoinRead \<Rightarrow> if rd s = Rd_Done then Some (s\<lparr>work := D_JoinWrite\<rparr>) else None
   | D_JoinWrite \<Rightarrow> if wr s = Wr_Done then Some (s\<lparr>work := D_Done\<rparr>) else None
   | D_Done \<Rightarrow> None)"

definition IPV6_doWork :: "handle \<Rightarrow> handle option" where
  "IPV6_doWork s = (case work s of
     D_Read \<Rightarrow> Some (s\<lparr>work := D_Write, rd := Rd_Start\<rparr>)
   | D_Write \<Rightarrow> Some (s\<lparr>work := D_JoinRead, wr := Wr_Start\<rparr>)
   | D_JoinRead \<Rightarrow> if rd s = Rd_Done then Some (s\<lparr>work := D_JoinWrite\<rparr>) else None
   | D_JoinWrite \<Rightarrow> if wr s = Wr_Done then Some (s\<lparr>work := D_Done\<rparr>) else None
   | D_Done \<Rightarrow> None)"

text \<open>\<open>notify_one\<close> wakes the writer if it waits and is lost otherwise.\<close>

definition notify_one :: "handle \<Rightarrow> handle" where
  "notify_one s = s\<lparr>notified := notified s \<or> wr s = Wr_Wait\<rparr>"

text \<open>
  The readers.  The IPv4 message is the bytes received; the IPv6 message reads the zeroed buffer as
  a C string, which ends at the first zero byte, the zero after the received bytes included, and has
  no end when the buffer is full.
\<close>

definition IPV4_handleReadEvent :: "platform \<Rightarrow> handle \<Rightarrow> handle option" where
  "IPV4_handleReadEvent p s = (case rd s of
     Rd_Unborn \<Rightarrow> None
   | Rd_Start \<Rightarrow> Some (s\<lparr>rd := (if cast_ok s then Rd_Recv else Rd_Throw)\<rparr>)
   | Rd_Recv \<Rightarrow> (case sys_recv p (hfd s) MAX_MESSAGEBUFF_LEN_s 0 (hhist s) of (r, bs, h) \<Rightarrow>
       let rb = to_c_int r; s' = s\<lparr>hhist := h\<rparr> in
       Some (if rb < 0 then (if would_block h then s'\<lparr>rd := Rd_Recv\<rparr> else s'\<lparr>rd := Rd_Close\<rparr>)
         else if rb = 0 then s'\<lparr>rd := Rd_Close\<rparr>
         else s'\<lparr>rd := Rd_Push (take (nat rb) bs)\<rparr>))
   | Rd_Push m \<Rightarrow> Some (s\<lparr>mMessageQueue := mMessageQueue s @ [m], rd := Rd_Notify\<rparr>)
   | Rd_Notify \<Rightarrow> Some ((notify_one s)\<lparr>rd := Rd_Recv\<rparr>)
   | Rd_Close \<Rightarrow> Some (s\<lparr>hhist := sys_close (hfd s) (hhist s), rd := Rd_Clear\<rparr>)
   | Rd_Clear \<Rightarrow> Some (s\<lparr>hfd := INVALID_FD, rd := Rd_Last\<rparr>)
   | Rd_Last \<Rightarrow> Some ((notify_one s)\<lparr>rd := Rd_Done\<rparr>)
   | Rd_Done \<Rightarrow> None | Rd_Throw \<Rightarrow> None | Rd_Undefined \<Rightarrow> None)"

definition c_string :: "byte list \<Rightarrow> ub + byte list" where
  "c_string bs =
     (if length bs < MAX_MESSAGEBUFF_LEN_s \<or> 0 \<in> set bs then Inr (takeWhile (\<lambda>b. b \<noteq> 0) bs)
      else Inl Out_of_bounds)"

definition IPV6_handleReadEvent :: "platform \<Rightarrow> handle \<Rightarrow> handle option" where
  "IPV6_handleReadEvent p s = (case rd s of
     Rd_Unborn \<Rightarrow> None
   | Rd_Start \<Rightarrow> Some (s\<lparr>rd := (if cast_ok s then Rd_Recv else Rd_Throw)\<rparr>)
   | Rd_Recv \<Rightarrow> (case sys_recv p (hfd s) MAX_MESSAGEBUFF_LEN_s 0 (hhist s) of (r, bs, h) \<Rightarrow>
       let rb = to_c_int r; s' = s\<lparr>hhist := h\<rparr> in
       Some (if rb < 0 then (if would_block h then s'\<lparr>rd := Rd_Recv\<rparr> else s'\<lparr>rd := Rd_Close\<rparr>)
         else if rb = 0 then s'\<lparr>rd := Rd_Close\<rparr>
         else (case c_string (take (nat rb) bs) of
           Inl u \<Rightarrow> s'\<lparr>rd := Rd_Undefined\<rparr>
         | Inr m \<Rightarrow> s'\<lparr>rd := Rd_Push m\<rparr>)))
   | Rd_Push m \<Rightarrow> Some (s\<lparr>mMessageQueue := mMessageQueue s @ [m], rd := Rd_Notify\<rparr>)
   | Rd_Notify \<Rightarrow> Some ((notify_one s)\<lparr>rd := Rd_Recv\<rparr>)
   | Rd_Close \<Rightarrow> Some (s\<lparr>hhist := sys_close (hfd s) (hhist s), rd := Rd_Clear\<rparr>)
   | Rd_Clear \<Rightarrow> Some (s\<lparr>hfd := INVALID_FD, rd := Rd_Last\<rparr>)
   | Rd_Last \<Rightarrow> Some ((notify_one s)\<lparr>rd := Rd_Done\<rparr>)
   | Rd_Done \<Rightarrow> None | Rd_Throw \<Rightarrow> None | Rd_Undefined \<Rightarrow> None)"

text \<open>
  The writers.  Past the condition variable and still under the lock, a writer leaves when the
  descriptor is gone and otherwise takes the front of the queue, which \<open>std::queue\<close> leaves
  undefined when there is none.  Woken up, the IPv4 writer tests the queue again; the IPv6 writer
  does not.  \<open>send\<close> returns into a \<open>size_t\<close>, so the test for an error is never true.
\<close>

definition IPV4_take :: "handle \<Rightarrow> handle" where
  "IPV4_take s =
     (if hfd s = INVALID_FD then s\<lparr>wr := Wr_Done\<rparr>
      else (case mMessageQueue s of
        [] \<Rightarrow> s\<lparr>wr := Wr_Undefined\<rparr>
      | send_msg # q \<Rightarrow> s\<lparr>mMessageQueue := q, wr := Wr_Send send_msg 0\<rparr>))"

definition IPV4_send_turn :: "platform \<Rightarrow> byte list \<Rightarrow> size_t \<Rightarrow> handle \<Rightarrow> handle" where
  "IPV4_send_turn p m total_send s =
     (let size = to_size_t (int (length m)) in
      if total_send < size
      then (case sys_send p (hfd s) (take (unat (size - total_send)) (drop (unat total_send) m)) 0x4000 (hhist s) of
        (r, h) \<Rightarrow>
          let sb = to_size_t r; s' = s\<lparr>hhist := h\<rparr> in
          if sb < 0 then (if would_block h then s'\<lparr>wr := Wr_Send m total_send\<rparr> else s'\<lparr>wr := Wr_ErrClose\<rparr>)
          else if sb = 0 then s'\<lparr>wr := Wr_ErrClose\<rparr>
          else s'\<lparr>wr := Wr_Send m (total_send + sb)\<rparr>)
      else s\<lparr>wr := Wr_After\<rparr>)"

definition IPV4_handleWriteEvent :: "platform \<Rightarrow> handle \<Rightarrow> handle option" where
  "IPV4_handleWriteEvent p s = (case wr s of
     Wr_Unborn \<Rightarrow> None
   | Wr_Start \<Rightarrow> Some (s\<lparr>wr := (if cast_ok s then Wr_Top else Wr_Throw)\<rparr>)
   | Wr_Top \<Rightarrow> Some (if mMessageQueue s = [] then s\<lparr>wr := Wr_Wait, notified := False\<rparr> else IPV4_take s)
   | Wr_Wait \<Rightarrow> if notified s then Some (s\<lparr>wr := Wr_Top, notified := False\<rparr>) else None
   | Wr_Send send_msg total_send \<Rightarrow> Some (IPV4_send_turn p send_msg total_send s)
   | Wr_ErrClose \<Rightarrow> Some (s\<lparr>hhist := sys_close (hfd s) (hhist s), wr := Wr_ErrClear\<rparr>)
   | Wr_ErrClear \<Rightarrow> Some (s\<lparr>hfd := INVALID_FD, wr := Wr_After\<rparr>)
   | Wr_After \<Rightarrow> Some (s\<lparr>wr := (if hfd s = INVALID_FD then Wr_Done else Wr_Top)\<rparr>)
   | Wr_Close \<Rightarrow> None | Wr_Clear \<Rightarrow> None
   | Wr_Done \<Rightarrow> None | Wr_Throw \<Rightarrow> None | Wr_Undefined \<Rightarrow> None)"

definition IPV6_take :: "handle \<Rightarrow> handle" where
  "IPV6_take s =
     (if hfd s = INVALID_FD then s\<lparr>wr := Wr_Close\<rparr>
      else (case mMessageQueue s of
        [] \<Rightarrow> s\<lparr>wr := Wr_Undefined\<rparr>
      | send_msg # q \<Rightarrow> s\<lparr>mMessageQueue := q, wr := Wr_Send send_msg 0\<rparr>))"

definition IPV6_send_turn :: "platform \<Rightarrow> byte list \<Rightarrow> size_t \<Rightarrow> handle \<Rightarrow> handle" where
  "IPV6_send_turn p m total_send s =
     (let size = to_size_t (int (length m)) in
      if total_send < size
      then (case sys_send p (hfd s) (take (unat (size - total_send)) (drop (unat total_send) m)) 0 (hhist s) of
        (r, h) \<Rightarrow>
          let sb = to_size_t r; s' = s\<lparr>hhist := h\<rparr> in
          if sb < 0 then (if would_block h then s'\<lparr>wr := Wr_Send m total_send\<rparr> else s'\<lparr>wr := Wr_Top\<rparr>)
          else if sb = 0 then s'\<lparr>wr := Wr_Top\<rparr>
          else s'\<lparr>wr := Wr_Send m (total_send + sb)\<rparr>)
      else s\<lparr>wr := Wr_Top\<rparr>)"

definition IPV6_handleWriteEvent :: "platform \<Rightarrow> handle \<Rightarrow> handle option" where
  "IPV6_handleWriteEvent p s = (case wr s of
     Wr_Unborn \<Rightarrow> None
   | Wr_Start \<Rightarrow> Some (s\<lparr>wr := (if cast_ok s then Wr_Top else Wr_Throw)\<rparr>)
   | Wr_Top \<Rightarrow> Some (if mMessageQueue s = [] then s\<lparr>wr := Wr_Wait, notified := False\<rparr> else IPV6_take s)
   | Wr_Wait \<Rightarrow> if notified s then Some (IPV6_take (s\<lparr>notified := False\<rparr>)) else None
   | Wr_Send send_msg total_send \<Rightarrow> Some (IPV6_send_turn p send_msg total_send s)
   | Wr_Close \<Rightarrow> Some (s\<lparr>hhist := sys_close (hfd s) (hhist s), wr := Wr_Clear\<rparr>)
   | Wr_Clear \<Rightarrow> Some (s\<lparr>hfd := INVALID_FD, wr := Wr_Done\<rparr>)
   | Wr_ErrClose \<Rightarrow> None | Wr_ErrClear \<Rightarrow> None | Wr_After \<Rightarrow> None
   | Wr_Done \<Rightarrow> None | Wr_Throw \<Rightarrow> None | Wr_Undefined \<Rightarrow> None)"

subsection \<open>The virtual functions\<close>

text \<open>The three virtual functions of \<open>ThreadsClientHandle\<close>, selected by the class of the handle.\<close>

fun doWork_next :: "family \<Rightarrow> handle \<Rightarrow> handle option" where
  "doWork_next V4 s = IPV4_doWork s"
| "doWork_next V6 s = IPV6_doWork s"

fun reader_next :: "family \<Rightarrow> platform \<Rightarrow> handle \<Rightarrow> handle option" where
  "reader_next V4 p s = IPV4_handleReadEvent p s"
| "reader_next V6 p s = IPV6_handleReadEvent p s"

fun writer_next :: "family \<Rightarrow> platform \<Rightarrow> handle \<Rightarrow> handle option" where
  "writer_next V4 p s = IPV4_handleWriteEvent p s"
| "writer_next V6 p s = IPV6_handleWriteEvent p s"

declare doWork_next.simps [simp del] reader_next.simps [simp del] writer_next.simps [simp del]

text \<open>
  The two classes differ in a few places only.  The functions below name these, and the lemmas
  after them give the steps of both classes in one form, which the proofs use.
\<close>

lemma doWork_next_eq: "doWork_next f s = (case work s of
     D_Read \<Rightarrow> Some (s\<lparr>work := D_Write, rd := Rd_Start\<rparr>)
   | D_Write \<Rightarrow> Some (s\<lparr>work := D_JoinRead, wr := Wr_Start\<rparr>)
   | D_JoinRead \<Rightarrow> if rd s = Rd_Done then Some (s\<lparr>work := D_JoinWrite\<rparr>) else None
   | D_JoinWrite \<Rightarrow> if wr s = Wr_Done then Some (s\<lparr>work := D_Done\<rparr>) else None
   | D_Done \<Rightarrow> None)"
  by (cases f) (simp_all add: doWork_next.simps IPV4_doWork_def IPV6_doWork_def)

fun recv_message :: "family \<Rightarrow> byte list \<Rightarrow> ub + byte list" where
  "recv_message V4 bs = Inr bs"
| "recv_message V6 bs = c_string bs"

definition after_recv_s :: "family \<Rightarrow> int \<Rightarrow> byte list \<Rightarrow> history \<Rightarrow> reader_pc" where
  "after_recv_s f r bs h =
     (let rb = to_c_int r in
      if rb < 0 then (if would_block h then Rd_Recv else Rd_Close)
      else if rb = 0 then Rd_Close
      else (case recv_message f (take (nat rb) bs) of Inl u \<Rightarrow> Rd_Undefined | Inr m \<Rightarrow> Rd_Push m))"

lemma reader_next_eq: "reader_next f p s = (case rd s of
     Rd_Unborn \<Rightarrow> None
   | Rd_Start \<Rightarrow> Some (s\<lparr>rd := (if cast_ok s then Rd_Recv else Rd_Throw)\<rparr>)
   | Rd_Recv \<Rightarrow> (case sys_recv p (hfd s) MAX_MESSAGEBUFF_LEN_s 0 (hhist s) of
       (r, bs, h) \<Rightarrow> Some (s\<lparr>hhist := h, rd := after_recv_s f r bs h\<rparr>))
   | Rd_Push m \<Rightarrow> Some (s\<lparr>mMessageQueue := mMessageQueue s @ [m], rd := Rd_Notify\<rparr>)
   | Rd_Notify \<Rightarrow> Some ((notify_one s)\<lparr>rd := Rd_Recv\<rparr>)
   | Rd_Close \<Rightarrow> Some (s\<lparr>hhist := sys_close (hfd s) (hhist s), rd := Rd_Clear\<rparr>)
   | Rd_Clear \<Rightarrow> Some (s\<lparr>hfd := INVALID_FD, rd := Rd_Last\<rparr>)
   | Rd_Last \<Rightarrow> Some ((notify_one s)\<lparr>rd := Rd_Done\<rparr>)
   | Rd_Done \<Rightarrow> None | Rd_Throw \<Rightarrow> None | Rd_Undefined \<Rightarrow> None)"
  by (cases f) (auto simp: reader_next.simps IPV4_handleReadEvent_def IPV6_handleReadEvent_def after_recv_s_def Let_def
      split: reader_pc.split prod.split sum.split)

fun exit_pc :: "family \<Rightarrow> writer_pc" where
  "exit_pc V4 = Wr_Done"
| "exit_pc V6 = Wr_Close"

definition take_message :: "family \<Rightarrow> handle \<Rightarrow> handle" where
  "take_message f s =
     (if hfd s = INVALID_FD then s\<lparr>wr := exit_pc f\<rparr>
      else (case mMessageQueue s of
        [] \<Rightarrow> s\<lparr>wr := Wr_Undefined\<rparr>
      | m # q \<Rightarrow> s\<lparr>mMessageQueue := q, wr := Wr_Send m 0\<rparr>))"

lemma take_message_IPV: "IPV4_take = take_message V4" "IPV6_take = take_message V6"
  by (auto simp: IPV4_take_def IPV6_take_def take_message_def fun_eq_iff)

fun woken :: "family \<Rightarrow> handle \<Rightarrow> handle" where
  "woken V4 s = s\<lparr>wr := Wr_Top, notified := False\<rparr>"
| "woken V6 s = take_message V6 (s\<lparr>notified := False\<rparr>)"

fun send_flags :: "family \<Rightarrow> int" where
  "send_flags V4 = 0x4000"
| "send_flags V6 = 0"

fun sent_pc :: "family \<Rightarrow> writer_pc" where
  "sent_pc V4 = Wr_After"
| "sent_pc V6 = Wr_Top"

fun zero_pc :: "family \<Rightarrow> writer_pc" where
  "zero_pc V4 = Wr_ErrClose"
| "zero_pc V6 = Wr_Top"

definition send_turn :: "family \<Rightarrow> platform \<Rightarrow> byte list \<Rightarrow> size_t \<Rightarrow> handle \<Rightarrow> handle" where
  "send_turn f p m total_send s =
     (let size = to_size_t (int (length m)) in
      if total_send < size
      then (case sys_send p (hfd s) (take (unat (size - total_send)) (drop (unat total_send) m)) (send_flags f) (hhist s) of
        (r, h) \<Rightarrow>
          let sb = to_size_t r in
          s\<lparr>hhist := h, wr := (if sb < 0 then (if would_block h then Wr_Send m total_send else zero_pc f)
            else if sb = 0 then zero_pc f
            else Wr_Send m (total_send + sb))\<rparr>)
      else s\<lparr>wr := sent_pc f\<rparr>)"

lemma send_turn_IPV: "IPV4_send_turn = send_turn V4" "IPV6_send_turn = send_turn V6"
  by (auto simp: IPV4_send_turn_def IPV6_send_turn_def send_turn_def fun_eq_iff Let_def split: prod.split)

lemma writer_next_eq: "writer_next f p s = (case wr s of
     Wr_Unborn \<Rightarrow> None
   | Wr_Start \<Rightarrow> Some (s\<lparr>wr := (if cast_ok s then Wr_Top else Wr_Throw)\<rparr>)
   | Wr_Top \<Rightarrow> Some (if mMessageQueue s = [] then s\<lparr>wr := Wr_Wait, notified := False\<rparr> else take_message f s)
   | Wr_Wait \<Rightarrow> if notified s then Some (woken f s) else None
   | Wr_Send m total_send \<Rightarrow> Some (send_turn f p m total_send s)
   | Wr_ErrClose \<Rightarrow> if f = V4 then Some (s\<lparr>hhist := sys_close (hfd s) (hhist s), wr := Wr_ErrClear\<rparr>) else None
   | Wr_ErrClear \<Rightarrow> if f = V4 then Some (s\<lparr>hfd := INVALID_FD, wr := Wr_After\<rparr>) else None
   | Wr_After \<Rightarrow> if f = V4 then Some (s\<lparr>wr := (if hfd s = INVALID_FD then Wr_Done else Wr_Top)\<rparr>) else None
   | Wr_Close \<Rightarrow> if f = V6 then Some (s\<lparr>hhist := sys_close (hfd s) (hhist s), wr := Wr_Clear\<rparr>) else None
   | Wr_Clear \<Rightarrow> if f = V6 then Some (s\<lparr>hfd := INVALID_FD, wr := Wr_Done\<rparr>) else None
   | Wr_Done \<Rightarrow> None | Wr_Throw \<Rightarrow> None | Wr_Undefined \<Rightarrow> None)"
  by (cases f) (auto simp: writer_next.simps IPV4_handleWriteEvent_def IPV6_handleWriteEvent_def take_message_IPV send_turn_IPV split: writer_pc.split)

text \<open>
  An exception that leaves a thread's function, and undefined behaviour, end the program as far as
  the model goes: no thread steps any more.
\<close>

definition stopped :: "handle \<Rightarrow> bool" where
  "stopped s \<longleftrightarrow> rd s = Rd_Throw \<or> wr s = Wr_Throw \<or> rd s = Rd_Undefined \<or> wr s = Wr_Undefined"

inductive handle_step :: "family \<Rightarrow> platform \<Rightarrow> handle \<Rightarrow> handle \<Rightarrow> bool" for f :: family and p :: platform where
  by_doWork: "\<not> stopped s \<Longrightarrow> doWork_next f s = Some t \<Longrightarrow> handle_step f p s t"
| by_reader: "\<not> stopped s \<Longrightarrow> reader_next f p s = Some t \<Longrightarrow> handle_step f p s t"
| by_writer: "\<not> stopped s \<Longrightarrow> writer_next f p s = Some t \<Longrightarrow> handle_step f p s t"

text \<open>The same with the wake-ups a condition variable may produce by itself.\<close>

inductive noisy_step :: "family \<Rightarrow> platform \<Rightarrow> handle \<Rightarrow> handle \<Rightarrow> bool" for f :: family and p :: platform where
  by_handle: "handle_step f p s t \<Longrightarrow> noisy_step f p s t"
| spurious: "\<not> stopped s \<Longrightarrow> wr s = Wr_Wait \<Longrightarrow> noisy_step f p s (woken f s)"

inductive_cases handle_stepE: "handle_step f p s t"
inductive_cases noisy_stepE: "noisy_step f p s t"

subsection \<open>The IPv4 client: a first-in first-out echo\<close>

lemma after_recv_cases_s:
  assumes "recv_bounded p" and "sys_recv p fd MAX_MESSAGEBUFF_LEN_s 0 h = (r, bs, h')"
  shows "(after_recv_s V4 r bs h' = Rd_Recv \<and> received fd h' = received fd h) \<or>
    (after_recv_s V4 r bs h' = Rd_Close \<and> received fd h' = received fd h) \<or>
    (\<exists>m. after_recv_s V4 r bs h' = Rd_Push m \<and> received fd h' = received fd h @ m \<and> m \<noteq> [] \<and>
      length m \<le> MAX_MESSAGEBUFF_LEN_s)"
    "\<And>fd'. fd' \<noteq> fd \<Longrightarrow> received fd' h' = received fd' h" "\<And>fd'. sent fd' h' = sent fd' h"
    "\<And>fd'. closes_of fd' h' = closes_of fd' h"
proof -
  let ?a = "k_recv p h fd MAX_MESSAGEBUFF_LEN_s 0"
  have len: "length (data_of ?a) \<le> MAX_MESSAGEBUFF_LEN_s"
    using recv_boundedD[OF assms(1), of h fd MAX_MESSAGEBUFF_LEN_s 0] by (cases ?a) auto
  then have "to_c_int (int (length (data_of ?a))) = int (length (data_of ?a))"
    by (intro to_c_int_small) (simp_all add: MAX_MESSAGEBUFF_LEN_s_def)
  with len assms(2) show "(after_recv_s V4 r bs h' = Rd_Recv \<and> received fd h' = received fd h) \<or>
    (after_recv_s V4 r bs h' = Rd_Close \<and> received fd h' = received fd h) \<or>
    (\<exists>m. after_recv_s V4 r bs h' = Rd_Push m \<and> received fd h' = received fd h @ m \<and> m \<noteq> [] \<and>
      length m \<le> MAX_MESSAGEBUFF_LEN_s)"
    by (cases ?a) (auto simp: sys_simps Let_def after_recv_s_def to_c_int_small)
  show "\<And>fd'. fd' \<noteq> fd \<Longrightarrow> received fd' h' = received fd' h" "\<And>fd'. sent fd' h' = sent fd' h"
    "\<And>fd'. closes_of fd' h' = closes_of fd' h"
    using assms(2) by (cases ?a; auto simp: sys_simps Let_def)+
qed

fun held_rd :: "reader_pc \<Rightarrow> byte list" where
  "held_rd (Rd_Push m) = m"
| "held_rd _ = []"

fun held_wr :: "writer_pc \<Rightarrow> byte list" where
  "held_wr (Wr_Send m tot) = drop (unat tot) m"
| "held_wr _ = []"

fun wr_small :: "writer_pc \<Rightarrow> bool" where
  "wr_small (Wr_Send m tot) = (unat tot \<le> length m \<and> length m \<le> MAX_MESSAGEBUFF_LEN_s)"
| "wr_small _ = True"

text \<open>
  What was received is what was sent, then what the writer, the queue and the reader hold.  Once
  the descriptor is gone nothing more is received or sent on it, and what was sent stays a prefix.
\<close>

definition echo_inv :: "platform \<Rightarrow> int \<Rightarrow> history \<Rightarrow> handle \<Rightarrow> bool" where
  "echo_inv p fd0 h0 s \<longleftrightarrow> recv_bounded p \<and> send_progresses p \<and> fd0 \<noteq> INVALID_FD \<and>
     (hfd s = fd0 \<or> hfd s = INVALID_FD) \<and>
     length (held_rd (rd s)) \<le> MAX_MESSAGEBUFF_LEN_s \<and> wr_small (wr s) \<and>
     (\<forall>m\<in>set (mMessageQueue s). length m \<le> MAX_MESSAGEBUFF_LEN_s) \<and>
     (\<exists>out rest. sent fd0 (hhist s) = sent fd0 h0 @ out \<and> received fd0 (hhist s) = received fd0 h0 @ out @ rest \<and>
       (hfd s = fd0 \<longrightarrow> rest = held_wr (wr s) @ concat (mMessageQueue s) @ held_rd (rd s)))"

lemma echo_inv_doWork:
  assumes "doWork_next f s = Some t" and "echo_inv p fd0 h0 s" and "rd s = Rd_Unborn \<or> work s \<noteq> D_Read"
    and "wr s = Wr_Unborn \<or> (work s \<noteq> D_Read \<and> work s \<noteq> D_Write)"
  shows "echo_inv p fd0 h0 t"
  using assms by (auto simp: doWork_next_eq echo_inv_def split: work_pc.splits if_splits)

lemma echo_inv_reader:
  assumes "reader_next V4 p s = Some t" and "echo_inv p fd0 h0 s"
  shows "echo_inv p fd0 h0 t"
proof (cases "rd s")
  case Rd_Recv
  obtain r bs h where r: "sys_recv p (hfd s) MAX_MESSAGEBUFF_LEN_s 0 (hhist s) = (r, bs, h)" by (metis surj_pair)
  have b: "recv_bounded p" using assms(2) by (simp add: echo_inv_def)
  have t: "t = s\<lparr>hhist := h, rd := after_recv_s V4 r bs h\<rparr>" using assms(1) Rd_Recv r by (simp add: reader_next_eq)
  show ?thesis
  proof (cases "hfd s = fd0")
    case True
    with t assms(2) Rd_Recv after_recv_cases_s[OF b r] show ?thesis by (auto simp: echo_inv_def)
  next
    case False
    then have "fd0 \<noteq> hfd s" by simp
    with False t assms(2) Rd_Recv after_recv_cases_s[OF b r] show ?thesis by (auto simp: echo_inv_def)
  qed
qed (use assms in \<open>auto simp: reader_next_eq echo_inv_def notify_one_def sys_simps\<close>)

lemma send_turn_cases:
  assumes "send_progresses p" and "length m < 2 ^ 63" and "unat tot \<le> length m"
  shows "(unat tot = length m \<and> send_turn V4 p m tot s = s\<lparr>wr := Wr_After\<rparr>) \<or>
    (\<exists>h tot'. send_turn V4 p m tot s = s\<lparr>hhist := h, wr := Wr_Send m tot'\<rparr> \<and>
      unat tot < unat tot' \<and> unat tot' \<le> length m \<and>
      (\<exists>x. drop (unat tot) m = x @ drop (unat tot') m \<and> sent (hfd s) h = sent (hfd s) (hhist s) @ x) \<and>
      (\<forall>fd. fd \<noteq> hfd s \<longrightarrow> sent fd h = sent fd (hhist s)) \<and> (\<forall>fd. received fd h = received fd (hhist s)))"
proof (cases "unat tot = length m")
  case True
  then have "\<not> tot < to_size_t (int (length m))" using assms(2) by (simp add: word_less_nat_alt)
  with True show ?thesis by (simp add: send_turn_def)
next
  case False
  let ?bs = "drop (unat tot) m"
  have len: "length m < 2 ^ 64" using assms(2) by simp
  have lt: "tot < to_size_t (int (length m))" using False assms(3) len by (simp add: word_less_nat_alt)
  have left: "unat (to_size_t (int (length m)) - tot) = length m - unat tot"
    using lt len by (simp add: unat_sub order_less_imp_le)
  have "?bs \<noteq> []" using False assms(3) by simp
  with send_progressesD[OF assms(1)] obtain n where
    n: "k_send p (hhist s) (hfd s) ?bs (send_flags V4) = Done n" "0 < n" "n \<le> int (length ?bs)" by metis
  have un: "unat (to_size_t n) = nat n"
    using n(2,3) len to_size_t_nat[of "nat n"] by simp
  have "nat n \<le> length ?bs" using n(3) by linarith
  then have fits: "unat tot + nat n \<le> length m" using assms(3) by simp
  then have "unat tot + unat (to_size_t n) < 2 ^ LENGTH(64)" using un len by simp
  then have "unat (tot + to_size_t n) = unat tot + unat (to_size_t n)" by (rule unat_add_lem[THEN iffD1])
  then have add: "unat (tot + to_size_t n) = unat tot + nat n" by (simp only: un)
  moreover have "to_size_t n \<noteq> 0" using un n(2) by auto
  with add have eq: "send_turn V4 p m tot s =
      s\<lparr>hhist := E_send (hfd s) ?bs (send_flags V4) (Done n) # hhist s, wr := Wr_Send m (tot + to_size_t n)\<rparr>"
    using lt n(1) by (simp add: send_turn_def sys_simps left Let_def)
  have x: "?bs = take (nat n) ?bs @ drop (unat (tot + to_size_t n)) m"
    unfolding add by (metis append_take_drop_id drop_drop add.commute)
  show ?thesis
    using eq x add n(2) fits
    by (intro disjI2 exI[of _ "E_send (hfd s) ?bs (send_flags V4) (Done n) # hhist s"]
        exI[of _ "tot + to_size_t n"] conjI exI[of _ "take (nat n) ?bs"]) auto
qed

lemma echo_inv_take:
  assumes "echo_inv p fd0 h0 s" and "held_wr (wr s) = []" and "mMessageQueue s \<noteq> []"
  shows "echo_inv p fd0 h0 (take_message V4 s)"
proof -
  obtain m q where "mMessageQueue s = m # q" using assms(3) by (cases "mMessageQueue s") auto
  with assms(1,2) show ?thesis by (auto simp: take_message_def echo_inv_def)
qed

lemma echo_inv_writer:
  assumes "writer_next V4 p s = Some t" and "echo_inv p fd0 h0 s"
  shows "echo_inv p fd0 h0 t"
proof (cases "wr s")
  case (Wr_Send m tot)
  have "send_progresses p" "length m < 2 ^ 63" "unat tot \<le> length m"
    using assms(2) Wr_Send by (auto simp: echo_inv_def MAX_MESSAGEBUFF_LEN_s_def)
  from send_turn_cases[OF this, of s] show ?thesis
  proof (elim disjE exE conjE)
    assume "unat tot = length m" "send_turn V4 p m tot s = s\<lparr>wr := Wr_After\<rparr>"
    with assms Wr_Send show ?thesis by (auto simp: writer_next_eq echo_inv_def)
  next
    fix h tot' x
    assume t: "send_turn V4 p m tot s = s\<lparr>hhist := h, wr := Wr_Send m tot'\<rparr>"
      and len: "unat tot' \<le> length m" and x: "drop (unat tot) m = x @ drop (unat tot') m"
      and sent: "sent (hfd s) h = sent (hfd s) (hhist s) @ x"
      and frame: "\<forall>fd. fd \<noteq> hfd s \<longrightarrow> sent fd h = sent fd (hhist s)" "\<forall>fd. received fd h = received fd (hhist s)"
    have t': "t = s\<lparr>hhist := h, wr := Wr_Send m tot'\<rparr>" using assms(1) Wr_Send t by (simp add: writer_next_eq)
    from assms(2) obtain out rest where o: "sent fd0 (hhist s) = sent fd0 h0 @ out"
      "received fd0 (hhist s) = received fd0 h0 @ out @ rest"
      "hfd s = fd0 \<Longrightarrow> rest = held_wr (wr s) @ concat (mMessageQueue s) @ held_rd (rd s)"
      by (auto simp: echo_inv_def)
    show ?thesis
    proof (cases "hfd s = fd0")
      case True
      have "sent fd0 h = sent fd0 h0 @ out @ x" using True sent o(1) by simp
      moreover have "received fd0 h = received fd0 h0 @ (out @ x) @
          drop (unat tot') m @ concat (mMessageQueue s) @ held_rd (rd s)"
        using o(2) o(3)[OF True] frame(2) x Wr_Send by simp
      ultimately show ?thesis using assms(2) t' len Wr_Send by (auto simp: echo_inv_def)
    next
      case False
      then have "sent fd0 h = sent fd0 (hhist s)" using frame(1) by auto
      with o(1,2) frame(2) assms(2) t' len Wr_Send False show ?thesis by (auto simp: echo_inv_def)
    qed
  qed
next
  case Wr_Top
  with assms show ?thesis
    using echo_inv_take[OF assms(2)] by (auto simp: writer_next_eq echo_inv_def split: if_splits)
qed (use assms in \<open>auto simp: writer_next_eq echo_inv_def sys_simps split: if_splits\<close>)

text \<open>Which threads exist at which point of \<open>doWork\<close>, for both families.\<close>

definition work_inv :: "handle \<Rightarrow> bool" where
  "work_inv s \<longleftrightarrow>
     (rd s = Rd_Unborn \<longleftrightarrow> work s = D_Read) \<and>
     (wr s = Wr_Unborn \<longleftrightarrow> work s = D_Read \<or> work s = D_Write) \<and>
     (work s = D_Done \<longrightarrow> wr s = Wr_Done)"

lemma work_inv_doWork: "doWork_next f s = Some t \<Longrightarrow> work_inv s \<Longrightarrow> work_inv t"
  by (auto simp: doWork_next_eq work_inv_def split: work_pc.splits if_splits)

lemma work_inv_reader: "reader_next f p s = Some t \<Longrightarrow> work_inv s \<Longrightarrow> work_inv t"
  by (cases "rd s")
    (auto simp: reader_next_eq work_inv_def notify_one_def after_recv_s_def Let_def
      split: prod.splits sum.splits if_splits)

lemma work_inv_take: "work_inv s \<Longrightarrow> wr s \<noteq> Wr_Unborn \<Longrightarrow> wr s \<noteq> Wr_Done \<Longrightarrow> work_inv (take_message f s)"
  by (cases f) (auto simp: take_message_def work_inv_def split: list.splits)

lemma work_inv_woken: "work_inv s \<Longrightarrow> wr s = Wr_Wait \<Longrightarrow> work_inv (woken f s)"
  using work_inv_take[of "s\<lparr>notified := False\<rparr>" f] by (cases f) (auto simp: work_inv_def)

lemma send_turn_frame:
  "\<exists>h w. send_turn f p m tot s = s\<lparr>hhist := h, wr := w\<rparr> \<and> w \<noteq> Wr_Unborn"
proof (cases "tot < to_size_t (int (length m))")
  case True
  then show ?thesis by (cases f) (auto simp: send_turn_def Let_def split: prod.split)
next
  case False
  then show ?thesis
    by (intro exI[of _ "hhist s"] exI[of _ "sent_pc f"]) (cases f; simp add: send_turn_def)
qed

lemma work_inv_writer: "writer_next f p s = Some t \<Longrightarrow> work_inv s \<Longrightarrow> work_inv t"
proof (cases "wr s")
  case (Wr_Send m tot)
  moreover assume "writer_next f p s = Some t" "work_inv s"
  ultimately show ?thesis
    using send_turn_frame[of f p m tot s] by (auto simp: writer_next_eq work_inv_def)
next
  case Wr_Top
  moreover assume "writer_next f p s = Some t" "work_inv s"
  ultimately show ?thesis
    using work_inv_take[of s f] by (auto simp: writer_next_eq work_inv_def split: if_splits)
next
  case Wr_Wait
  moreover assume "writer_next f p s = Some t" "work_inv s"
  ultimately show ?thesis using work_inv_woken by (auto simp: writer_next_eq split: if_splits)
qed (auto simp: writer_next_eq work_inv_def split: if_splits)

lemma work_inv_step: "noisy_step f p s t \<Longrightarrow> work_inv s \<Longrightarrow> work_inv t"
  by (auto elim!: noisy_stepE handle_stepE
      intro: work_inv_doWork work_inv_reader work_inv_writer work_inv_woken)

definition echo_ok :: "platform \<Rightarrow> int \<Rightarrow> history \<Rightarrow> handle \<Rightarrow> bool" where
  "echo_ok p fd0 h0 s \<longleftrightarrow> work_inv s \<and> echo_inv p fd0 h0 s"

definition fresh_echo :: "platform \<Rightarrow> int \<Rightarrow> history \<Rightarrow> handle \<Rightarrow> bool" where
  "fresh_echo p fd0 h0 s \<longleftrightarrow> recv_bounded p \<and> send_progresses p \<and> fd0 \<noteq> INVALID_FD \<and>
     (\<exists>ok. s = ThreadsClientHandle ok fd0 h0)"

lemma work_inv_init: "work_inv (ThreadsClientHandle ok fd h)"
  by (simp add: work_inv_def ThreadsClientHandle_def)

lemma echo_ok_step:
  assumes "noisy_step V4 p s t" and "echo_ok p fd0 h0 s"
  shows "echo_ok p fd0 h0 t"
proof -
  have inv: "work_inv s" "echo_inv p fd0 h0 s" using assms(2) by (simp_all add: echo_ok_def)
  have "echo_inv p fd0 h0 t"
    using assms(1)
  proof (cases rule: noisy_step.cases)
    case by_handle
    then show ?thesis
    proof (cases rule: handle_step.cases)
      case by_doWork
      moreover have "rd s = Rd_Unborn \<or> work s \<noteq> D_Read" "wr s = Wr_Unborn \<or> (work s \<noteq> D_Read \<and> work s \<noteq> D_Write)"
        using inv(1) by (auto simp: work_inv_def)
      ultimately show ?thesis using inv(2) by (blast intro: echo_inv_doWork)
    qed (use inv(2) in \<open>blast intro: echo_inv_reader echo_inv_writer\<close>)+
  next
    case spurious
    with inv(2) show ?thesis by (simp add: echo_inv_def)
  qed
  with work_inv_step[OF assms(1) inv(1)] show ?thesis by (simp add: echo_ok_def)
qed

interpretation echo4: invariant_system "noisy_step V4 p" "fresh_echo p fd0 h0" "echo_ok p fd0 h0" for p fd0 h0
proof
  show "fresh_echo p fd0 h0 s \<Longrightarrow> echo_ok p fd0 h0 s" for s
    by (auto simp: fresh_echo_def echo_ok_def echo_inv_def work_inv_init)
      (simp_all add: ThreadsClientHandle_def)
qed (rule echo_ok_step)

subsection \<open>An IPv4 client that never sends anything\<close>

text \<open>The points a thread of an idle client can be at; before the close, and after it.\<close>

fun idle_wr :: "writer_pc \<Rightarrow> bool" where
  "idle_wr Wr_Unborn = True"
| "idle_wr Wr_Start = True"
| "idle_wr Wr_Top = True"
| "idle_wr Wr_Wait = True"
| "idle_wr _ = False"

fun idle_rd :: "reader_pc \<Rightarrow> bool" where
  "idle_rd (Rd_Push m) = False"
| "idle_rd Rd_Notify = False"
| "idle_rd Rd_Throw = False"
| "idle_rd Rd_Undefined = False"
| "idle_rd _ = True"

fun reading :: "reader_pc \<Rightarrow> bool" where
  "reading Rd_Unborn = True"
| "reading Rd_Start = True"
| "reading Rd_Recv = True"
| "reading _ = False"

definition idle_inv :: "platform \<Rightarrow> int \<Rightarrow> handle \<Rightarrow> bool" where
  "idle_inv p fd0 s \<longleftrightarrow> (\<forall>h. k_recv p h fd0 MAX_MESSAGEBUFF_LEN_s 0 = Done []) \<and>
     work_inv s \<and> cast_ok s \<and> mMessageQueue s = [] \<and>
     idle_wr (wr s) \<and> idle_rd (rd s) \<and> (reading (rd s) \<longrightarrow> hfd s = fd0)"

lemma idle_inv_step:
  assumes "noisy_step V4 p s t" and "idle_inv p fd0 s"
  shows "idle_inv p fd0 t"
proof -
  have w: "work_inv t" using assms work_inv_step by (auto simp: idle_inv_def)
  have unborn: "work s = D_Read \<Longrightarrow> rd s = Rd_Unborn" using assms(2) by (simp add: idle_inv_def work_inv_def)
  from assms(1) show ?thesis
  proof (cases rule: noisy_step.cases)
    case by_handle
    then show ?thesis
    proof (cases rule: handle_step.cases)
      case by_doWork
      with assms(2) w unborn show ?thesis
        by (cases "work s") (simp_all add: idle_inv_def doWork_next_eq split: if_splits, auto)
    next
      case by_reader
      with assms(2) w show ?thesis
        by (cases "rd s") (auto simp: idle_inv_def reader_next_eq notify_one_def sys_simps after_recv_s_def
            to_c_int_small Let_def)
    next
      case by_writer
      with assms(2) w show ?thesis
        by (cases "wr s") (auto simp: idle_inv_def writer_next_eq split: if_splits)
    qed
  next
    case spurious
    with assms(2) w show ?thesis by (auto simp: idle_inv_def)
  qed
qed

definition fresh_idle :: "platform \<Rightarrow> int \<Rightarrow> history \<Rightarrow> handle \<Rightarrow> bool" where
  "fresh_idle p fd0 h0 s \<longleftrightarrow> (\<forall>h. k_recv p h fd0 MAX_MESSAGEBUFF_LEN_s 0 = Done []) \<and>
     s = ThreadsClientHandle True fd0 h0"

interpretation idle4: invariant_system "noisy_step V4 p" "fresh_idle p fd0 h0" "idle_inv p fd0" for p fd0 h0
proof
  show "fresh_idle p fd0 h0 s \<Longrightarrow> idle_inv p fd0 s" for s
    using work_inv_init[of True fd0 h0] by (auto simp: fresh_idle_def idle_inv_def ThreadsClientHandle_def)
qed (rule idle_inv_step)

end
