(* ===== verification/Client_Properties.thy ===== *)
theory Client_Properties
  imports Client_Handle
begin

text \<open>
  What the clients of the older servers guarantee and where they fail: the IPv4 client is a
  first-in first-out echo that never ends when its peer leaves it idle; the IPv6 client truncates
  messages and can read the front of an empty queue.  Runs are schedules of the step functions.
\<close>

subsection \<open>Schedules of a client\<close>

datatype role = Work | Reader | Writer

fun role_next :: "family \<Rightarrow> platform \<Rightarrow> role \<Rightarrow> handle \<Rightarrow> handle option" where
  "role_next f p Work s = (if stopped s then None else doWork_next f s)"
| "role_next f p Reader s = (if stopped s then None else reader_next f p s)"
| "role_next f p Writer s = (if stopped s then None else writer_next f p s)"

lemma role_next_step: "role_next f p a s = Some t \<Longrightarrow> handle_step f p s t"
  by (cases a) (auto split: if_splits intro: handle_step.intros)

lemma handle_sched_reach: "sched (role_next f p) as s = Some t \<Longrightarrow> reach (handle_step f p) s t"
  by (rule sched_reach) (rule role_next_step)

lemma handle_noisy: "reach (handle_step f p) s t \<Longrightarrow> reach (noisy_step f p) s t"
  by (erule reach_mono) (rule noisy_step.by_handle)

lemmas thread_defs = doWork_next_eq reader_next_eq writer_next_eq stopped_def notify_one_def

text \<open>
  One message of an IPv6 client, echoed up to the point where the writer waits for the next one
  and the reader has not notified it of the first.
\<close>

definition one_message :: "role list" where
  "one_message = [Work, Work, Reader, Reader, Reader, Writer, Writer, Writer, Writer, Writer]"

lemma one_message_state:
  fixes data fd h
  defines "m \<equiv> takeWhile (\<lambda>b. b \<noteq> 0) data"
  assumes "m \<noteq> []" and "length data < MAX_MESSAGEBUFF_LEN_s"
    and "k_recv p h fd MAX_MESSAGEBUFF_LEN_s 0 = Done data" and "fd \<noteq> INVALID_FD"
    and "k_send p (E_recv fd (Done data) # h) fd m 0 = Done (int (length m))"
  shows "sched (role_next V6 p) one_message (ThreadsClientHandle True fd h) =
    Some \<lparr>hhist = E_send fd m 0 (Done (int (length m))) # E_recv fd (Done data) # h, cast_ok = True, hfd = fd,
      mMessageQueue = [], notified = False, work = D_JoinRead, rd = Rd_Notify, wr = Wr_Wait\<rparr>"
proof -
  have len: "length m \<le> length data" unfolding m_def by (rule length_takeWhile_le)
  have small: "to_c_int (int (length data)) = int (length data)"
    using assms(3) by (intro to_c_int_small) (simp_all add: MAX_MESSAGEBUFF_LEN_s_def)
  have m64: "length m < 2 ^ 64" using len assms(3) by (simp add: MAX_MESSAGEBUFF_LEN_s_def)
  have pos: "0 < to_size_t (int (length m))" using size_t_pos[OF assms(2) m64] .
  have data: "data \<noteq> []" using assms(2) by (auto simp: m_def)
  have rcv: "after_recv_s V6 (int (length data)) data h' = Rd_Push m" for h'
    using data assms(3) by (simp add: after_recv_s_def Let_def small m_def c_string_def)
  have turn: "send_turn V6 p m 0 s = s\<lparr>hhist := E_send fd m 0 (Done (int (length m))) # E_recv fd (Done data) # h,
      wr := Wr_Send m (to_size_t (int (length m)))\<rparr>"
    if "hfd s = fd" "hhist s = E_recv fd (Done data) # h" for s
    using that pos m64 assms(6) by (simp add: send_turn_def sys_simps Let_def)
  have stop: "send_turn V6 p m (to_size_t (int (length m))) s = s\<lparr>wr := Wr_Top\<rparr>" for s
    by (simp add: send_turn_def)
  show ?thesis
    using assms(4,5)
    by (simp add: one_message_def ThreadsClientHandle_def thread_defs sys_simps rcv take_message_def turn stop)
qed

subsection \<open>Properties of the clients\<close>

text \<open>
  The older IPv4 client echoes: in every interleaving, spurious wake-ups included, what was
  sent to the client is a prefix of what was received from it, and as long as the descriptor is
  alive the rest is exactly what the writer, the queue and the reader still hold, in this order.
\<close>

lemma tcp4_echo_fifo:
  assumes "recv_bounded p" and "send_progresses p" and "fd0 \<noteq> INVALID_FD"
    and "reach (noisy_step V4 p) (ThreadsClientHandle ok fd0 h0) s"
  shows "\<exists>out rest. sent fd0 (hhist s) = sent fd0 h0 @ out \<and>
    received fd0 (hhist s) = received fd0 h0 @ out @ rest \<and>
    (hfd s = fd0 \<longrightarrow> rest = held_wr (wr s) @ concat (mMessageQueue s) @ held_rd (rd s))"
proof -
  have "fresh_echo p fd0 h0 (ThreadsClientHandle ok fd0 h0)" using assms(1-3) by (auto simp: fresh_echo_def)
  from echo4.reach_inv[OF assms(4) this] show ?thesis by (simp add: echo_ok_def echo_inv_def)
qed

text \<open>
  C33: An IPv4 client that hangs up without having sent anything costs two threads for ever: in no
  interleaving does \<open>doWork\<close> return, because the writer waits for a message the reader will
  never push.
\<close>

theorem tcp4_idle_client_hangs:
  assumes "\<And>h. k_recv p h fd MAX_MESSAGEBUFF_LEN_s 0 = Done []"
    and "reach (noisy_step V4 p) (ThreadsClientHandle True fd h0) s"
  shows "work s \<noteq> D_Done \<and> wr s \<noteq> Wr_Done"
proof -
  have "fresh_idle p fd h0 (ThreadsClientHandle True fd h0)" using assms(1) by (simp add: fresh_idle_def)
  from idle4.reach_inv[OF assms(2) this] have "idle_wr (wr s)" "work s = D_Done \<longrightarrow> wr s = Wr_Done"
    by (simp_all add: idle_inv_def work_inv_def)
  then show ?thesis by auto
qed

lemma idle_run:
  "\<exists>s. sched (role_next V4 (sample_platform\<lparr>k_recv := \<lambda>h fd n fl. Done []\<rparr>))
      [Work, Work, Reader, Reader, Writer, Writer, Reader, Reader, Reader, Writer, Writer] (ThreadsClientHandle True 4 []) = Some s \<and>
    rd s = Rd_Done \<and> wr s = Wr_Wait"
  by (simp add: ThreadsClientHandle_def thread_defs sys_simps after_recv_s_def to_c_int_small take_message_def Let_def)

theorem tcp4_idle_client_hangs_witness:
  "\<exists>s. reach (noisy_step V4 (sample_platform\<lparr>k_recv := \<lambda>h fd n fl. Done []\<rparr>)) (ThreadsClientHandle True 4 []) s \<and>
    rd s = Rd_Done \<and> wr s = Wr_Wait \<and> work s \<noteq> D_Done"
proof -
  let ?p = "sample_platform\<lparr>k_recv := \<lambda>h fd n fl. Done []\<rparr>"
  obtain s where s: "sched (role_next V4 ?p) [Work, Work, Reader, Reader, Writer, Writer, Reader, Reader, Reader, Writer, Writer]
      (ThreadsClientHandle True 4 []) = Some s" "rd s = Rd_Done" "wr s = Wr_Wait" using idle_run by blast
  have r: "reach (noisy_step V4 ?p) (ThreadsClientHandle True 4 []) s"
    by (rule handle_noisy[OF handle_sched_reach[OF s(1)]])
  have "k_recv ?p h 4 MAX_MESSAGEBUFF_LEN_s 0 = Done []" for h by simp
  from tcp4_idle_client_hangs[OF this r] s r show ?thesis by blast
qed

text \<open>
  C34: The IPv6 writer does not test the queue again after it was woken: once it has answered a
  message before the reader notified it of that message, the late notification makes it take the
  front of an empty queue, which is undefined.
\<close>

theorem tcp6_empty_front:
  fixes data fd h
  defines "m \<equiv> takeWhile (\<lambda>b. b \<noteq> 0) data"
  assumes "m \<noteq> []" and "length data < MAX_MESSAGEBUFF_LEN_s"
    and "k_recv p h fd MAX_MESSAGEBUFF_LEN_s 0 = Done data" and "fd \<noteq> INVALID_FD"
    and "k_send p (E_recv fd (Done data) # h) fd m 0 = Done (int (length m))"
  shows "\<exists>s. reach (handle_step V6 p) (ThreadsClientHandle True fd h) s \<and> wr s = Wr_Undefined"
proof -
  note st = one_message_state[of data p h fd, folded m_def, OF assms(2-6)]
  have "\<exists>s. sched (role_next V6 p) (one_message @ [Reader, Writer]) (ThreadsClientHandle True fd h) = Some s \<and>
      wr s = Wr_Undefined"
    using assms(5) by (simp add: sched_append st thread_defs take_message_def)
  then show ?thesis using handle_sched_reach by blast
qed

theorem tcp6_empty_front_witness:
  "\<exists>s. reach (handle_step V6 sample_platform) (ThreadsClientHandle True 4 []) s \<and> wr s = Wr_Undefined"
  by (rule tcp6_empty_front[where data = "[104, 105]"]) (simp_all add: MAX_MESSAGEBUFF_LEN_s_def INVALID_FD_def)

text \<open>
  The IPv6 client is not a faithful echo: of a message with a zero byte only the part before
  it is sent back, and the rest is dropped although the connection stays open.
\<close>

lemma tcp6_truncates:
  assumes "m \<noteq> []" and "0 \<notin> set m" and "length (m @ 0 # rest) < MAX_MESSAGEBUFF_LEN_s"
    and "k_recv p h fd MAX_MESSAGEBUFF_LEN_s 0 = Done (m @ 0 # rest)" and "fd \<noteq> INVALID_FD"
    and "k_send p (E_recv fd (Done (m @ 0 # rest)) # h) fd m 0 = Done (int (length m))"
  shows "\<exists>s. reach (handle_step V6 p) (ThreadsClientHandle True fd h) s \<and> hfd s = fd \<and>
    mMessageQueue s = [] \<and> held_wr (wr s) = [] \<and> held_rd (rd s) = [] \<and>
    received fd (hhist s) = received fd h @ m @ 0 # rest \<and> sent fd (hhist s) = sent fd h @ m"
proof -
  have m: "takeWhile (\<lambda>b. b \<noteq> 0) (m @ 0 # rest) = m"
    using assms(2) by (subst takeWhile_append2) auto
  from one_message_state[of "m @ 0 # rest" p h fd, unfolded m, OF assms(1,3-6)]
  show ?thesis using handle_sched_reach by fastforce
qed

end
