(* ===== verification/Client_Life.thy ===== *)
theory Client_Life
  imports Client_Properties
begin

text \<open>
  The life of an older client, for both families: who closes its descriptor and how often, and
  where its threads can get stuck.
\<close>

subsection \<open>The descriptor of a client\<close>

text \<open>One turn of the send loop makes at most one call, and fails only after a \<open>0\<close>.\<close>

lemma send_turn_event:
  "\<exists>evs w. send_turn f p m tot s = s\<lparr>hhist := evs @ hhist s, wr := w\<rparr> \<and>
    (evs = [] \<or> (\<exists>bs fl r. evs = [E_send (hfd s) bs fl r])) \<and>
    (w = sent_pc f \<or> (\<exists>tot'. w = Wr_Send m tot') \<or> w = zero_pc f \<and> \<not> send_never_zero p)"
proof (cases "tot < to_size_t (int (length m))")
  case True
  let ?bs = "take (unat (to_size_t (int (length m)) - tot)) (drop (unat tot) m)"
  let ?r = "k_send p (hhist s) (hfd s) ?bs (send_flags f)"
  let ?sb = "to_size_t (c_ret id ?r)"
  have "unat tot < unat (to_size_t (int (length m)))" using True by (rule unat_mono)
  also have "\<dots> \<le> length m" by simp
  finally have "drop (unat tot) m \<noteq> []" by simp
  moreover have "unat (to_size_t (int (length m)) - tot) \<noteq> 0" using True by (simp add: unat_eq_0)
  ultimately have "?bs \<noteq> []" by simp
  then have z: "send_never_zero p \<Longrightarrow> ?sb \<noteq> 0" by (rule send_never_zeroD[rotated])
  have eq: "send_turn f p m tot s = s\<lparr>hhist := [E_send (hfd s) ?bs (send_flags f) ?r] @ hhist s,
      wr := if ?sb = 0 then zero_pc f else Wr_Send m (tot + ?sb)\<rparr>"
    using True by (simp add: send_turn_def sys_simps Let_def)
  show ?thesis
    by (intro exI conjI, rule eq) (use z in \<open>auto\<close>)
next
  case False
  then show ?thesis
    by (intro exI[of _ "[]"] exI[of _ "sent_pc f"]) (simp add: send_turn_def)
qed

text \<open>
  The points of each class's writer; those that close are reached with an invalid descriptor only.
\<close>

fun wr_ok :: "family \<Rightarrow> bool \<Rightarrow> writer_pc \<Rightarrow> bool" where
  "wr_ok f gone Wr_ErrClose = False"
| "wr_ok f gone Wr_ErrClear = False"
| "wr_ok f gone Wr_After = (f = V4)"
| "wr_ok f gone Wr_Close = (f = V6 \<and> gone)"
| "wr_ok f gone Wr_Clear = (f = V6 \<and> gone)"
| "wr_ok f gone _ = True"

lemma wr_ok_gone: "wr_ok f g w \<Longrightarrow> wr_ok f True w"
  by (cases w) simp_all

lemma wr_ok_sent: "wr_ok f g (sent_pc f)" and wr_ok_exit: "wr_ok f True (exit_pc f)"
  and wr_ok_zero: "f \<noteq> V4 \<Longrightarrow> wr_ok f g (zero_pc f)"
  by (cases f; simp)+

fun rd_closed :: "reader_pc \<Rightarrow> nat" where
  "rd_closed Rd_Clear = 1"
| "rd_closed Rd_Last = 1"
| "rd_closed Rd_Done = 1"
| "rd_closed _ = 0"

fun rd_fd :: "int \<Rightarrow> reader_pc \<Rightarrow> int" where
  "rd_fd fd Rd_Last = INVALID_FD"
| "rd_fd fd Rd_Done = INVALID_FD"
| "rd_fd fd _ = fd"

text \<open>The reader owns the descriptor: it closes it once, then makes the field invalid.\<close>

definition life_inv :: "family \<Rightarrow> platform \<Rightarrow> int \<Rightarrow> history \<Rightarrow> handle \<Rightarrow> bool" where
  "life_inv f p fd0 h0 s \<longleftrightarrow> (f = V4 \<longrightarrow> send_never_zero p) \<and> fd0 \<noteq> INVALID_FD \<and> work_inv s \<and>
     closes_of fd0 (hhist s) = closes_of fd0 h0 + rd_closed (rd s) \<and>
     hfd s = rd_fd fd0 (rd s) \<and> wr_ok f (hfd s = INVALID_FD) (wr s)"

lemma life_inv_doWork:
  assumes "doWork_next f s = Some t" and "life_inv f p fd0 h0 s"
  shows "life_inv f p fd0 h0 t"
proof -
  have "work_inv t" using assms work_inv_doWork by (auto simp: life_inv_def)
  moreover have "rd s = Rd_Unborn \<or> work s \<noteq> D_Read" using assms(2) by (auto simp: life_inv_def work_inv_def)
  ultimately show ?thesis
    using assms by (cases "work s") (auto simp: doWork_next_eq life_inv_def split: if_splits)
qed

lemma after_recv_pc:
  "rd_closed (after_recv_s f r bs h) = 0 \<and> rd_fd fd (after_recv_s f r bs h) = fd"
  by (auto simp: after_recv_s_def Let_def split: sum.split)

lemma life_inv_reader:
  assumes "reader_next f p s = Some t" and "life_inv f p fd0 h0 s"
  shows "life_inv f p fd0 h0 t"
proof -
  have w: "work_inv t" using assms work_inv_reader by (auto simp: life_inv_def)
  show ?thesis
  proof (cases "rd s")
    case Rd_Recv
    obtain r bs h where r: "sys_recv p (hfd s) MAX_MESSAGEBUFF_LEN_s 0 (hhist s) = (r, bs, h)" by (metis surj_pair)
    then have "closes_of fd0 h = closes_of fd0 (hhist s)" by (auto simp: sys_simps Let_def)
    with after_recv_pc[of f r bs h fd0] assms w Rd_Recv r show ?thesis by (auto simp: life_inv_def reader_next_eq)
  next
    case Rd_Clear
    with assms w show ?thesis by (auto simp: life_inv_def reader_next_eq dest: wr_ok_gone)
  qed (use assms w in \<open>auto simp: life_inv_def reader_next_eq notify_one_def sys_simps\<close>)
qed

lemma take_message_cases:
  "(hfd s = INVALID_FD \<and> take_message f s = s\<lparr>wr := exit_pc f\<rparr>) \<or>
   (hfd s \<noteq> INVALID_FD \<and> mMessageQueue s = [] \<and> take_message f s = s\<lparr>wr := Wr_Undefined\<rparr>) \<or>
   (\<exists>m q. hfd s \<noteq> INVALID_FD \<and> mMessageQueue s = m # q \<and>
      take_message f s = s\<lparr>mMessageQueue := q, wr := Wr_Send m 0\<rparr>)"
  by (cases "mMessageQueue s") (auto simp: take_message_def)

text \<open>A step of the writer that only moves it, takes a message or sends leaves the descriptor alone.\<close>

lemma life_inv_wr:
  assumes "life_inv f p fd0 h0 s" and "work_inv t" and "rd t = rd s" and "hfd t = hfd s"
    and "closes_of fd0 (hhist t) = closes_of fd0 (hhist s)" and "wr_ok f (hfd s = INVALID_FD) (wr t)"
  shows "life_inv f p fd0 h0 t"
  using assms by (simp add: life_inv_def)

lemma life_inv_take:
  assumes "life_inv f p fd0 h0 s" and "work_inv (take_message f s)"
  shows "life_inv f p fd0 h0 (take_message f s)"
  using take_message_cases[of s f]
  by (elim disjE exE conjE) (rule life_inv_wr[OF assms]; simp add: wr_ok_exit)+

lemma life_inv_writer:
  assumes "writer_next f p s = Some t" and "life_inv f p fd0 h0 s"
  shows "life_inv f p fd0 h0 t"
proof -
  have w: "work_inv t" using assms work_inv_writer by (auto simp: life_inv_def)
  note keep = life_inv_wr[OF assms(2) w]
  show ?thesis
  proof (cases "wr s")
    case (Wr_Send m tot)
    then have t: "t = send_turn f p m tot s" using assms(1) by (simp add: writer_next_eq)
    obtain evs w' where e: "send_turn f p m tot s = s\<lparr>hhist := evs @ hhist s, wr := w'\<rparr>"
      "evs = [] \<or> (\<exists>bs fl r. evs = [E_send (hfd s) bs fl r])"
      "w' = sent_pc f \<or> (\<exists>tot'. w' = Wr_Send m tot') \<or> w' = zero_pc f \<and> \<not> send_never_zero p"
      using send_turn_event by blast
    have "wr_ok f (hfd s = INVALID_FD) w'"
      using e(3) assms(2) wr_ok_sent wr_ok_zero by (auto simp: life_inv_def)
    moreover have "closes_of fd0 (evs @ hhist s) = closes_of fd0 (hhist s)" using e(2) by auto
    ultimately show ?thesis by (intro keep) (simp_all add: t e(1))
  next
    case Wr_Top
    show ?thesis
    proof (cases "mMessageQueue s = []")
      case True
      with Wr_Top assms(1) have "t = s\<lparr>wr := Wr_Wait, notified := False\<rparr>" by (simp add: writer_next_eq)
      then show ?thesis by (intro keep) simp_all
    next
      case False
      with Wr_Top assms(1) have "t = take_message f s" by (simp add: writer_next_eq)
      with life_inv_take[OF assms(2)] w show ?thesis by simp
    qed
  next
    case Wr_Wait
    then have t: "t = woken f s" using assms(1) by (simp add: writer_next_eq split: if_splits)
    show ?thesis
    proof (cases f)
      case V4
      then show ?thesis by (intro keep) (simp_all add: t)
    next
      case V6
      have "life_inv V6 p fd0 h0 (s\<lparr>notified := False\<rparr>)"
        using assms(2) V6 by (auto simp: life_inv_def work_inv_def)
      from life_inv_take[OF this] w show ?thesis by (simp add: t V6)
    qed
  next
    case Wr_Start
    then have "t = s\<lparr>wr := if cast_ok s then Wr_Top else Wr_Throw\<rparr>" using assms(1) by (simp add: writer_next_eq)
    then show ?thesis by (intro keep) simp_all
  next
    case Wr_After
    then have "t = s\<lparr>wr := if hfd s = INVALID_FD then Wr_Done else Wr_Top\<rparr>"
      using assms(1) by (simp add: writer_next_eq split: if_splits)
    then show ?thesis by (intro keep) simp_all
  next
    case Wr_Close
    then have "t = s\<lparr>hhist := sys_close (hfd s) (hhist s), wr := Wr_Clear\<rparr>" "f = V6" "hfd s = INVALID_FD"
      using assms by (simp_all add: writer_next_eq life_inv_def split: if_splits)
    then show ?thesis using assms(2) by (intro keep) (simp_all add: sys_simps life_inv_def)
  next
    case Wr_Clear
    then have "t = s\<lparr>hfd := INVALID_FD, wr := Wr_Done\<rparr>" "hfd s = INVALID_FD"
      using assms by (simp_all add: writer_next_eq life_inv_def split: if_splits)
    then show ?thesis by (intro keep) simp_all
  qed (use assms in \<open>simp_all add: writer_next_eq life_inv_def\<close>)
qed

lemma life_inv_step:
  assumes "noisy_step f p s t" and "life_inv f p fd0 h0 s"
  shows "life_inv f p fd0 h0 t"
  using assms(1)
proof (cases rule: noisy_step.cases)
  case by_handle
  then show ?thesis
    by (cases rule: handle_step.cases) (use assms(2) in \<open>blast intro: life_inv_doWork life_inv_reader life_inv_writer\<close>)+
next
  case spurious
  then have "writer_next f p (s\<lparr>notified := True\<rparr>) = Some t"
    by (cases f) (simp_all add: writer_next_eq)
  moreover have "life_inv f p fd0 h0 (s\<lparr>notified := True\<rparr>)" using assms(2) by (auto simp: life_inv_def work_inv_def)
  ultimately show ?thesis by (rule life_inv_writer)
qed

definition fresh_life :: "family \<Rightarrow> platform \<Rightarrow> int \<Rightarrow> history \<Rightarrow> handle \<Rightarrow> bool" where
  "fresh_life f p fd0 h0 s \<longleftrightarrow> (f = V4 \<longrightarrow> send_never_zero p) \<and> fd0 \<noteq> INVALID_FD \<and>
     (\<exists>ok. s = ThreadsClientHandle ok fd0 h0)"

interpretation life: invariant_system "noisy_step f p" "fresh_life f p fd0 h0" "life_inv f p fd0 h0" for f p fd0 h0
proof
  show "fresh_life f p fd0 h0 s \<Longrightarrow> life_inv f p fd0 h0 s" for s
    using work_inv_init by (cases f) (auto simp: fresh_life_def life_inv_def ThreadsClientHandle_def)
qed (rule life_inv_step)


subsection \<open>Where a client gets stuck\<close>

text \<open>
  The order of \<open>doWork\<close>, and the wake-ups: a writer that waits although there is a message has
  been notified, or the reader is about to notify it.  \<open>wr_ok\<close> without the descriptor says which
  points belong to the class.
\<close>

fun wr_of :: "family \<Rightarrow> writer_pc \<Rightarrow> bool" where
  "wr_of f Wr_ErrClose = (f = V4)"
| "wr_of f Wr_ErrClear = (f = V4)"
| "wr_of f Wr_After = (f = V4)"
| "wr_of f Wr_Close = (f = V6)"
| "wr_of f Wr_Clear = (f = V6)"
| "wr_of f _ = True"

definition wake_inv :: "family \<Rightarrow> handle \<Rightarrow> bool" where
  "wake_inv f s \<longleftrightarrow> work_inv s \<and> wr_of f (wr s) \<and>
     (work s = D_JoinWrite \<or> work s = D_Done \<longrightarrow> rd s = Rd_Done) \<and>
     (wr s = Wr_Wait \<and> mMessageQueue s \<noteq> [] \<longrightarrow> notified s \<or> rd s = Rd_Notify)"

lemma wake_inv_doWork: "doWork_next f s = Some t \<Longrightarrow> wake_inv f s \<Longrightarrow> wake_inv f t"
  using work_inv_doWork[of f s t]
  by (cases "work s") (auto simp: doWork_next_eq wake_inv_def work_inv_def split: if_splits)

lemma wake_inv_reader: "reader_next f p s = Some t \<Longrightarrow> wake_inv f s \<Longrightarrow> wake_inv f t"
  using work_inv_reader[of f p s t]
  by (cases "rd s") (auto simp: reader_next_eq wake_inv_def notify_one_def split: prod.splits)

lemma wr_of_simps [simp]: "wr_of f (sent_pc f)" "wr_of f (zero_pc f)" "wr_of f (exit_pc f)"
  "sent_pc f \<noteq> Wr_Wait" "zero_pc f \<noteq> Wr_Wait" "exit_pc f \<noteq> Wr_Wait"
  by (cases f; simp)+

text \<open>A step of the writer that does not make it wait.\<close>

lemma wake_inv_wr:
  assumes "wake_inv f s" and "work_inv t" and "rd t = rd s" and "work t = work s"
    and "wr_of f (wr t)" and "wr t \<noteq> Wr_Wait"
  shows "wake_inv f t"
  using assms by (simp add: wake_inv_def)

lemma wake_inv_take:
  assumes "wake_inv f s" and "work_inv (take_message f s)"
  shows "wake_inv f (take_message f s)"
  using take_message_cases[of s f]
  by (elim disjE exE conjE) (rule wake_inv_wr[OF assms]; simp)+

lemma wake_inv_woken:
  assumes "wake_inv f s" and "wr s = Wr_Wait"
  shows "wake_inv f (woken f s)"
proof (cases f)
  case V4
  have "work_inv (woken V4 s)" using assms work_inv_woken[of s V4] by (simp add: wake_inv_def)
  then show ?thesis using wake_inv_wr[OF assms(1), of "woken V4 s"] by (simp add: V4)
next
  case V6
  have s: "work_inv (s\<lparr>notified := False\<rparr>)" "wr_of V6 (wr s)" using assms(1) V6 by (simp_all add: wake_inv_def work_inv_def)
  have "work_inv (woken V6 s)" using assms work_inv_woken[of s V6] by (simp add: wake_inv_def)
  with take_message_cases[of "s\<lparr>notified := False\<rparr>" V6] show ?thesis
    using assms(1) by (elim disjE exE conjE) (simp_all add: V6 wake_inv_def)
qed

lemma wake_inv_writer:
  assumes "writer_next f p s = Some t" and "wake_inv f s"
  shows "wake_inv f t"
proof -
  have w: "work_inv t" using assms work_inv_writer by (auto simp: wake_inv_def)
  show ?thesis
  proof (cases "wr s")
    case (Wr_Send m tot)
    with send_turn_event[of f p m tot s] assms w show ?thesis
      by (intro wake_inv_wr[OF assms(2) w]) (auto simp: writer_next_eq)
  next
    case Wr_Top
    with assms w wake_inv_take[OF assms(2)] show ?thesis
      by (auto simp: writer_next_eq wake_inv_def split: if_splits)
  next
    case Wr_Wait
    with assms wake_inv_woken show ?thesis by (auto simp: writer_next_eq split: if_splits)
  qed (use assms w in \<open>auto simp: writer_next_eq wake_inv_def split: if_splits\<close>)
qed

lemma wake_inv_step:
  assumes "noisy_step f p s t" and "wake_inv f s"
  shows "wake_inv f t"
  using assms
  by (auto elim!: noisy_stepE handle_stepE
      intro: wake_inv_doWork wake_inv_reader wake_inv_writer wake_inv_woken)

interpretation wake: invariant_system "noisy_step f p" "\<lambda>s. \<exists>ok. s = ThreadsClientHandle ok fd0 h0" "wake_inv f" for f p fd0 h0
proof
  show "\<exists>ok. s = ThreadsClientHandle ok fd0 h0 \<Longrightarrow> wake_inv f s" for s
    using work_inv_init by (auto simp: wake_inv_def ThreadsClientHandle_def)
qed (rule wake_inv_step)

lemma stuck_threads:
  "doWork_next f s = None \<longleftrightarrow> work s = D_Done \<or> work s = D_JoinRead \<and> rd s \<noteq> Rd_Done \<or>
     work s = D_JoinWrite \<and> wr s \<noteq> Wr_Done"
  "reader_next f p s = None \<longleftrightarrow> rd s = Rd_Unborn \<or> rd s = Rd_Done \<or> rd s = Rd_Throw \<or> rd s = Rd_Undefined"
  "wr_of f (wr s) \<Longrightarrow> writer_next f p s = None \<longleftrightarrow>
     wr s = Wr_Unborn \<or> wr s = Wr_Done \<or> wr s = Wr_Throw \<or> wr s = Wr_Undefined \<or> wr s = Wr_Wait \<and> \<not> notified s"
  by (auto simp: doWork_next_eq split: work_pc.splits if_splits)
    (auto simp: reader_next_eq split: reader_pc.splits prod.splits,
     auto simp: writer_next_eq split: writer_pc.splits if_splits)

lemma handle_stuck:
  assumes "reach (noisy_step f p) (ThreadsClientHandle ok fd h) s" and "\<not> stopped s"
  shows "(\<forall>a. role_next f p a s = None) \<longleftrightarrow> work s = D_Done \<and> rd s = Rd_Done \<and> wr s = Wr_Done \<or>
    work s = D_JoinWrite \<and> rd s = Rd_Done \<and> wr s = Wr_Wait \<and> \<not> notified s \<and> mMessageQueue s = []"
proof -
  have i: "wake_inv f s" using wake.reach_inv[OF assms(1)] by blast
  have all: "(\<forall>a. role_next f p a s = None) \<longleftrightarrow>
      doWork_next f s = None \<and> reader_next f p s = None \<and> writer_next f p s = None"
    using assms(2) by (metis (full_types) role.exhaust role_next.simps)
  have "wr_of f (wr s)" using i by (simp add: wake_inv_def)
  then show ?thesis
    unfolding all stuck_threads(1,2) stuck_threads(3)[OF \<open>wr_of f (wr s)\<close>]
    using i assms(2) by (cases "work s") (auto simp: wake_inv_def work_inv_def stopped_def)
qed

text \<open>
  C20: The threads of an older client, IPv4 or IPv6, can get stuck in one way only, short of an
  exception or undefined behaviour: the reader has left, the writer waits on the condition variable
  with an empty queue and no notification to come, and \<open>doWork\<close> waits for the writer.
\<close>

theorem handle_only_deadlock:
  assumes "reach (noisy_step f p) (ThreadsClientHandle ok fd h) s" and "\<not> stopped s"
  shows "(\<forall>a. role_next f p a s = None) \<longleftrightarrow> work s = D_Done \<and> rd s = Rd_Done \<and> wr s = Wr_Done \<or>
    work s = D_JoinWrite \<and> rd s = Rd_Done \<and> wr s = Wr_Wait \<and> \<not> notified s \<and> mMessageQueue s = []"
  by (rule handle_stuck[OF assms])

text \<open>One message and the end of the connection; the IPv6 writer answers and then waits for ever.\<close>

definition hang_up_platform :: platform where
  "hang_up_platform = sample_platform\<lparr>
     k_recv := \<lambda>h fd n fl. if received fd h = [] then Done (take n [104, 105]) else Done [],
     k_send := \<lambda>h fd bs fl. Done (min 2 (int (length bs)))\<rparr>"

lemmas handle_eval = ThreadsClientHandle_def thread_defs sys_simps after_recv_s_def to_c_int_small
  MAX_MESSAGEBUFF_LEN_s_def take_message_def INVALID_FD_def send_turn_def to_size_t_def Let_def c_string_def
  hang_up_platform_def

lemma six_hangs:
  "\<exists>s. sched (role_next V6 hang_up_platform)
      ([Work, Work, Reader, Reader, Reader, Reader, Writer, Writer, Writer, Writer,
        Reader, Reader, Reader, Reader, Writer, Work]) (ThreadsClientHandle True 4 []) = Some s \<and>
    rd s = Rd_Done \<and> wr s = Wr_Wait \<and> work s = D_JoinWrite \<and> \<not> notified s \<and> mMessageQueue s = [] \<and>
    sent 4 (hhist s) = [104, 105]"
  by (simp add: handle_eval)

theorem handle_only_deadlock_witness:
  "\<exists>s. reach (noisy_step V6 hang_up_platform) (ThreadsClientHandle True 4 []) s \<and> work s \<noteq> D_Done \<and>
    \<not> (\<exists>a. role_next V6 hang_up_platform a s \<noteq> None)"
proof -
  obtain s where s: "sched (role_next V6 hang_up_platform)
      ([Work, Work, Reader, Reader, Reader, Reader, Writer, Writer, Writer, Writer,
        Reader, Reader, Reader, Reader, Writer, Work]) (ThreadsClientHandle True 4 []) = Some s"
    "rd s = Rd_Done" "wr s = Wr_Wait" "work s = D_JoinWrite" "\<not> notified s" "mMessageQueue s = []"
    using six_hangs by blast
  have r: "reach (noisy_step V6 hang_up_platform) (ThreadsClientHandle True 4 []) s"
    by (rule handle_noisy[OF handle_sched_reach[OF s(1)]])
  have "\<not> stopped s" using s by (simp add: stopped_def)
  from handle_only_deadlock[OF r this] s r show ?thesis by auto
qed

text \<open>
  C29: The descriptor of an older client is closed at most once, and exactly once when its reader
  has finished, in every interleaving; for the IPv4 client this needs a \<open>send\<close> that does not
  answer \<open>0\<close>, for the IPv6 client nothing.
\<close>

theorem handle_closes_once:
  assumes "f = V4 \<Longrightarrow> send_never_zero p" and "fd \<noteq> INVALID_FD"
    and "reach (noisy_step f p) (ThreadsClientHandle ok fd h) s"
  shows "closes_of fd (hhist s) \<le> closes_of fd h + 1 \<and>
    (rd s = Rd_Done \<longrightarrow> closes_of fd (hhist s) = closes_of fd h + 1 \<and> hfd s = INVALID_FD)"
proof -
  have "fresh_life f p fd h (ThreadsClientHandle ok fd h)" using assms(1,2) by (auto simp: fresh_life_def)
  from life.reach_inv[OF assms(3) this] have c: "closes_of fd (hhist s) = closes_of fd h + rd_closed (rd s)"
    "hfd s = rd_fd fd (rd s)" by (simp_all add: life_inv_def)
  then show ?thesis by (cases "rd s") simp_all
qed

lemma hang_up_laws: "send_never_zero hang_up_platform" "recv_bounded hang_up_platform" "send_progresses hang_up_platform"
  by (auto simp: send_never_zero_def recv_bounded_def send_progresses_def send_bounded_def hang_up_platform_def)

lemma four_finishes:
  "\<exists>s. sched (role_next V4 hang_up_platform)
      [Work, Work, Reader, Reader, Reader, Reader, Writer, Writer, Reader, Reader, Reader, Reader,
       Writer, Writer, Writer, Work, Work] (ThreadsClientHandle True 4 []) = Some s \<and>
    rd s = Rd_Done \<and> work s = D_Done"
  by (simp add: handle_eval)

theorem handle_closes_once_witness:
  "\<exists>s. reach (noisy_step V4 hang_up_platform) (ThreadsClientHandle True 4 []) s \<and> work s = D_Done \<and>
    closes_of 4 (hhist s) = 1"
proof -
  obtain s where s: "sched (role_next V4 hang_up_platform)
      [Work, Work, Reader, Reader, Reader, Reader, Writer, Writer, Reader, Reader, Reader, Reader,
       Writer, Writer, Writer, Work, Work] (ThreadsClientHandle True 4 []) = Some s"
    "rd s = Rd_Done" "work s = D_Done" using four_finishes by blast
  have r: "reach (noisy_step V4 hang_up_platform) (ThreadsClientHandle True 4 []) s"
    by (rule handle_noisy[OF handle_sched_reach[OF s(1)]])
  from handle_closes_once[OF hang_up_laws(1) _ r] s r show ?thesis by (auto simp: INVALID_FD_def)
qed

text \<open>
  Without that law the IPv4 client closes its descriptor twice: when \<open>send\<close> answers \<open>0\<close>
  while the peer hangs up, both threads close the same number before either marks it invalid,
  and the second close can hit a connection accepted in between.
\<close>

lemma tcp4_double_close:
  "\<exists>p s. send_bounded p \<and> recv_bounded p \<and> reach (handle_step V4 p) (ThreadsClientHandle True 4 []) s \<and>
    closes_of 4 (hhist s) = 2"
proof -
  let ?p = "hang_up_platform\<lparr>k_send := \<lambda>h fd bs fl. Done 0\<rparr>"
  have p: "send_bounded ?p" "recv_bounded ?p"
    using hang_up_laws(2) by (auto simp: send_bounded_def recv_bounded_def)
  have "\<exists>s. sched (role_next V4 ?p)
      [Work, Work, Reader, Reader, Reader, Reader, Reader, Writer, Writer, Writer, Writer, Reader]
      (ThreadsClientHandle True 4 []) = Some s \<and> closes_of 4 (hhist s) = 2"
    by (simp add: handle_eval)
  then obtain s where "sched (role_next V4 ?p)
      [Work, Work, Reader, Reader, Reader, Reader, Reader, Writer, Writer, Writer, Writer, Reader]
      (ThreadsClientHandle True 4 []) = Some s" "closes_of 4 (hhist s) = 2" by blast
  with p handle_sched_reach show ?thesis by blast
qed

end
