(* ===== verification/Interfaces.thy ===== *)
theory Interfaces
  imports Posix
begin

text \<open>
  The contracts between the components, as locales: what \<open>start\<close> relies on in the function
  that creates the listening socket, and what the callers of \<open>run\<close> rely on in the body of an
  accept loop.  The lemmas the callers need are proved here once; the theories of the components
  interpret the locales on their own definitions.
\<close>

subsection \<open>Creating a listening socket\<close>

locale listener_keeps =
  fixes init :: "'e \<Rightarrow> history \<Rightarrow> bool \<times> 'e \<times> history" and fd_of :: "'e \<Rightarrow> int"
  assumes init_false: "init e h = (False, e', h') \<Longrightarrow> e' = e"
    and init_adds: "init e h = (b, e', h') \<Longrightarrow> open_fds h \<subseteq> open_fds h'"
begin

text \<open>A failed attempt can be repeated: the object is as before.\<close>

lemma init_false_fd: "init e h = (False, e', h') \<Longrightarrow> fd_of e' = fd_of e"
  using init_false by blast

lemma init_keeps_open: "init e h = (b, e', h') \<Longrightarrow> fd \<in> open_fds h \<Longrightarrow> fd \<in> open_fds h'"
  using init_adds by blast

end

text \<open>A socket that the object listens on: a live descriptor, with \<open>listen\<close> the last call.\<close>

definition listening :: "int \<Rightarrow> history \<Rightarrow> bool" where
  "listening fd h \<longleftrightarrow> 0 \<le> fd \<and> fd \<in> open_fds h \<and>
     (\<exists>r h'. h = E_listen fd 0xff r # h' \<and> 0 \<le> c_ret id r)"

locale listener = listener_keeps +
  assumes init_true: "init e h = (True, e', h') \<Longrightarrow> listening (fd_of e') h'"
begin

lemma init_true_fd: "init e h = (True, e', h') \<Longrightarrow> fd_of e' \<noteq> INVALID_FD \<and> fd_of e' \<in> open_fds h'"
  using init_true[of e h e' h'] by (auto simp: listening_def INVALID_FD_def)

text \<open>The result tells whether the object has a listening socket afterwards.\<close>

lemma init_result:
  "fd_of e = INVALID_FD \<Longrightarrow> init e h = (b, e', h') \<Longrightarrow> b \<longleftrightarrow> fd_of e' \<noteq> INVALID_FD"
  using init_true_fd[of e h e' h'] init_false_fd[of e h e' h'] by (cases b) auto

end

subsection \<open>Accept loops\<close>

text \<open>The descriptors of the accepted connections, oldest first.\<close>

fun accepted :: "history \<Rightarrow> int list" where
  "accepted [] = []"
| "accepted (E_accept s r # h) =
     (if 0 \<le> c_ret id r then accepted h @ [c_ret id r] else accepted h)"
| "accepted (_ # h) = accepted h"

text \<open>
  \<open>clients\<close> are the descriptors whose contexts were handed to client threads.  A turn accepts
  one connection and hands it over; leaving the loop is a failure and hands nothing over.
\<close>

locale accept_server =
  fixes body :: "'s \<Rightarrow> (bool \<times> 's) + 's" and wf :: "'s \<Rightarrow> bool"
    and hist_of :: "'s \<Rightarrow> history" and clients :: "'s \<Rightarrow> int list" and listen_fd :: "'s \<Rightarrow> int"
  assumes body_exit: "wf s \<Longrightarrow> body s = Inl (b, s') \<Longrightarrow>
      \<not> b \<and> wf s' \<and> clients s' = clients s \<and> listen_fd s' = listen_fd s"
    and body_turn: "wf s \<Longrightarrow> body s = Inr s' \<Longrightarrow>
      wf s' \<and> listen_fd s' = listen_fd s \<and>
      (\<exists>fd \<ge> 0. clients s' = clients s @ [fd] \<and> accepted (hist_of s') = accepted (hist_of s) @ [fd])"
begin

lemma turns_clients:
  "turns body k s = Some t \<Longrightarrow> wf s \<Longrightarrow>
   wf t \<and> listen_fd t = listen_fd s \<and>
   (\<exists>fds. length fds = k \<and> clients t = clients s @ fds \<and> accepted (hist_of t) = accepted (hist_of s) @ fds)"
proof (induction k arbitrary: s)
  case (Suc k)
  then obtain s1 where s1: "body s = Inr s1" "turns body k s1 = Some t" by (auto split: sum.splits)
  obtain fd where fd: "wf s1" "listen_fd s1 = listen_fd s" "clients s1 = clients s @ [fd]"
    "accepted (hist_of s1) = accepted (hist_of s) @ [fd]"
    using body_turn[OF Suc.prems(2) s1(1)] by blast
  from Suc.IH[OF s1(2) fd(1)] obtain fds where "length fds = k" "wf t" "listen_fd t = listen_fd s1"
    "clients t = clients s1 @ fds" "accepted (hist_of t) = accepted (hist_of s1) @ fds" by blast
  with fd show ?case by (auto intro!: exI[of _ "fd # fds"])
qed simp

text \<open>The loop never returns true, whatever the system does.\<close>

lemma run_false: "forever body n s = Some (b, s') \<Longrightarrow> wf s \<Longrightarrow> \<not> b"
  unfolding forever_iff using turns_clients body_exit by blast

text \<open>
  The clients that were served when the loop left are those of the turns before, in order.
\<close>

lemma run_clients:
  assumes "forever body n s = Some (b, s')" and "wf s"
  shows "\<exists>k t fds. k < n \<and> turns body k s = Some t \<and> body t = Inl (b, s') \<and> length fds = k \<and>
    clients s' = clients s @ fds \<and> accepted (hist_of t) = accepted (hist_of s) @ fds \<and>
    listen_fd s' = listen_fd s"
proof -
  obtain k t where k: "k < n" "turns body k s = Some t" "body t = Inl (b, s')"
    using assms(1) unfolding forever_iff by blast
  with turns_clients[OF k(2) assms(2)] body_exit[of t b s'] show ?thesis by metis
qed

lemma run_wf: "forever body n s = Some (b, s') \<Longrightarrow> wf s \<Longrightarrow> wf s' \<and> listen_fd s' = listen_fd s"
  unfolding forever_iff using turns_clients body_exit by metis

end

text \<open>A loop that hands over every connection it accepts.\<close>

locale accept_server_exact = accept_server +
  assumes exit_accepted: "wf s \<Longrightarrow> body s = Inl (b, s') \<Longrightarrow> accepted (hist_of s') = accepted (hist_of s)"
begin

lemma run_exact:
  assumes "forever body n s = Some (b, s')" and "wf s"
  shows "\<exists>fds. length fds < n \<and> clients s' = clients s @ fds \<and>
    accepted (hist_of s') = accepted (hist_of s) @ fds"
proof -
  from run_clients[OF assms] obtain k t fds where k: "k < n" "turns body k s = Some t"
    "body t = Inl (b, s')" "length fds = k" "clients s' = clients s @ fds"
    "accepted (hist_of t) = accepted (hist_of s) @ fds" by blast
  with exit_accepted[of t b s'] turns_clients[OF k(2) assms(2)] show ?thesis by metis
qed

end

end
