(* ===== verification/Fleet.thy ===== *)
theory Fleet
  imports Interfaces
begin

text \<open>
  A server together with the threads of all its clients.  The accept loop and every thread of
  every client take steps in any order; each client keeps the history of its own calls, and the
  kernel answers from the history of the whole process, which the server keeps.  The design of a
  server is a parameter; the locale \<open>fleet\<close> says what its accept loop and its clients must do so
  that descriptors are never shared, never closed twice and never lost, and proves it.
\<close>

subsection \<open>The system\<close>

text \<open>
  What a server and its clients consist of: a turn of the accept loop, the calls made so far and
  how a client's calls are added to them, the client a turn has started, a step of a client's
  threads when the process has made the given calls, the client's own calls, and whether the client
  has brought the program down.
\<close>

record ('s, 'c) design =
  turn :: "'s \<Rightarrow> (bool \<times> 's) + 's"
  calls :: "'s \<Rightarrow> history"
  log_calls :: "history \<Rightarrow> 's \<Rightarrow> 's"
  newest :: "'s \<Rightarrow> 'c"
  thread_step :: "history \<Rightarrow> 'c \<Rightarrow> 'c \<Rightarrow> bool"
  own_calls :: "'c \<Rightarrow> history"
  down :: "'c \<Rightarrow> bool"

record ('s, 'c) fleet_state =
  acceptor :: 's
  crew :: "'c list"
  serving :: bool

text \<open>The calls made since \<open>h\<close>, and the kernel as a client with own history \<open>h0\<close> meets it.\<close>

definition news :: "history \<Rightarrow> history \<Rightarrow> history" where
  "news h h' = take (length h' - length h) h'"

definition localise :: "platform \<Rightarrow> history \<Rightarrow> history \<Rightarrow> platform" where
  "localise p H h0 = p\<lparr>
     k_recv := (\<lambda>h. k_recv p (news h0 h @ H)),
     k_send := (\<lambda>h. k_send p (news h0 h @ H)),
     trace_enabled := (\<lambda>h. trace_enabled p (news h0 h @ H))\<rparr>"

lemma localise_bounded: "recv_bounded p \<Longrightarrow> recv_bounded (localise p H h0)"
  by (auto simp: recv_bounded_def localise_def)

lemma localise_never_zero: "send_never_zero p \<Longrightarrow> send_never_zero (localise p H h0)"
  by (auto simp: send_never_zero_def localise_def)

definition running :: "('s, 'c) design \<Rightarrow> ('s, 'c) fleet_state \<Rightarrow> bool" where
  "running D b \<longleftrightarrow> (\<forall>c\<in>set (crew b). \<not> down D c)"

definition all_calls :: "('s, 'c) design \<Rightarrow> ('s, 'c) fleet_state \<Rightarrow> history" where
  "all_calls D b = calls D (acceptor b)"

definition work_at :: "('s, 'c) design \<Rightarrow> nat \<Rightarrow> 'c \<Rightarrow> ('s, 'c) fleet_state \<Rightarrow> ('s, 'c) fleet_state" where
  "work_at D i t b = b\<lparr>acceptor := log_calls D (news (own_calls D (crew b ! i)) (own_calls D t)) (acceptor b),
     crew := (crew b)[i := t]\<rparr>"

inductive fleet_step :: "('s, 'c) design \<Rightarrow> ('s, 'c) fleet_state \<Rightarrow> ('s, 'c) fleet_state \<Rightarrow> bool"
  for D :: "('s, 'c) design" where
  accept_client: "running D b \<Longrightarrow> serving b \<Longrightarrow> turn D (acceptor b) = Inr s \<Longrightarrow>
     fleet_step D b (b\<lparr>acceptor := s, crew := crew b @ [newest D s]\<rparr>)"
| leave_loop: "running D b \<Longrightarrow> serving b \<Longrightarrow> turn D (acceptor b) = Inl (ok, s) \<Longrightarrow>
     fleet_step D b (b\<lparr>acceptor := s, serving := False\<rparr>)"
| client_works: "running D b \<Longrightarrow> i < length (crew b) \<Longrightarrow> thread_step D (all_calls D b) (crew b ! i) t \<Longrightarrow>
     fleet_step D b (work_at D i t b)"

text \<open>A server before its accept loop, with no client yet.\<close>

definition open_shop :: "'s \<Rightarrow> ('s, 'c) fleet_state" where
  "open_shop s = \<lparr>acceptor = s, crew = [], serving = True\<rparr>"

lemma open_shop_sel [simp]:
  "acceptor (open_shop s) = s" "crew (open_shop s) = []" "serving (open_shop s)"
  by (simp_all add: open_shop_def)

text \<open>Executable steps: a turn of the accept loop, or a step of some thread of the \<open>i\<close>-th client.\<close>

datatype 'a move = Accept | Client nat 'a

fun fleet_next ::
  "('s, 'c) design \<Rightarrow> (history \<Rightarrow> 'a \<Rightarrow> 'c \<Rightarrow> 'c option) \<Rightarrow> 'a move \<Rightarrow> ('s, 'c) fleet_state \<Rightarrow> ('s, 'c) fleet_state option" where
  "fleet_next D next Accept b =
     (if running D b \<and> serving b then
        (case turn D (acceptor b) of
           Inr s \<Rightarrow> Some (b\<lparr>acceptor := s, crew := crew b @ [newest D s]\<rparr>)
         | Inl (ok, s) \<Rightarrow> Some (b\<lparr>acceptor := s, serving := False\<rparr>))
      else None)"
| "fleet_next D next (Client i a) b =
     (if running D b \<and> i < length (crew b) then
        (case next (all_calls D b) a (crew b ! i) of None \<Rightarrow> None | Some t \<Rightarrow> Some (work_at D i t b))
      else None)"

lemma fleet_next_step:
  assumes "\<And>H a c t. next H a c = Some t \<Longrightarrow> thread_step D H c t"
  shows "fleet_next D next a b = Some b' \<Longrightarrow> fleet_step D b b'"
  using assms by (cases a) (auto split: if_splits sum.splits option.splits intro: fleet_step.intros)

lemma fleet_sched_reach:
  assumes "\<And>H a c t. next H a c = Some t \<Longrightarrow> thread_step D H c t"
  shows "sched (fleet_next D next) as b = Some b' \<Longrightarrow> reach (fleet_step D) b b'"
  by (rule sched_reach) (rule fleet_next_step[OF assms])

lemma news_append [simp]: "news h (evs @ h) = evs"
  by (simp add: news_def)

lemma news_same [simp]: "news h h = []"
  by (simp add: news_def)

subsection \<open>Views of the whole history\<close>

text \<open>
  Documented behaviour of \<open>accept\<close>: the descriptor it returns is not one the process has open.
\<close>

definition accept_fresh :: "platform \<Rightarrow> bool" where
  "accept_fresh p \<longleftrightarrow>
     (\<forall>h fd n a. k_accept4 p h fd = Done (n, a) \<longrightarrow> n \<notin> open_fds h) \<and>
     (\<forall>h fd n a. k_accept6 p h fd = Done (n, a) \<longrightarrow> n \<notin> open_fds h)"

lemma conn_done: "0 \<le> c_ret id (conn_of r) \<Longrightarrow> \<exists>a. r = Done (c_ret id (conn_of r), a)"
  by (cases r) auto

lemma accept_freshD:
  assumes "accept_fresh p"
  shows "0 \<le> c_ret id (conn_of (k_accept4 p h fd)) \<Longrightarrow> c_ret id (conn_of (k_accept4 p h fd)) \<notin> open_fds h"
    "0 \<le> c_ret id (conn_of (k_accept6 p h fd)) \<Longrightarrow> c_ret id (conn_of (k_accept6 p h fd)) \<notin> open_fds h"
  using assms conn_done[of "k_accept4 p h fd"] conn_done[of "k_accept6 p h fd"]
  unfolding accept_fresh_def by metis+

text \<open>Every close of a real descriptor closed one that was open.\<close>

fun clean :: "history \<Rightarrow> bool" where
  "clean [] = True"
| "clean (E_close fd # h) = ((fd = INVALID_FD \<or> fd \<in> open_fds h) \<and> clean h)"
| "clean (_ # h) = clean h"

text \<open>The bytes received on a descriptor, and sent on it, since it was last accepted.\<close>

fun conn_stream :: "int \<Rightarrow> history \<Rightarrow> byte list" where
  "conn_stream fd [] = []"
| "conn_stream fd (E_accept s r # h) = (if c_ret id r = fd then [] else conn_stream fd h)"
| "conn_stream fd (E_recv fd' (Done bs) # h) =
     (if fd' = fd then conn_stream fd h @ bs else conn_stream fd h)"
| "conn_stream fd (_ # h) = conn_stream fd h"

fun conn_sent :: "int \<Rightarrow> history \<Rightarrow> byte list" where
  "conn_sent fd [] = []"
| "conn_sent fd (E_accept s r # h) = (if c_ret id r = fd then [] else conn_sent fd h)"
| "conn_sent fd (E_send fd' bs fl (Done n) # h) =
     (if fd' = fd then conn_sent fd h @ take (nat n) bs else conn_sent fd h)"
| "conn_sent fd (_ # h) = conn_sent fd h"

text \<open>A client with this history has not closed its descriptor yet.\<close>

definition live :: "int \<Rightarrow> history \<Rightarrow> bool" where
  "live fd h \<longleftrightarrow> closes_of fd h = 0"

lemma live_Nil [simp]: "live fd []"
  by (simp add: live_def)

text \<open>
  What a client may call in one step: \<open>recv\<close> on its own descriptor, as long as that is open, and
  its close; any \<open>send\<close>; and a close of \<open>INVALID_FD\<close>.
\<close>

definition client_calls :: "int \<Rightarrow> history \<Rightarrow> history \<Rightarrow> bool" where
  "client_calls fd h evs \<longleftrightarrow> evs = [] \<or> (\<exists>r. evs = [E_recv fd r] \<and> live fd h) \<or>
     (\<exists>fd' bs fl r. evs = [E_send fd' bs fl r]) \<or> (evs = [E_close fd] \<and> live fd h) \<or> evs = [E_close INVALID_FD]"

text \<open>A step of a client that adds at most one such call to its history.\<close>

lemma client_step_calls:
  "h' = h \<Longrightarrow> \<exists>evs. client_calls fd h evs \<and> h' = evs @ h"
  "h' = E_recv fd r # h \<Longrightarrow> live fd h \<Longrightarrow> \<exists>evs. client_calls fd h evs \<and> h' = evs @ h"
  "h' = E_send fd' bs fl n # h \<Longrightarrow> \<exists>evs. client_calls fd h evs \<and> h' = evs @ h"
  "h' = sys_close fd' h \<Longrightarrow> fd' = INVALID_FD \<or> fd' = fd \<and> live fd h \<Longrightarrow> \<exists>evs. client_calls fd h evs \<and> h' = evs @ h"
  by (auto simp: client_calls_def sys_close_def)

fun is_option :: "event \<Rightarrow> bool" where
  "is_option (E_setsockopt fd opt r) = True"
| "is_option _ = False"

lemma options_views:
  assumes "list_all is_option opts"
  shows "open_fds (opts @ h) = open_fds h \<and> clean (opts @ h) = clean h \<and> conn_stream fd (opts @ h) = conn_stream fd h"
  using assms
proof (induction opts)
  case (Cons e opts)
  then show ?case by (cases e) auto
qed simp

lemma conn_stream_recv:
  "conn_stream fd (E_recv fd' r # H) = (if fd' = fd then conn_stream fd H @ data_of r else conn_stream fd H)"
  by (cases r) auto

lemma received_recv:
  "received fd (E_recv fd' r # H) = (if fd' = fd then received fd H @ data_of r else received fd H)"
  by (cases r) auto

lemma send_views [simp]:
  "conn_stream fd (E_send fd' bs fl r # H) = conn_stream fd H" "received fd (E_send fd' bs fl r # H) = received fd H"
  by (cases r; simp)+

lemma live_calls:
  assumes "client_calls fd h evs" and "0 \<le> fd"
  shows "live fd (evs @ h) \<longleftrightarrow> live fd h \<and> evs \<noteq> [E_close fd]"
  using assms by (auto simp: client_calls_def live_def INVALID_FD_def)

subsection \<open>The clients and their descriptors\<close>

text \<open>The clients with the descriptors they were given, and the descriptors that are still theirs.\<close>

definition team :: "('s \<Rightarrow> int list) \<Rightarrow> ('s, 'c) fleet_state \<Rightarrow> (int \<times> 'c) list" where
  "team conns b = zip (conns (acceptor b)) (crew b)"

definition live_team :: "('c \<Rightarrow> history) \<Rightarrow> (int \<times> 'c) list \<Rightarrow> (int \<times> 'c) list" where
  "live_team own = filter (\<lambda>(fd, c). live fd (own c))"

definition live_fds :: "('c \<Rightarrow> history) \<Rightarrow> (int \<times> 'c) list \<Rightarrow> int list" where
  "live_fds own ts = map fst (live_team own ts)"

lemma live_team_simps [simp]:
  "live_team own [] = []" "live_team own (xs @ ys) = live_team own xs @ live_team own ys"
  "live_team own ((fd, c) # ts) = (if live fd (own c) then (fd, c) # live_team own ts else live_team own ts)"
  by (simp_all add: live_team_def)

lemma live_fds_simps [simp]:
  "live_fds own [] = []" "live_fds own (xs @ ys) = live_fds own xs @ live_fds own ys"
  "live_fds own ((fd, c) # ts) = (if live fd (own c) then fd # live_fds own ts else live_fds own ts)"
  by (simp_all add: live_fds_def)

lemma live_fds_mem: "(fd, c) \<in> set ts \<Longrightarrow> live fd (own c) \<Longrightarrow> fd \<in> set (live_fds own ts)"
  by (force simp: live_fds_def live_team_def)

definition crew_inv :: "(int \<Rightarrow> 'c \<Rightarrow> bool) \<Rightarrow> ('c \<Rightarrow> history) \<Rightarrow> int set \<Rightarrow> history \<Rightarrow> int \<Rightarrow> 'c \<Rightarrow> bool" where
  "crew_inv good own open0 H fd c \<longleftrightarrow> good fd c \<and> 0 \<le> fd \<and>
     (live fd (own c) \<longrightarrow> fd \<notin> open0 \<and> conn_stream fd H = received fd (own c))"

text \<open>
  The open descriptors are those from before, those of the live clients, and \<open>lost\<close> ones, which
  were accepted but never handed to a client.
\<close>

definition team_inv ::
  "(int \<Rightarrow> 'c \<Rightarrow> bool) \<Rightarrow> ('c \<Rightarrow> history) \<Rightarrow> int set \<Rightarrow> int set \<Rightarrow> history \<Rightarrow> (int \<times> 'c) list \<Rightarrow> bool" where
  "team_inv good own open0 lost H ts \<longleftrightarrow>
     (\<forall>(fd, c)\<in>set ts. crew_inv good own open0 H fd c) \<and> distinct (live_fds own ts) \<and>
     open_fds H = open0 \<union> set (live_fds own ts) \<union> lost \<and> lost \<inter> (open0 \<union> set (live_fds own ts)) = {} \<and> clean H"

lemma team_inv_accept:
  assumes "team_inv good own open0 lost H ts" and "list_all is_option opts"
    and "good (c_ret id r) c" and "own c = []" and "c_ret id r \<notin> open_fds H" and "0 \<le> c_ret id r"
  shows "team_inv good own open0 lost (opts @ E_accept l r # H) (ts @ [(c_ret id r, c)])"
proof -
  note views = options_views[OF assms(2)]
  have apart: "fd \<noteq> c_ret id r" if "(fd, d) \<in> set ts" "live fd (own d)" for fd d
    using live_fds_mem[of fd d ts own, OF that] assms(1,5) by (auto simp: team_inv_def)
  have "crew_inv good own open0 (opts @ E_accept l r # H) (c_ret id r) c"
    using assms by (auto simp: crew_inv_def views team_inv_def)
  moreover have "crew_inv good own open0 (opts @ E_accept l r # H) fd d" if "(fd, d) \<in> set ts" for fd d
    using assms(1) that apart[OF that] by (auto simp: team_inv_def crew_inv_def views)
  moreover have "c_ret id r \<notin> set (live_fds own ts)" "c_ret id r \<notin> lost" using assms(1,5) by (auto simp: team_inv_def)
  ultimately show ?thesis
    using assms(1,4,6) by (auto simp: team_inv_def views)
qed

lemma team_inv_leave:
  assumes "team_inv good own open0 {} H ts" and "list_all is_option opts"
    and "0 \<le> c_ret id r \<Longrightarrow> c_ret id r \<notin> open_fds H"
  shows "team_inv good own open0 (if 0 \<le> c_ret id r then {c_ret id r} else {}) (opts @ E_accept l r # H) ts"
proof -
  note views = options_views[OF assms(2)]
  have apart: "fd \<noteq> c_ret id r" if "(fd, d) \<in> set ts" "live fd (own d)" for fd d
    using live_fds_mem[of fd d ts own, OF that] assms(1,3) that by (auto simp: team_inv_def crew_inv_def)
  have "crew_inv good own open0 (opts @ E_accept l r # H) fd d" if "(fd, d) \<in> set ts" for fd d
    using assms(1) that apart[OF that] by (auto simp: team_inv_def crew_inv_def views)
  then show ?thesis using assms(1,3) by (auto simp: team_inv_def views)
qed


lemma team_inv_work:
  assumes "team_inv good own open0 lost H (xs @ (fd, c) # ys)" and "client_calls fd (own c) evs"
    and "own d = evs @ own c" and "good fd d"
  shows "team_inv good own open0 lost (evs @ H) (xs @ (fd, d) # ys)"
proof -
  let ?ts = "xs @ (fd, c) # ys"
  have fd: "0 \<le> fd" "fd \<noteq> INVALID_FD" using assms(1) by (auto simp: team_inv_def crew_inv_def INVALID_FD_def)
  have self: "live fd (own c) \<Longrightarrow> fd \<notin> open0 \<and> conn_stream fd H = received fd (own c) \<and>
      fd \<notin> set (live_fds own xs) \<and> fd \<notin> set (live_fds own ys) \<and> fd \<notin> lost"
    using assms(1) by (auto simp: team_inv_def crew_inv_def)
  have rest: "crew_inv good own open0 H fd' e" if "(fd', e) \<in> set (xs @ ys)" for fd' e
    using assms(1) that by (auto simp: team_inv_def)
  have others: "live fd (own c) \<Longrightarrow> (fd', e) \<in> set (xs @ ys) \<Longrightarrow> live fd' (own e) \<Longrightarrow> fd' \<noteq> fd" for fd' e
    using self live_fds_mem[of fd' e xs own] live_fds_mem[of fd' e ys own] by auto
  note lt = live_calls[OF assms(2) fd(1), folded assms(3)]
  have crew: "team_inv good own open0 lost (evs @ H) (xs @ (fd, d) # ys)"
    if new: "crew_inv good own open0 (evs @ H) fd d"
      "\<And>fd' e. (fd', e) \<in> set (xs @ ys) \<Longrightarrow> crew_inv good own open0 (evs @ H) fd' e"
      and "live fd (own d) = live fd (own c)" and "open_fds (evs @ H) = open_fds H" and "clean (evs @ H)"
    using assms(1) that by (auto simp: team_inv_def)
  from assms(2) consider (none) "evs = []" | (recv) r where "evs = [E_recv fd r]" "live fd (own c)"
    | (send) fd' bs fl r where "evs = [E_send fd' bs fl r]"
    | (close) "evs = [E_close fd]" "live fd (own c)" | (again) "evs = [E_close INVALID_FD]"
    by (auto simp: client_calls_def)
  then show ?thesis
  proof cases
    case none
    with assms lt rest show ?thesis by (intro crew) (auto simp: team_inv_def crew_inv_def)
  next
    case (recv r)
    have "crew_inv good own open0 (evs @ H) fd' e" if "(fd', e) \<in> set (xs @ ys)" for fd' e
      using rest[OF that] others[OF recv(2) that] recv(1) by (auto simp: crew_inv_def conn_stream_recv)
    moreover have "crew_inv good own open0 (evs @ H) fd d"
      using recv assms(3,4) self fd(1) by (simp add: crew_inv_def conn_stream_recv received_recv)
    ultimately show ?thesis using assms(1) recv lt by (intro crew) (auto simp: team_inv_def)
  next
    case (send fd' bs fl r)
    with assms lt rest self fd show ?thesis
      by (intro crew) (auto simp: team_inv_def crew_inv_def)
  next
    case close
    with assms(1,3,4) lt fd self rest show ?thesis by (auto simp: team_inv_def crew_inv_def)
  next
    case again
    have "fd' \<noteq> INVALID_FD" if "(fd', e) \<in> set (xs @ ys)" for fd' e
      using rest[OF that] by (auto simp: crew_inv_def INVALID_FD_def)
    moreover have "open_fds (evs @ H) = open_fds H" using again INVALID_not_open by auto
    ultimately show ?thesis
      using again assms lt fd rest self by (intro crew) (auto simp: team_inv_def crew_inv_def)
  qed
qed

lemma zip_split:
  assumes "i < length xs" and "length ys = length xs"
  shows "zip xs ys = take i (zip xs ys) @ (xs ! i, ys ! i) # drop (Suc i) (zip xs ys)"
    "zip xs (ys[i := y]) = take i (zip xs ys) @ (xs ! i, y) # drop (Suc i) (zip xs ys)"
proof -
  show "zip xs ys = take i (zip xs ys) @ (xs ! i, ys ! i) # drop (Suc i) (zip xs ys)"
    using assms id_take_nth_drop[of i "zip xs ys"] by simp
  have "zip xs (ys[i := y]) = (zip xs ys)[i := (xs ! i, y)]"
    using assms by (simp add: list_eq_iff_nth_eq nth_list_update)
  then show "zip xs (ys[i := y]) = take i (zip xs ys) @ (xs ! i, y) # drop (Suc i) (zip xs ys)"
    using assms by (simp add: upd_conv_take_nth_drop)
qed

subsection \<open>The abstract server: a table of connections\<close>

text \<open>
  What a server with its clients is for: a table of connections, each with the bytes it has
  delivered.  A connection appears empty, grows, and goes away.
\<close>

inductive table_step :: "(int \<rightharpoonup> byte list) \<Rightarrow> (int \<rightharpoonup> byte list) \<Rightarrow> bool" where
  connect: "T fd = None \<Longrightarrow> table_step T (T(fd \<mapsto> []))"
| arrive: "T fd = Some xs \<Longrightarrow> table_step T (T(fd \<mapsto> xs @ ys))"
| gone: "T fd = Some xs \<Longrightarrow> table_step T (T(fd := None))"

definition table_of :: "('c \<Rightarrow> history) \<Rightarrow> (int \<times> 'c) list \<Rightarrow> (int \<rightharpoonup> byte list)" where
  "table_of own ts = map_of (map (\<lambda>(fd, c). (fd, received fd (own c))) (live_team own ts))"

lemma table_of_None: "fd \<notin> set (live_fds own ts) \<Longrightarrow> table_of own ts fd = None"
  by (force simp: table_of_def live_fds_def map_of_eq_None_iff)

lemma table_of_cons: "table_of own ((fd, c) # ts) =
    (if live fd (own c) then (table_of own ts)(fd \<mapsto> received fd (own c)) else table_of own ts)"
  by (simp add: table_of_def)

lemma table_of_append: "table_of own (xs @ ys) = table_of own ys ++ table_of own xs"
  by (simp add: table_of_def)

text \<open>The table with one live client set apart.\<close>

lemma table_of_split:
  assumes "live fd (own c)" and "fd \<notin> set (live_fds own xs)"
  shows "table_of own (xs @ (fd, c) # ys) = (table_of own (xs @ ys))(fd \<mapsto> received fd (own c))"
  using assms table_of_None[OF assms(2)]
  by (auto simp: table_of_append table_of_cons fun_eq_iff map_add_def split: option.split)

lemma table_of_dead: "\<not> live fd (own c) \<Longrightarrow> table_of own (xs @ (fd, c) # ys) = table_of own (xs @ ys)"
  by (simp add: table_of_append table_of_cons)

lemma table_of_work:
  assumes "distinct (live_fds own (xs @ (fd, c) # ys))" and "client_calls fd (own c) evs" and "0 \<le> fd"
    and "own d = evs @ own c"
  shows "table_of own (xs @ (fd, d) # ys) = table_of own (xs @ (fd, c) # ys) \<or>
    table_step (table_of own (xs @ (fd, c) # ys)) (table_of own (xs @ (fd, d) # ys))"
proof (cases "live fd (own c)")
  case True
  let ?T = "table_of own (xs @ ys)"
  have nx: "fd \<notin> set (live_fds own xs)" "fd \<notin> set (live_fds own (xs @ ys))" using assms(1) True by auto
  note c = table_of_split[of fd own c xs ys, OF True nx(1)]
  show ?thesis
  proof (cases "evs = [E_close fd]")
    case True
    then have "table_of own (xs @ (fd, d) # ys) = (table_of own (xs @ (fd, c) # ys))(fd := None)"
      using c assms(4) table_of_None[OF nx(2)] by (subst table_of_dead) (auto simp: live_def fun_eq_iff)
    then show ?thesis using c table_step.gone[of "table_of own (xs @ (fd, c) # ys)" fd "received fd (own c)"] by simp
  next
    case False
    then have "live fd (own d)" using live_calls[OF assms(2,3)] True assms(4) by simp
    note d = table_of_split[of fd own d xs ys, OF this nx(1)]
    have "\<exists>ys. received fd (own d) = received fd (own c) @ ys"
      using assms(2,4) by (auto simp: client_calls_def received_recv)
    then obtain zs where "table_of own (xs @ (fd, d) # ys) =
        (table_of own (xs @ (fd, c) # ys))(fd \<mapsto> received fd (own c) @ zs)" using c d by auto
    then show ?thesis using c table_step.arrive[of "table_of own (xs @ (fd, c) # ys)" fd "received fd (own c)" zs] by simp
  qed
next
  case False
  then have "\<not> live fd (own d)" using live_calls[OF assms(2,3)] assms(4) by simp
  with False show ?thesis by (simp add: table_of_dead)
qed


subsection \<open>The contract\<close>

text \<open>
  A turn accepts one connection whose descriptor was not open and makes a client for it; only a
  server that is \<open>leaky\<close> may accept one when it leaves the loop.  A client's step makes the calls
  of \<open>client_calls\<close> and keeps what makes it \<open>good\<close>.
\<close>

locale fleet =
  fixes D :: "('s, 'c) design" and sound :: "'s \<Rightarrow> bool" and conns :: "'s \<Rightarrow> int list"
    and good :: "int \<Rightarrow> 'c \<Rightarrow> bool" and leaky :: bool
  assumes turn_accepts: "sound s \<Longrightarrow> turn D s = Inr s' \<Longrightarrow> sound s' \<and>
      (\<exists>opts l r. list_all is_option opts \<and> calls D s' = opts @ E_accept l r # calls D s \<and>
        0 \<le> c_ret id r \<and> c_ret id r \<notin> open_fds (calls D s) \<and> conns s' = conns s @ [c_ret id r] \<and>
        good (c_ret id r) (newest D s') \<and> own_calls D (newest D s') = [])"
    and turn_leaves: "sound s \<Longrightarrow> turn D s = Inl (b, s') \<Longrightarrow> sound s' \<and> conns s' = conns s \<and>
      (\<exists>opts l r. list_all is_option opts \<and> calls D s' = opts @ E_accept l r # calls D s \<and>
        (0 \<le> c_ret id r \<longrightarrow> leaky \<and> c_ret id r \<notin> open_fds (calls D s)))"
    and logs: "sound s \<Longrightarrow> sound (log_calls D evs s) \<and> conns (log_calls D evs s) = conns s \<and>
      calls D (log_calls D evs s) = evs @ calls D s"
    and works: "good fd c \<Longrightarrow> thread_step D H c t \<Longrightarrow> good fd t \<and>
      (\<exists>evs. client_calls fd (own_calls D c) evs \<and> own_calls D t = evs @ own_calls D c)"

definition fleet_inv ::
  "('s, 'c) design \<Rightarrow> ('s \<Rightarrow> bool) \<Rightarrow> ('s \<Rightarrow> int list) \<Rightarrow> (int \<Rightarrow> 'c \<Rightarrow> bool) \<Rightarrow> bool \<Rightarrow> int set \<Rightarrow>
   ('s, 'c) fleet_state \<Rightarrow> bool" where
  "fleet_inv D sound conns good leaky open0 b \<longleftrightarrow> sound (acceptor b) \<and> length (crew b) = length (conns (acceptor b)) \<and>
     (\<exists>lost. team_inv good (own_calls D) open0 lost (all_calls D b) (team conns b) \<and>
       (serving b \<or> \<not> leaky \<longrightarrow> lost = {}) \<and> (\<exists>fd. lost \<subseteq> {fd}))"

definition fleet_start ::
  "('s, 'c) design \<Rightarrow> ('s \<Rightarrow> bool) \<Rightarrow> ('s \<Rightarrow> int list) \<Rightarrow> int set \<Rightarrow> ('s, 'c) fleet_state \<Rightarrow> bool" where
  "fleet_start D sound conns open0 b \<longleftrightarrow>
     (\<exists>s. b = open_shop s \<and> sound s \<and> conns s = [] \<and> clean (calls D s) \<and> open_fds (calls D s) = open0)"

definition fleet_table ::
  "('s, 'c) design \<Rightarrow> ('s \<Rightarrow> int list) \<Rightarrow> ('s, 'c) fleet_state \<Rightarrow> (int \<rightharpoonup> byte list)" where
  "fleet_table D conns b = table_of (own_calls D) (team conns b)"

context fleet
begin

lemma fleet_inv_start: "fleet_start D sound conns open0 b \<Longrightarrow> fleet_inv D sound conns good leaky open0 b"
  by (auto simp: fleet_start_def fleet_inv_def team_def all_calls_def team_inv_def intro!: exI[of _ "{}"])

lemma fleet_inv_accept:
  assumes "fleet_inv D sound conns good leaky open0 b" and "serving b" and "turn D (acceptor b) = Inr s"
  defines "b' \<equiv> b\<lparr>acceptor := s, crew := crew b @ [newest D s]\<rparr>"
  shows "fleet_inv D sound conns good leaky open0 b' \<and> table_step (fleet_table D conns b) (fleet_table D conns b')"
proof -
  have sound: "sound (acceptor b)" and len: "length (crew b) = length (conns (acceptor b))"
    and t: "team_inv good (own_calls D) open0 {} (all_calls D b) (team conns b)"
    using assms(1,2) by (auto simp: fleet_inv_def)
  obtain opts l r where o: "list_all is_option opts" "calls D s = opts @ E_accept l r # calls D (acceptor b)"
    "0 \<le> c_ret id r" "c_ret id r \<notin> open_fds (all_calls D b)" "conns s = conns (acceptor b) @ [c_ret id r]"
    "good (c_ret id r) (newest D s)" "own_calls D (newest D s) = []" "sound s"
    using turn_accepts[OF sound assms(3)] unfolding all_calls_def by blast
  have team: "team conns b' = team conns b @ [(c_ret id r, newest D s)]"
    using len o(5) by (simp add: team_def b'_def)
  have "team_inv good (own_calls D) open0 {} (all_calls D b') (team conns b')"
    using team_inv_accept[OF t o(1,6,7,4,3), of l] team o(2) by (simp add: all_calls_def b'_def)
  moreover have "fleet_table D conns b' = (fleet_table D conns b)(c_ret id r \<mapsto> [])"
    unfolding fleet_table_def team
    using t o(4,7) table_of_split[of "c_ret id r" "own_calls D" "newest D s" "team conns b" "[]"]
    by (auto simp: team_inv_def)
  moreover have "fleet_table D conns b (c_ret id r) = None"
    unfolding fleet_table_def using t o(4) by (intro table_of_None) (auto simp: team_inv_def)
  ultimately show ?thesis
    using len o(5,8) by (auto simp: fleet_inv_def b'_def intro: table_step.connect)
qed

lemma fleet_inv_leave:
  assumes "fleet_inv D sound conns good leaky open0 b" and "serving b" and "turn D (acceptor b) = Inl (ok, s)"
  defines "b' \<equiv> b\<lparr>acceptor := s, serving := False\<rparr>"
  shows "fleet_inv D sound conns good leaky open0 b' \<and> fleet_table D conns b' = fleet_table D conns b"
proof -
  have sound: "sound (acceptor b)" and len: "length (crew b) = length (conns (acceptor b))"
    and t: "team_inv good (own_calls D) open0 {} (all_calls D b) (team conns b)"
    using assms(1,2) by (auto simp: fleet_inv_def)
  obtain opts l r where o: "list_all is_option opts" "calls D s = opts @ E_accept l r # calls D (acceptor b)"
    "0 \<le> c_ret id r \<Longrightarrow> leaky \<and> c_ret id r \<notin> open_fds (all_calls D b)" "conns s = conns (acceptor b)" "sound s"
    using turn_leaves[OF sound assms(3)] unfolding all_calls_def by blast
  have team: "team conns b' = team conns b" using o(4) by (simp add: team_def b'_def)
  have "team_inv good (own_calls D) open0 (if 0 \<le> c_ret id r then {c_ret id r} else {}) (all_calls D b') (team conns b')"
    using team_inv_leave[OF t o(1), of r l] team o(2,3) by (simp add: all_calls_def b'_def)
  then show ?thesis
    using len o(3,4,5) team by (auto simp: fleet_inv_def fleet_table_def b'_def split: if_splits)
qed

text \<open>The \<open>i\<close>-th client and its descriptor, set apart from the others.\<close>

lemma client_at:
  assumes "fleet_inv D sound conns good leaky open0 b" and "i < length (crew b)"
  defines "fd \<equiv> conns (acceptor b) ! i" and "c \<equiv> crew b ! i"
  shows "team conns b = take i (team conns b) @ (fd, c) # drop (Suc i) (team conns b)"
    "good fd c" "0 \<le> fd" "live fd (own_calls D c) \<Longrightarrow> fd \<in> open_fds (all_calls D b) - open0"
proof -
  have len: "length (crew b) = length (conns (acceptor b))" using assms(1) by (simp add: fleet_inv_def)
  then have i: "i < length (conns (acceptor b))" using assms(2) by simp
  show team: "team conns b = take i (team conns b) @ (fd, c) # drop (Suc i) (team conns b)"
    unfolding team_def fd_def c_def by (rule zip_split(1)[OF i len])
  then have mem: "(fd, c) \<in> set (team conns b)" by (metis in_set_conv_decomp)
  with assms(1) show "good fd c" "0 \<le> fd" by (auto simp: fleet_inv_def team_inv_def crew_inv_def)
  show "fd \<in> open_fds (all_calls D b) - open0" if "live fd (own_calls D c)"
    using assms(1) mem that live_fds_mem[OF mem, of "own_calls D"]
    by (auto simp: fleet_inv_def team_inv_def crew_inv_def)
qed

text \<open>What a client does when it goes from \<open>c\<close> to \<open>t\<close>, and what that makes of the fleet.\<close>

definition deed :: "int \<Rightarrow> 'c \<Rightarrow> 'c \<Rightarrow> history \<Rightarrow> bool" where
  "deed fd c t evs \<longleftrightarrow> good fd t \<and> client_calls fd (own_calls D c) evs \<and> own_calls D t = evs @ own_calls D c"

lemma work_at_sel:
  assumes "fleet_inv D sound conns good leaky open0 b" and "i < length (crew b)"
    and "deed (conns (acceptor b) ! i) (crew b ! i) t evs"
  shows "acceptor (work_at D i t b) = log_calls D evs (acceptor b)" "crew (work_at D i t b) = (crew b)[i := t]"
    "serving (work_at D i t b) = serving b" "sound (log_calls D evs (acceptor b))"
    "conns (log_calls D evs (acceptor b)) = conns (acceptor b)" "all_calls D (work_at D i t b) = evs @ all_calls D b"
    "team conns (work_at D i t b) = take i (team conns b) @ (conns (acceptor b) ! i, t) # drop (Suc i) (team conns b)"
proof -
  have s: "sound (acceptor b)" and len: "length (crew b) = length (conns (acceptor b))"
    using assms(1) by (simp_all add: fleet_inv_def)
  show log: "acceptor (work_at D i t b) = log_calls D evs (acceptor b)" "crew (work_at D i t b) = (crew b)[i := t]"
    "serving (work_at D i t b) = serving b" using assms(3) by (simp_all add: work_at_def deed_def)
  show keeps: "sound (log_calls D evs (acceptor b))" "conns (log_calls D evs (acceptor b)) = conns (acceptor b)"
    "all_calls D (work_at D i t b) = evs @ all_calls D b" using logs[OF s, of evs] by (simp_all add: all_calls_def log)
  show "team conns (work_at D i t b) = take i (team conns b) @ (conns (acceptor b) ! i, t) # drop (Suc i) (team conns b)"
    using keeps zip_split(2)[OF _ len, of i t] assms(2) len by (simp add: team_def log)
qed

lemma fleet_inv_deed:
  assumes "fleet_inv D sound conns good leaky open0 b" and "i < length (crew b)"
    and "deed (conns (acceptor b) ! i) (crew b ! i) t evs"
  shows "fleet_inv D sound conns good leaky open0 (work_at D i t b) \<and>
    (fleet_table D conns (work_at D i t b) = fleet_table D conns b \<or>
     table_step (fleet_table D conns b) (fleet_table D conns (work_at D i t b)))"
proof -
  let ?fd = "conns (acceptor b) ! i" and ?c = "crew b ! i" and ?own = "own_calls D"
  let ?xs = "take i (team conns b)" and ?ys = "drop (Suc i) (team conns b)"
  note at = client_at[OF assms(1,2)] and new = work_at_sel[OF assms(1-3)]
  have d: "good ?fd t" "client_calls ?fd (?own ?c) evs" "?own t = evs @ ?own ?c" using assms(3) by (simp_all add: deed_def)
  obtain lost where t: "team_inv good ?own open0 lost (all_calls D b) (team conns b)"
    and lost: "serving b \<or> \<not> leaky \<longrightarrow> lost = {}" "\<exists>fd. lost \<subseteq> {fd}" using assms(1) by (auto simp: fleet_inv_def)
  have t': "team_inv good ?own open0 lost (all_calls D b) (?xs @ (?fd, ?c) # ?ys)" using t at(1) by simp
  have "team_inv good ?own open0 lost (all_calls D (work_at D i t b)) (team conns (work_at D i t b))"
    using team_inv_work[where own = ?own and good = good and fd = ?fd, OF t' d(2,3,1)] by (simp add: new)
  then have "fleet_inv D sound conns good leaky open0 (work_at D i t b)"
    using new lost assms(1) by (auto simp: fleet_inv_def)
  moreover have "distinct (live_fds ?own (?xs @ (?fd, ?c) # ?ys))" using t at(1) by (simp add: team_inv_def)
  from table_of_work[OF this d(2) at(3) d(3)]
  have "fleet_table D conns (work_at D i t b) = fleet_table D conns b \<or>
     table_step (fleet_table D conns b) (fleet_table D conns (work_at D i t b))"
    unfolding fleet_table_def new(7) using at(1) by metis
  ultimately show ?thesis ..
qed

lemma works_deed:
  assumes "fleet_inv D sound conns good leaky open0 b" and "i < length (crew b)"
    and "thread_step D H (crew b ! i) t"
  obtains evs where "deed (conns (acceptor b) ! i) (crew b ! i) t evs"
  using works[OF client_at(2)[OF assms(1,2)] assms(3)] by (auto simp: deed_def)

text \<open>A client's step keeps the connections and makes no client live again.\<close>

lemma work_shrinks:
  assumes "fleet_inv D sound conns good leaky open0 b" and "i < length (crew b)"
    and "thread_step D H (crew b ! i) t"
  shows "conns (acceptor (work_at D i t b)) = conns (acceptor b) \<and>
    set (live_fds (own_calls D) (team conns (work_at D i t b))) \<subseteq> set (live_fds (own_calls D) (team conns b))"
proof -
  obtain evs where d: "deed (conns (acceptor b) ! i) (crew b ! i) t evs" using works_deed[OF assms] .
  note at = client_at[OF assms(1,2)] and new = work_at_sel[OF assms(1,2) d]
  have "live (conns (acceptor b) ! i) (own_calls D t) \<Longrightarrow> live (conns (acceptor b) ! i) (own_calls D (crew b ! i))"
    using live_calls[OF _ at(3)] d by (auto simp: deed_def)
  then show ?thesis using arg_cong[OF at(1), of "live_fds (own_calls D)"] by (auto simp: new)
qed

lemma fleet_inv_step:
  assumes "fleet_inv D sound conns good leaky open0 b" and "fleet_step D b b'"
  shows "fleet_inv D sound conns good leaky open0 b' \<and>
    (fleet_table D conns b' = fleet_table D conns b \<or> table_step (fleet_table D conns b) (fleet_table D conns b'))"
  using assms(2)
proof (cases rule: fleet_step.cases)
  case (accept_client s)
  with fleet_inv_accept[OF assms(1)] show ?thesis by simp
next
  case (leave_loop ok s)
  with fleet_inv_leave[OF assms(1)] show ?thesis by simp
next
  case (client_works i t)
  obtain evs where "deed (conns (acceptor b) ! i) (crew b ! i) t evs"
    using works_deed[OF assms(1) client_works(3,4)] .
  with fleet_inv_deed[OF assms(1) client_works(3)] client_works(1) show ?thesis by blast
qed

end

sublocale fleet \<subseteq> sys: refinement "fleet_step D" "fleet_start D sound conns open0"
    "fleet_inv D sound conns good leaky open0" table_step "fleet_table D conns" for open0
  by unfold_locales (auto dest: fleet_inv_start fleet_inv_step)

context fleet
begin

text \<open>What every reachable state of the system satisfies, and what it is an implementation of.\<close>

lemma reach_fleet:
  assumes "sound s" and "conns s = []" and "clean (calls D s)" and "reach (fleet_step D) (open_shop s) b"
  shows "fleet_inv D sound conns good leaky (open_fds (calls D s)) b"
  using sys.reach_inv[OF assms(4)] assms(1-3) by (auto simp: fleet_start_def)

lemma inv_descriptors:
  assumes "fleet_inv D sound conns good leaky open0 b"
  shows "clean (all_calls D b) \<and> distinct (live_fds (own_calls D) (team conns b)) \<and>
    (\<exists>lost. open_fds (all_calls D b) = open0 \<union> set (live_fds (own_calls D) (team conns b)) \<union> lost \<and>
      lost \<inter> (open0 \<union> set (live_fds (own_calls D) (team conns b))) = {} \<and>
      (serving b \<or> \<not> leaky \<longrightarrow> lost = {}) \<and> (\<exists>fd. lost \<subseteq> {fd}))"
  using assms by (auto simp: fleet_inv_def team_inv_def)

lemma inv_members:
  assumes "fleet_inv D sound conns good leaky open0 b" and "(fd, c) \<in> set (team conns b)"
  shows "good fd c \<and> 0 \<le> fd \<and> (live fd (own_calls D c) \<longrightarrow>
    conn_stream fd (all_calls D b) = received fd (own_calls D c) \<and> fd \<in> open_fds (all_calls D b) \<and> fd \<notin> open0)"
  using assms live_fds_mem[OF assms(2), of "own_calls D"]
  by (auto simp: fleet_inv_def team_inv_def crew_inv_def)

lemma descriptors:
  assumes "sound s" and "conns s = []" and "clean (calls D s)" and "reach (fleet_step D) (open_shop s) b"
  shows "clean (all_calls D b) \<and> distinct (live_fds (own_calls D) (team conns b)) \<and>
    (\<exists>lost. open_fds (all_calls D b) = open_fds (calls D s) \<union> set (live_fds (own_calls D) (team conns b)) \<union> lost \<and>
      (serving b \<or> \<not> leaky \<longrightarrow> lost = {}) \<and> (\<exists>fd. lost \<subseteq> {fd}))"
  using inv_descriptors[OF reach_fleet[OF assms]] by blast

lemma members:
  assumes "sound s" and "conns s = []" and "clean (calls D s)" and "reach (fleet_step D) (open_shop s) b"
    and "(fd, c) \<in> set (team conns b)"
  shows "good fd c \<and> (live fd (own_calls D c) \<longrightarrow>
    conn_stream fd (all_calls D b) = received fd (own_calls D c) \<and> fd \<in> open_fds (all_calls D b))"
  using inv_members[OF reach_fleet[OF assms(1-4)] assms(5)] by blast

lemma implements_table:
  assumes "sound s" and "conns s = []" and "clean (calls D s)" and "reach (fleet_step D) (open_shop s) b"
  shows "reach table_step Map.empty (fleet_table D conns b)"
proof -
  have "fleet_start D sound conns (open_fds (calls D s)) (open_shop s)" using assms(1-3) by (auto simp: fleet_start_def)
  from sys.refine_reach[OF assms(4) this] show ?thesis
    using assms(2) by (simp add: fleet_table_def team_def table_of_def)
qed

end

end
