(* ===== verification/Context.thy ===== *)
theory Context
  imports Posix
begin

text \<open>
  The data the components share: \<open>protocol::PROTOCOL_TYPE\<close> (protocol.h), the socket contexts
  (SocketContext.h) and the program's store.  A \<open>std::shared_ptr\<close> to a context is an index into
  the store, because the server's queue and the worker threads hold pointers to the same context.
\<close>

subsection \<open>Protocols\<close>

datatype PROTOCOL_TYPE = PT_TCP_IPV4 | PT_TCP_IPV6 | PT_UDP_IPV4 | PT_UDP_IPV6

fun protocol_toString :: "PROTOCOL_TYPE \<Rightarrow> string" where
  "protocol_toString PT_TCP_IPV4 = ''tcp''"
| "protocol_toString PT_TCP_IPV6 = ''tcp6''"
| "protocol_toString PT_UDP_IPV4 = ''udp''"
| "protocol_toString PT_UDP_IPV6 = ''udp6''"

text \<open>The enumeration is ordered by its values, as the keys of the engine's \<open>std::map\<close> are.\<close>

fun enum_value :: "PROTOCOL_TYPE \<Rightarrow> nat" where
  "enum_value PT_TCP_IPV4 = 0"
| "enum_value PT_TCP_IPV6 = 1"
| "enum_value PT_UDP_IPV4 = 2"
| "enum_value PT_UDP_IPV6 = 3"

lemma enum_value_inject: "enum_value a = enum_value b \<Longrightarrow> a = b"
  by (cases a; cases b) simp_all

instantiation PROTOCOL_TYPE :: linorder
begin

definition less_eq_PROTOCOL_TYPE :: "PROTOCOL_TYPE \<Rightarrow> PROTOCOL_TYPE \<Rightarrow> bool" where
  "less_eq_PROTOCOL_TYPE a b \<longleftrightarrow> enum_value a \<le> enum_value b"

definition less_PROTOCOL_TYPE :: "PROTOCOL_TYPE \<Rightarrow> PROTOCOL_TYPE \<Rightarrow> bool" where
  "less_PROTOCOL_TYPE a b \<longleftrightarrow> enum_value a < enum_value b"

instance
  by standard (auto simp: less_eq_PROTOCOL_TYPE_def less_PROTOCOL_TYPE_def enum_value_inject)

end

subsection \<open>Socket contexts\<close>

text \<open>The dynamic class of a context, with the peer address the derived classes add.\<close>

datatype ctx_class =
    Plain_context
  | IPV4_context "32 word" "16 word"
  | IPV6_context "128 word" "16 word"

record socket_context =
  ctx_class :: ctx_class
  mClientFd :: int
  mClientPort :: int
  mClientAddrStr :: string
  mRequest :: "byte list"
  mResponse :: "byte list"

text \<open>The default constructor leaves the port uninitialised: it is whatever was in memory.\<close>

definition SocketContext_default :: "int \<Rightarrow> socket_context" where
  "SocketContext_default junk_port =
     \<lparr>ctx_class = Plain_context, mClientFd = INVALID_FD, mClientPort = junk_port,
      mClientAddrStr = [], mRequest = [], mResponse = []\<rparr>"

definition SocketContext :: "int \<Rightarrow> int \<Rightarrow> socket_context" where
  "SocketContext fd port =
     \<lparr>ctx_class = Plain_context, mClientFd = fd, mClientPort = port,
      mClientAddrStr = [], mRequest = [], mResponse = []\<rparr>"

definition IPV4SocketContext :: "int \<Rightarrow> int \<Rightarrow> 32 word \<times> 16 word \<Rightarrow> socket_context" where
  "IPV4SocketContext fd port addr =
     (SocketContext fd port)\<lparr>ctx_class := IPV4_context (fst addr) (snd addr)\<rparr>"

definition IPV6SocketContext :: "int \<Rightarrow> int \<Rightarrow> 128 word \<times> 16 word \<Rightarrow> socket_context" where
  "IPV6SocketContext fd port addr =
     (SocketContext fd port)\<lparr>ctx_class := IPV6_context (fst addr) (snd addr)\<rparr>"

definition SocketContext_destroy :: "socket_context \<Rightarrow> history \<Rightarrow> history" where
  "SocketContext_destroy c h = (if mClientFd c \<noteq> INVALID_FD then sys_close (mClientFd c) h else h)"

definition SocketContext_toString :: "socket_context \<Rightarrow> string" where
  "SocketContext_toString c =
     ''client socket context info'' @ '', fd: '' @ show_int (mClientFd c) @
     '', port:'' @ show_int (mClientPort c) @ '', address:'' @ mClientAddrStr c"

text \<open>\<open>std::dynamic_pointer_cast<IPV4SocketContext>\<close>; \<open>None\<close> is the null pointer.\<close>

fun is_ipv4 :: "ctx_class \<Rightarrow> bool" where
  "is_ipv4 (IPV4_context a p) = True"
| "is_ipv4 _ = False"

definition cast_ipv4 :: "socket_context option \<Rightarrow> socket_context option" where
  "cast_ipv4 c = (case c of None \<Rightarrow> None | Some c \<Rightarrow> if is_ipv4 (ctx_class c) then Some c else None)"

subsection \<open>The store\<close>

text \<open>
  \<open>spawned\<close> lists the contexts handed to detached worker threads, in the order of the
  threads' creation.
\<close>

record world =
  hist :: history
  heap :: "socket_context list"
  spawned :: "nat list"

definition empty_world :: world where
  "empty_world = \<lparr>hist = [], heap = [], spawned = []\<rparr>"

definition alloc :: "socket_context \<Rightarrow> world \<Rightarrow> nat \<times> world" where
  "alloc c w = (length (heap w), w\<lparr>heap := heap w @ [c]\<rparr>)"

lemmas ctx_defs = SocketContext_def IPV4SocketContext_def IPV6SocketContext_def

lemma ctx_sel [simp]:
  "mClientFd (IPV4SocketContext fd port addr) = fd"
  "mClientFd (IPV6SocketContext fd port addr') = fd"
  "is_ipv4 (ctx_class (IPV4SocketContext fd port addr))"
  "\<not> is_ipv4 (ctx_class (IPV6SocketContext fd port addr'))"
  by (simp_all add: ctx_defs)

end
