(* ===== verification/Engine.thy ===== *)
theory Engine
  imports Context Interfaces
begin

text \<open>
  \<open>IEngine::restart\<close> (IEngine.cpp) and \<open>ITcpBrokerServerEngine\<close>
  (ITcpBrokerServerEngine.h/.cpp): the state of the engine, its constructors and accessors, the
  creation of the listening socket, and the life cycle.  \<open>run\<close> is a pure virtual function of
  the class, so \<open>start\<close> takes it as an argument.  The \<open>WIN32\<close> branches are left out: the
  model is of the POSIX build.
\<close>

subsection \<open>State and constructors\<close>

record engine =
  mTag :: string
  mProtocolType :: PROTOCOL_TYPE
  mIP :: string
  mPort :: int
  mFd :: int
  mIsRunning :: bool
  mIsDumpRequest :: bool
  mTotalSendBytes :: int
  mTotalRecvBytes :: int
  mConnections :: "32 word"
  mMaxConnections :: "32 word"
  mSocketContextQueue :: "nat list"

text \<open>
  The constructors do not initialise \<open>mMaxConnections\<close>, and the one with only a tag initialises
  nothing but the tag and the (class-typed) queue and address; what memory held is the argument
  \<open>junk\<close>.
\<close>

definition engine_tag :: "string \<Rightarrow> engine \<Rightarrow> engine" where
  "engine_tag tag junk = junk\<lparr>mTag := tag, mIP := [], mSocketContextQueue := []\<rparr>"

definition engine_type :: "string \<Rightarrow> PROTOCOL_TYPE \<Rightarrow> 32 word \<Rightarrow> engine" where
  "engine_type tag t junk =
     \<lparr>mTag = tag, mProtocolType = t, mIP = [], mPort = 0, mFd = INVALID_FD, mIsRunning = False,
      mIsDumpRequest = False, mTotalSendBytes = 0, mTotalRecvBytes = 0, mConnections = 0,
      mMaxConnections = junk, mSocketContextQueue = []\<rparr>"

definition engine_addr :: "string \<Rightarrow> PROTOCOL_TYPE \<Rightarrow> string \<Rightarrow> int \<Rightarrow> 32 word \<Rightarrow> engine" where
  "engine_addr tag t ip port junk =
     \<lparr>mTag = tag, mProtocolType = t, mIP = ip, mPort = port, mFd = INVALID_FD, mIsRunning = False,
      mIsDumpRequest = False, mTotalSendBytes = 0, mTotalRecvBytes = 0, mConnections = 0,
      mMaxConnections = junk, mSocketContextQueue = []\<rparr>"

definition engine_toString :: "engine \<Rightarrow> string" where
  "engine_toString e =
     ''name:'' @ mTag e @ ''; ip:'' @ mIP e @ ''; port:'' @ show_int (mPort e) @
     ''; fd:'' @ show_int (mFd e) @ ''; protocol:'' @ protocol_toString (mProtocolType e)"

subsection \<open>Accessors\<close>

definition isStarted :: "engine \<Rightarrow> bool" where
  "isStarted e = mIsRunning e"

definition enableDumpRequest :: "engine \<Rightarrow> engine" where
  "enableDumpRequest e = e\<lparr>mIsDumpRequest := True\<rparr>"

definition disableDumpRequest :: "engine \<Rightarrow> engine" where
  "disableDumpRequest e = e\<lparr>mIsDumpRequest := False\<rparr>"

definition isDumpRequestEnabled :: "engine \<Rightarrow> bool" where
  "isDumpRequestEnabled e = mIsDumpRequest e"

definition setListeningSocket :: "int \<Rightarrow> engine \<Rightarrow> engine" where
  "setListeningSocket fd e = (if mFd e \<noteq> INVALID_FD then e\<lparr>mFd := fd\<rparr> else e)"

definition getListenSocket :: "engine \<Rightarrow> int" where
  "getListenSocket e = mFd e"

definition setListeningAddress :: "string \<Rightarrow> engine \<Rightarrow> engine" where
  "setListeningAddress ip e = e\<lparr>mIP := ip\<rparr>"

definition getListeningAddress :: "engine \<Rightarrow> string" where
  "getListeningAddress e = mIP e"

definition setListeningPort :: "int \<Rightarrow> engine \<Rightarrow> engine" where
  "setListeningPort port e = e\<lparr>mPort := port\<rparr>"

definition getListeningPort :: "engine \<Rightarrow> int" where
  "getListeningPort e = mPort e"

definition getConnections :: "engine \<Rightarrow> 32 word" where
  "getConnections e = mConnections e"

definition getMaxConnections :: "engine \<Rightarrow> 32 word" where
  "getMaxConnections e = mMaxConnections e"

subsection \<open>The listening socket\<close>

definition BACK_LOG :: int where
  "BACK_LOG = 0xff"

text \<open>\<open>htons(port)\<close> of an \<open>int\<close>: the argument is converted to 16 bits.\<close>

definition net_port :: "int \<Rightarrow> 16 word" where
  "net_port port = htons (word_of_int port)"

definition initIPV4Socket :: "platform \<Rightarrow> engine \<Rightarrow> history \<Rightarrow> bool \<times> engine \<times> history" where
  "initIPV4Socket p e h =
     (let (svr_sock, h) = sys_socket p AF_INET h in
      if svr_sock < 0 then (False, e, h)
      else let (r, h) = sys_setsockopt p svr_sock SO_REUSEADDR h in
      if r < 0 then (False, e, h)
      else let server_addr =
             Sockaddr_in (if mIP e = [] then 0 else inet_addr p (mIP e)) (net_port (mPort e));
           (r, h) = sys_bind p svr_sock server_addr h in
      if r < 0 then (False, e, h)
      else let (r, h) = sys_listen p svr_sock BACK_LOG h in
      if r < 0 then (False, e, h)
      else (True, e\<lparr>mFd := svr_sock\<rparr>, h))"

definition initIPV6Socket :: "platform \<Rightarrow> engine \<Rightarrow> history \<Rightarrow> bool \<times> engine \<times> history" where
  "initIPV6Socket p e h =
     (let (svr_sock, h) = sys_socket p AF_INET6 h in
      if svr_sock < 0 then (False, e, h)
      else let (r, h) = sys_setsockopt p svr_sock SO_REUSEADDR h in
      if r < 0 then (False, e, h)
      else let (r, h) = sys_setsockopt p svr_sock IPV6_V6ONLY h in
      if r < 0 then (False, e, h)
      else (case (if mIP e = [] then Some 0 else inet_pton6 p (mIP e)) of
        None \<Rightarrow> (False, e, h)
      | Some addr \<Rightarrow>
          let (r, h) = sys_bind p svr_sock (Sockaddr_in6 addr (net_port (mPort e))) h in
          if r < 0 then (False, e, h)
          else let (r, h) = sys_listen p svr_sock BACK_LOG h in
          if r < 0 then (False, e, h)
          else (True, e\<lparr>mFd := svr_sock\<rparr>, h)))"

definition init_funs ::
  "platform \<Rightarrow> PROTOCOL_TYPE \<rightharpoonup> (engine \<Rightarrow> history \<Rightarrow> bool \<times> engine \<times> history)" where
  "init_funs p = [PT_TCP_IPV4 \<mapsto> initIPV4Socket p, PT_TCP_IPV6 \<mapsto> initIPV6Socket p]"

definition initListeningSocket :: "platform \<Rightarrow> engine \<Rightarrow> history \<Rightarrow> bool \<times> engine \<times> history" where
  "initListeningSocket p e h =
     (case init_funs p (mProtocolType e) of
        None \<Rightarrow> (False, e, h)
      | Some init_fun \<Rightarrow>
          (case init_fun e h of
             (ok, e', h') \<Rightarrow> if \<not> ok then (False, e', h') else (True, e', h')))"

subsection \<open>Life cycle\<close>

type_synonym server_state = "engine \<times> world"

definition engine_start ::
  "platform \<Rightarrow> (nat \<Rightarrow> server_state \<Rightarrow> (bool \<times> server_state) option) \<Rightarrow> nat \<Rightarrow>
   server_state \<Rightarrow> (bool \<times> server_state) option" where
  "engine_start p run fuel = (\<lambda>(e, w).
     let (ok, e1, h1) =
       (if mFd e = INVALID_FD then initListeningSocket p e (hist w) else (True, e, hist w)) in
     if \<not> ok then Some (False, e1, w\<lparr>hist := h1\<rparr>)
     else (case run fuel (e1, w\<lparr>hist := h1\<rparr>) of
       None \<Rightarrow> None
     | Some (ok, s) \<Rightarrow> if \<not> ok then Some (False, s) else Some (True, s)))"

definition engine_stop :: "server_state \<Rightarrow> server_state" where
  "engine_stop = (\<lambda>(e, w).
     if mFd e \<noteq> INVALID_FD then (e, w\<lparr>hist := sys_close (mFd e) (hist w)\<rparr>) else (e, w))"

text \<open>\<open>IEngine::restart\<close>, over the virtual functions \<open>stop\<close> and \<open>start\<close>.\<close>

definition restart :: "('s \<Rightarrow> 's) \<Rightarrow> ('s \<Rightarrow> (bool \<times> 's) option) \<Rightarrow> 's \<Rightarrow> (bool \<times> 's) option" where
  "restart stop start s =
     (case start (stop s) of
        None \<Rightarrow> None
      | Some (ok, s') \<Rightarrow> if \<not> ok then Some (False, s') else Some (True, s'))"

subsection \<open>The socket functions meet the contract\<close>

text \<open>What an attempt does to the descriptors: the new socket, once created, is never closed.\<close>

lemma initIPV4Socket_cases:
  assumes "initIPV4Socket p e h = (b, e', h')"
  shows "(\<not> b \<and> e' = e \<and> open_fds h' = open_fds h \<union> {fd. fd = c_ret id (k_socket p h AF_INET) \<and> 0 \<le> fd}) \<or>
    (b \<and> e' = e\<lparr>mFd := c_ret id (k_socket p h AF_INET)\<rparr> \<and> listening (mFd e') h' \<and>
      open_fds h' = insert (mFd e') (open_fds h))"
  using assms
  by (auto simp: initIPV4Socket_def sys_simps Let_def BACK_LOG_def listening_def split: if_splits)

lemma initIPV6Socket_cases:
  assumes "initIPV6Socket p e h = (b, e', h')"
  shows "(\<not> b \<and> e' = e \<and> open_fds h' = open_fds h \<union> {fd. fd = c_ret id (k_socket p h AF_INET6) \<and> 0 \<le> fd}) \<or>
    (b \<and> e' = e\<lparr>mFd := c_ret id (k_socket p h AF_INET6)\<rparr> \<and> listening (mFd e') h' \<and>
      open_fds h' = insert (mFd e') (open_fds h))"
  using assms
  by (auto simp: initIPV6Socket_def sys_simps Let_def BACK_LOG_def listening_def
      split: if_splits option.splits)

interpretation init4: listener "initIPV4Socket p" mFd for p
  by unfold_locales (auto dest!: initIPV4Socket_cases)

interpretation init6: listener "initIPV6Socket p" mFd for p
  by unfold_locales (auto dest!: initIPV6Socket_cases)

lemma initListeningSocket_eq:
  "initListeningSocket p e h =
    (case mProtocolType e of
      PT_TCP_IPV4 \<Rightarrow> initIPV4Socket p e h
    | PT_TCP_IPV6 \<Rightarrow> initIPV6Socket p e h
    | _ \<Rightarrow> (False, e, h))"
  by (auto simp: initListeningSocket_def init_funs_def split: PROTOCOL_TYPE.split prod.split)

interpretation init_any: listener "initListeningSocket p" mFd for p
proof
  fix e h e' h'
  assume "initListeningSocket p e h = (False, e', h')"
  then show "e' = e"
    using init4.init_false init6.init_false
    by (auto simp: initListeningSocket_eq split: PROTOCOL_TYPE.splits)
next
  fix e h b e' h'
  assume "initListeningSocket p e h = (b, e', h')"
  then show "open_fds h \<subseteq> open_fds h'"
    using init4.init_adds[of p e h b e' h'] init6.init_adds[of p e h b e' h']
    by (auto simp: initListeningSocket_eq split: PROTOCOL_TYPE.splits)
next
  fix e h e' h'
  assume "initListeningSocket p e h = (True, e', h')"
  then show "listening (mFd e') h'"
    using init4.init_true[of p e h e' h'] init6.init_true[of p e h e' h']
    by (auto simp: initListeningSocket_eq split: PROTOCOL_TYPE.splits)
qed

subsection \<open>Properties of the listening socket\<close>

lemma net_port_value: "uint (ntohs (net_port port)) = port mod 65536"
  by (simp add: net_port_def uint_word_of_int)

text \<open>
  A successful \<open>initIPV4Socket\<close> made exactly the calls \<open>socket\<close>, \<open>setsockopt\<close>,
  \<open>bind\<close> and \<open>listen\<close>, in this order and on the new descriptor, which is the engine's
  listening socket afterwards; the address is the engine's (any address when it is empty) and the
  port the engine's port modulo \<open>2 ^ 16\<close> in network byte order.  Nothing else of the engine
  changes.
\<close>

lemma initIPV4Socket_success:
  assumes "initIPV4Socket p e h = (True, e', h')"
  shows "\<exists>r0 r1 r2 r3 a q. h' = [E_listen (mFd e') 255 r3, E_bind (mFd e') (Sockaddr_in a q) r2,
      E_setsockopt (mFd e') SO_REUSEADDR r1, E_socket AF_INET r0] @ h \<and>
    mFd e' = c_ret id r0 \<and> 0 \<le> mFd e' \<and> e' = e\<lparr>mFd := mFd e'\<rparr> \<and>
    a = (if mIP e = [] then 0 else inet_addr p (mIP e)) \<and> uint (ntohs q) = mPort e mod 65536"
  using assms net_port_value[of "mPort e"]
  by (auto simp: initIPV4Socket_def sys_simps Let_def BACK_LOG_def split: if_splits)

text \<open>
  A successful \<open>initIPV6Socket\<close> also restricted the socket to IPv6 before binding, and
  bound an address that \<open>inet_pton\<close> accepted; an address it rejects makes the function fail
  without binding anything.
\<close>

lemma initIPV6Socket_address:
  assumes "initIPV6Socket p e h = (b, e', h')"
  shows "(b \<longrightarrow> (\<exists>r0 r1 r2 r3 r4 a q.
      h' = [E_listen (mFd e') 255 r4, E_bind (mFd e') (Sockaddr_in6 a q) r3,
        E_setsockopt (mFd e') IPV6_V6ONLY r2, E_setsockopt (mFd e') SO_REUSEADDR r1,
        E_socket AF_INET6 r0] @ h \<and>
      (if mIP e = [] then a = 0 else inet_pton6 p (mIP e) = Some a) \<and>
      uint (ntohs q) = mPort e mod 65536)) \<and>
    (mIP e \<noteq> [] \<and> inet_pton6 p (mIP e) = None \<longrightarrow>
      \<not> b \<and> e' = e \<and> (\<forall>fd a r. E_bind fd a r \<in> set h' \<longrightarrow> E_bind fd a r \<in> set h))"
  using assms net_port_value[of "mPort e"]
  by (auto simp: initIPV6Socket_def sys_simps Let_def BACK_LOG_def split: if_splits option.splits)

text \<open>
  C37: A failing \<open>initIPV4Socket\<close>, \<open>initIPV6Socket\<close> or \<open>initListeningSocket\<close> leaves the
  engine as it was, but a socket it had created stays open although no object knows it any more.
\<close>

theorem init_failure_leaks:
  assumes "mFd e = INVALID_FD"
  shows "(initIPV4Socket p e h = (False, e', h') \<longrightarrow> e' = e \<and>
      (\<forall>fd. k_socket p h AF_INET = Done fd \<and> 0 \<le> fd \<longrightarrow> fd \<in> open_fds h' \<and> mFd e' \<noteq> fd)) \<and>
    (initIPV6Socket p e h = (False, e', h') \<longrightarrow> e' = e \<and>
      (\<forall>fd. k_socket p h AF_INET6 = Done fd \<and> 0 \<le> fd \<longrightarrow> fd \<in> open_fds h' \<and> mFd e' \<noteq> fd)) \<and>
    (initListeningSocket p e h = (False, e', h') \<longrightarrow> e' = e)"
  using assms init_any.init_false[of p e h e' h'] initIPV4Socket_cases[of p e h False e' h']
    initIPV6Socket_cases[of p e h False e' h']
  by (auto simp: INVALID_FD_def)

theorem init_failure_leaks_witness:
  "3 \<in> open_fds [E_bind 3 (Sockaddr_in 0 (net_port 80)) (Fail (EOther 98)),
     E_setsockopt 3 SO_REUSEADDR (Done 0), E_socket AF_INET (Done 3)]"
proof -
  let ?p = "sample_platform\<lparr>k_bind := \<lambda>h fd a. Fail (EOther 98)\<rparr>"
  let ?e = "engine_addr ''t'' PT_TCP_IPV4 [] 80 0"
  have i: "initIPV4Socket ?p ?e [] = (False, ?e, [E_bind 3 (Sockaddr_in 0 (net_port 80)) (Fail (EOther 98)),
     E_setsockopt 3 SO_REUSEADDR (Done 0), E_socket AF_INET (Done 3)])"
    by (simp add: initIPV4Socket_def sys_simps Let_def engine_addr_def)
  have "mFd ?e = INVALID_FD" by (simp add: engine_addr_def)
  from init_failure_leaks[OF this, of ?p "[]" ?e, THEN conjunct1, rule_format, OF i]
  show ?thesis by simp
qed

text \<open>
  \<open>initListeningSocket\<close> returns true exactly when the engine listens afterwards, and for
  the UDP protocols it returns false without calling the system.
\<close>

lemma initListeningSocket_result:
  assumes "mFd e = INVALID_FD" and "initListeningSocket p e h = (b, e', h')"
  shows "(b \<longleftrightarrow> mFd e' \<noteq> INVALID_FD) \<and> (b \<longrightarrow> listening (mFd e') h') \<and>
    (mProtocolType e \<notin> {PT_TCP_IPV4, PT_TCP_IPV6} \<longrightarrow> \<not> b \<and> h' = h)"
  using init_any.init_result[OF assms] init_any.init_true[of p e h e' h'] assms(2)
  by (cases b) (auto simp: initListeningSocket_eq split: PROTOCOL_TYPE.splits)

end
