(* ===== verification/Servers.thy ===== *)
theory Servers
  imports Engine
begin

text \<open>
  The broker servers: \<open>ThreadsTcpBroProcessor::process\<close>, \<open>ThreadsTcpBroServer\<close> and
  \<open>ThreadsTcp6BroServer\<close> with their accept loops (\<open>run\<close>), and the engine's public
  operations on a server.  The result of \<open>forever\<close> is \<open>None\<close> while the loop still waits for
  connections.
\<close>

subsection \<open>The processor\<close>

text \<open>
  \<open>process\<close> starts a detached thread that runs a worker on the context; the thread itself is
  the subject of the theory of the worker.
\<close>

definition ThreadsTcpBroProcessor_process :: "nat \<Rightarrow> world \<Rightarrow> bool \<times> world" where
  "ThreadsTcpBroProcessor_process context w = (True, w\<lparr>spawned := spawned w @ [context]\<rparr>)"

definition ThreadsTcpBroServer_process :: "nat \<Rightarrow> world \<Rightarrow> bool \<times> world" where
  "ThreadsTcpBroServer_process context w = ThreadsTcpBroProcessor_process context w"

definition ThreadsTcp6BroServer_process :: "nat \<Rightarrow> world \<Rightarrow> bool \<times> world" where
  "ThreadsTcp6BroServer_process context w = ThreadsTcpBroProcessor_process context w"

subsection \<open>The accept loops\<close>

definition ThreadsTcpBroServer_body ::
  "platform \<Rightarrow> server_state \<Rightarrow> (bool \<times> server_state) + server_state" where
  [body_defs]: "ThreadsTcpBroServer_body p = (\<lambda>(e, w).
     let (client_socket, cli_addr, h) = sys_accept4 p (mFd e) (hist w);
         w1 = w\<lparr>hist := h\<rparr> in
     if client_socket < 0 then Inl (False, e, w1)
     else
       let sock_context = (IPV4SocketContext client_socket (uint (ntohs (snd cli_addr))) cli_addr)
             \<lparr>mClientAddrStr := inet_ntoa p (fst cli_addr)\<rparr>;
           (ref, w2) = alloc sock_context w1;
           e1 = e\<lparr>mSocketContextQueue := mSocketContextQueue e @ [ref]\<rparr>;
           (ok, w3) = ThreadsTcpBroServer_process ref w2 in
       if \<not> ok then Inr (e1, w3) else Inr (e1, w3))"

definition ThreadsTcpBroServer_run ::
  "platform \<Rightarrow> nat \<Rightarrow> server_state \<Rightarrow> (bool \<times> server_state) option" where
  "ThreadsTcpBroServer_run p = forever (ThreadsTcpBroServer_body p)"

definition ThreadsTcp6BroServer_body ::
  "platform \<Rightarrow> server_state \<Rightarrow> (bool \<times> server_state) + server_state" where
  [body_defs]: "ThreadsTcp6BroServer_body p = (\<lambda>(e, w).
     let (client_socket, cli_addr, h) = sys_accept6 p (mFd e) (hist w);
         w1 = w\<lparr>hist := h\<rparr> in
     if client_socket < 0 then Inl (False, e, w1)
     else
       let sock_context = (IPV6SocketContext client_socket (uint (ntohs (snd cli_addr))) cli_addr)
             \<lparr>mClientAddrStr := inet_ntop6 p (fst cli_addr)\<rparr>;
           (ref, w2) = alloc sock_context w1;
           e1 = e\<lparr>mSocketContextQueue := mSocketContextQueue e @ [ref]\<rparr>;
           (ok, w3) = ThreadsTcp6BroServer_process ref w2 in
       if \<not> ok then Inr (e1, w3) else Inr (e1, w3))"

definition ThreadsTcp6BroServer_run ::
  "platform \<Rightarrow> nat \<Rightarrow> server_state \<Rightarrow> (bool \<times> server_state) option" where
  "ThreadsTcp6BroServer_run p = forever (ThreadsTcp6BroServer_body p)"

subsection \<open>The servers as objects\<close>

text \<open>The port of the constructors is a \<open>uint16_t\<close>, widened to the engine's \<open>int\<close>.\<close>

definition ThreadsTcpBroServer :: "string \<Rightarrow> string \<Rightarrow> 16 word \<Rightarrow> 32 word \<Rightarrow> engine" where
  "ThreadsTcpBroServer tag ip port junk = engine_addr tag PT_TCP_IPV4 ip (uint port) junk"

definition ThreadsTcpBroServer_tag :: "string \<Rightarrow> 32 word \<Rightarrow> engine" where
  "ThreadsTcpBroServer_tag tag junk = engine_type tag PT_TCP_IPV4 junk"

definition ThreadsTcp6BroServer_tag :: "string \<Rightarrow> 32 word \<Rightarrow> engine" where
  "ThreadsTcp6BroServer_tag tag junk = engine_type tag PT_TCP_IPV6 junk"

definition ThreadsTcp6BroServer :: "string \<Rightarrow> string \<Rightarrow> 16 word \<Rightarrow> 32 word \<Rightarrow> engine" where
  "ThreadsTcp6BroServer tag ip port junk = engine_addr tag PT_TCP_IPV6 ip (uint port) junk"

text \<open>A server built from a tag alone is one on any address and port 0.\<close>

lemma server_from_tag:
  "ThreadsTcpBroServer_tag tag junk = ThreadsTcpBroServer tag [] 0 junk"
  "ThreadsTcp6BroServer_tag tag junk = ThreadsTcp6BroServer tag [] 0 junk"
  by (simp_all add: ThreadsTcpBroServer_tag_def ThreadsTcp6BroServer_tag_def ThreadsTcpBroServer_def
      ThreadsTcp6BroServer_def engine_type_def engine_addr_def)

datatype server_kind = Bro4 | Bro6

fun server_run :: "server_kind \<Rightarrow> platform \<Rightarrow> nat \<Rightarrow> server_state \<Rightarrow> (bool \<times> server_state) option" where
  "server_run Bro4 p = ThreadsTcpBroServer_run p"
| "server_run Bro6 p = ThreadsTcp6BroServer_run p"

definition server_start :: "server_kind \<Rightarrow> platform \<Rightarrow> nat \<Rightarrow> server_state \<Rightarrow> (bool \<times> server_state) option" where
  "server_start k p fuel = engine_start p (server_run k p) fuel"

definition server_restart :: "server_kind \<Rightarrow> platform \<Rightarrow> nat \<Rightarrow> server_state \<Rightarrow> (bool \<times> server_state) option" where
  "server_restart k p fuel = restart engine_stop (server_start k p fuel)"

text \<open>The public operations that change the state, and a sequence of them.\<close>

datatype engine_op =
    Op_start nat
  | Op_stop
  | Op_restart nat
  | Op_enableDumpRequest
  | Op_disableDumpRequest
  | Op_setListeningSocket int
  | Op_setListeningAddress string
  | Op_setListeningPort int

fun engine_exec :: "server_kind \<Rightarrow> platform \<Rightarrow> engine_op \<Rightarrow> server_state \<Rightarrow> server_state option" where
  "engine_exec k p (Op_start n) s = map_option snd (server_start k p n s)"
| "engine_exec k p Op_stop s = Some (engine_stop s)"
| "engine_exec k p (Op_restart n) s = map_option snd (server_restart k p n s)"
| "engine_exec k p Op_enableDumpRequest (e, w) = Some (enableDumpRequest e, w)"
| "engine_exec k p Op_disableDumpRequest (e, w) = Some (disableDumpRequest e, w)"
| "engine_exec k p (Op_setListeningSocket fd) (e, w) = Some (setListeningSocket fd e, w)"
| "engine_exec k p (Op_setListeningAddress ip) (e, w) = Some (setListeningAddress ip e, w)"
| "engine_exec k p (Op_setListeningPort port) (e, w) = Some (setListeningPort port e, w)"

fun engine_execs :: "server_kind \<Rightarrow> platform \<Rightarrow> engine_op list \<Rightarrow> server_state \<Rightarrow> server_state option" where
  "engine_execs k p [] s = Some s"
| "engine_execs k p (x # xs) s =
     (case engine_exec k p x s of None \<Rightarrow> None | Some s' \<Rightarrow> engine_execs k p xs s')"

subsection \<open>The accept loops meet the contract\<close>

text \<open>
  The store is well formed for a server when the queue and the thread list name the same
  allocated contexts.
\<close>

definition server_wf :: "server_state \<Rightarrow> bool" where
  "server_wf = (\<lambda>(e, w). mSocketContextQueue e = spawned w \<and> (\<forall>r\<in>set (spawned w). r < length (heap w)))"

definition server_clients :: "server_state \<Rightarrow> int list" where
  "server_clients = (\<lambda>(e, w). map (\<lambda>r. mClientFd (heap w ! r)) (spawned w))"

definition server_hist :: "server_state \<Rightarrow> history" where
  "server_hist = (\<lambda>(e, w). hist w)"

definition server_fd :: "server_state \<Rightarrow> int" where
  "server_fd = (\<lambda>(e, w). mFd e)"

lemmas server_views = server_wf_def server_clients_def server_hist_def server_fd_def

lemmas process_defs = ThreadsTcpBroServer_process_def ThreadsTcp6BroServer_process_def
  ThreadsTcpBroProcessor_process_def alloc_def

lemma clients_alloc:
  "\<forall>r\<in>set rs. r < length hp \<Longrightarrow>
   map (\<lambda>r. mClientFd ((hp @ [c]) ! r)) rs = map (\<lambda>r. mClientFd (hp ! r)) rs"
  by (auto simp: nth_append)

interpretation bro4: accept_server_exact "ThreadsTcpBroServer_body p" server_wf server_hist server_clients server_fd
  for p
proof
  fix s b s'
  assume *: "server_wf s" "ThreadsTcpBroServer_body p s = Inl (b, s')"
  then show "\<not> b \<and> server_wf s' \<and> server_clients s' = server_clients s \<and> server_fd s' = server_fd s"
    by (cases s) (auto simp: body_defs sys_simps process_defs server_views Let_def split: if_splits)
  from * show "accepted (server_hist s') = accepted (server_hist s)"
    by (cases s) (auto simp: body_defs sys_simps process_defs server_views Let_def split: if_splits)
next
  fix s s'
  assume "server_wf s" "ThreadsTcpBroServer_body p s = Inr s'"
  then show "server_wf s' \<and> server_fd s' = server_fd s \<and>
      (\<exists>fd\<ge>0. server_clients s' = server_clients s @ [fd] \<and>
        accepted (server_hist s') = accepted (server_hist s) @ [fd])"
    by (cases s) (auto simp: body_defs sys_simps process_defs server_views Let_def clients_alloc
        less_SucI split: if_splits)
qed

interpretation bro6: accept_server_exact "ThreadsTcp6BroServer_body p" server_wf server_hist server_clients server_fd
  for p
proof
  fix s b s'
  assume *: "server_wf s" "ThreadsTcp6BroServer_body p s = Inl (b, s')"
  then show "\<not> b \<and> server_wf s' \<and> server_clients s' = server_clients s \<and> server_fd s' = server_fd s"
    by (cases s) (auto simp: body_defs sys_simps process_defs server_views Let_def split: if_splits)
  from * show "accepted (server_hist s') = accepted (server_hist s)"
    by (cases s) (auto simp: body_defs sys_simps process_defs server_views Let_def split: if_splits)
next
  fix s s'
  assume "server_wf s" "ThreadsTcp6BroServer_body p s = Inr s'"
  then show "server_wf s' \<and> server_fd s' = server_fd s \<and>
      (\<exists>fd\<ge>0. server_clients s' = server_clients s @ [fd] \<and>
        accepted (server_hist s') = accepted (server_hist s) @ [fd])"
    by (cases s) (auto simp: body_defs sys_simps process_defs server_views Let_def clients_alloc
        less_SucI split: if_splits)
qed

subsection \<open>Facts for both servers\<close>

fun server_body :: "server_kind \<Rightarrow> platform \<Rightarrow> server_state \<Rightarrow> (bool \<times> server_state) + server_state" where
  "server_body Bro4 p = ThreadsTcpBroServer_body p"
| "server_body Bro6 p = ThreadsTcp6BroServer_body p"

lemma server_run_forever: "server_run k p = forever (server_body k p)"
  by (cases k) (simp_all add: ThreadsTcpBroServer_run_def ThreadsTcp6BroServer_run_def)

text \<open>\<open>accept\<close> on the server's socket fails at this point of the execution.\<close>

fun accept_fails :: "server_kind \<Rightarrow> platform \<Rightarrow> server_state \<Rightarrow> bool" where
  "accept_fails Bro4 p (e, w) = (c_ret id (conn_of (k_accept4 p (hist w) (mFd e))) < 0)"
| "accept_fails Bro6 p (e, w) = (c_ret id (conn_of (k_accept6 p (hist w) (mFd e))) < 0)"

lemma server_body_exit_iff: "(\<exists>r. server_body k p s = Inl r) \<longleftrightarrow> accept_fails k p s"
  by (cases k; cases s) (auto simp: body_defs sys_simps Let_def process_defs)

lemma server_body_exit:
  assumes "server_body k p (e, w) = Inl r"
  shows "\<exists>a. c_ret id a < 0 \<and> r = (False, e, w\<lparr>hist := E_accept (mFd e) a # hist w\<rparr>)"
  using assms by (cases k) (auto simp: body_defs sys_simps Let_def process_defs split: if_splits)

interpretation server: accept_server_exact "server_body k p" server_wf server_hist server_clients server_fd
  for k p
  by (cases k; simp; unfold_locales)

lemmas server_run_false = server.run_false[folded server_run_forever]
lemmas server_run_exact = server.run_exact[folded server_run_forever]
lemmas server_run_wf = server.run_wf[folded server_run_forever]

lemma engine_start_running:
  "mFd e \<noteq> INVALID_FD \<Longrightarrow> engine_start p run n (e, w) = run n (e, w)"
  by (auto simp: engine_start_def split: option.splits prod.splits)

text \<open>\<open>start\<close> on an engine without a socket: first the socket, then, if that worked, the loop.\<close>

lemma engine_start_fresh:
  assumes "mFd e = INVALID_FD" and "initListeningSocket p e (hist w) = (ok, e1, h1)"
  shows "engine_start p run n (e, w) =
    (if ok then run n (e1, w\<lparr>hist := h1\<rparr>) else Some (False, e, w\<lparr>hist := h1\<rparr>))"
  using assms init_any.init_false[of p e "hist w" e1 h1]
  by (auto simp: engine_start_def split: option.splits prod.splits)

lemma engine_start_cases:
  assumes "engine_start p run n (e, w) = Some (b, s')"
  obtains (init) e1 h1 where "initListeningSocket p e (hist w) = (False, e1, h1)" "e1 = e"
      "b = False" "s' = (e, w\<lparr>hist := h1\<rparr>)"
  | (ran) e1 h1 where "run n (e1, w\<lparr>hist := h1\<rparr>) = Some (b, s')"
      "e1 = e\<lparr>mFd := mFd e1\<rparr>"
proof (cases "mFd e = INVALID_FD")
  case False
  with assms ran[of e "hist w"] show ?thesis by (simp add: engine_start_running)
next
  case True
  obtain ok e1 h1 where i: "initListeningSocket p e (hist w) = (ok, e1, h1)" by (metis surj_pair)
  show ?thesis
  proof (cases ok)
    case False
    with i init_any.init_false[of p e "hist w" e1 h1] assms engine_start_fresh[OF True i] init
    show ?thesis by auto
  next
    case ok: True
    have "e1 = e\<lparr>mFd := mFd e1\<rparr>"
      using i ok initIPV4Socket_cases[of p e "hist w" True e1 h1] initIPV6Socket_cases[of p e "hist w" True e1 h1]
      by (auto simp: initListeningSocket_eq split: PROTOCOL_TYPE.splits)
    with ran assms engine_start_fresh[OF True i] ok show ?thesis by auto
  qed
qed

lemma server_start_wf:
  assumes "server_start k p n s = Some (b, s')" and "server_wf s"
  shows "server_wf s' \<and> \<not> b"
proof -
  obtain e w where s: "s = (e, w)" by (cases s)
  from assms(1)[unfolded server_start_def s] show ?thesis
  proof (cases rule: engine_start_cases)
    case (init e1 h1)
    with assms(2) s show ?thesis by (simp add: server_wf_def)
  next
    case (ran e1 h1)
    moreover from this assms(2) s have "server_wf (e1, w\<lparr>hist := h1\<rparr>)"
      by (cases e; cases e1) (simp add: server_wf_def)
    ultimately show ?thesis using server_run_wf server_run_false by blast
  qed
qed

text \<open>The fields that the life cycle never writes.\<close>

definition same_config :: "engine \<Rightarrow> engine \<Rightarrow> bool" where
  "same_config e e' \<longleftrightarrow> mTag e' = mTag e \<and> mProtocolType e' = mProtocolType e \<and> mIP e' = mIP e \<and>
     mPort e' = mPort e \<and> mIsRunning e' = mIsRunning e \<and> mIsDumpRequest e' = mIsDumpRequest e \<and>
     mTotalSendBytes e' = mTotalSendBytes e \<and> mTotalRecvBytes e' = mTotalRecvBytes e \<and>
     mConnections e' = mConnections e \<and> mMaxConnections e' = mMaxConnections e"

lemma server_run_config:
  assumes "server_run k p n (e, w) = Some (b, e', w')"
  shows "same_config e e'"
proof -
  have "same_config e (fst (snd r))" if "forever (server_body k p) n (e, w) = Some r" for r
    using that
  proof (rule forever_rule[where I = "\<lambda>s. same_config e (fst s)"])
    fix s s'
    assume "same_config e (fst s)" "server_body k p s = Inr s'"
    then show "same_config e (fst s')"
      by (cases s; cases k)
        (auto simp: body_defs sys_simps process_defs same_config_def Let_def split: if_splits)
  next
    fix s r
    assume "same_config e (fst s)" "server_body k p s = Inl r"
    then show "same_config e (fst (snd r))" using server_body_exit[of k p "fst s" "snd s" r] by auto
  qed (simp add: same_config_def)
  from this[of "(b, e', w')"] assms show ?thesis by (simp add: server_run_forever)
qed

lemma server_start_config:
  assumes "server_start k p n (e, w) = Some (b, e', w')"
  shows "same_config e e'"
  using assms[unfolded server_start_def]
proof (cases rule: engine_start_cases)
  case (init e1 h1)
  then show ?thesis by (simp add: same_config_def)
next
  case (ran e1 h1)
  from ran(2) obtain fd where "e1 = e\<lparr>mFd := fd\<rparr>" by blast
  then have "same_config e e1" by (simp add: same_config_def)
  then show ?thesis using server_run_config[OF ran(1)] by (simp add: same_config_def)
qed

text \<open>The contexts a server hands out: of its own class, on a live descriptor, still empty.\<close>

definition client_context :: "server_kind \<Rightarrow> socket_context \<Rightarrow> bool" where
  "client_context k c \<longleftrightarrow> (is_ipv4 (ctx_class c) \<longleftrightarrow> k = Bro4) \<and> 0 \<le> mClientFd c \<and>
     mRequest c = [] \<and> mResponse c = []"

definition client_contexts :: "server_kind \<Rightarrow> server_state \<Rightarrow> bool" where
  "client_contexts k = (\<lambda>(e, w). server_wf (e, w) \<and> (\<forall>r\<in>set (spawned w). client_context k (heap w ! r)))"

lemma client_contexts_turn:
  "client_contexts k s \<Longrightarrow> server_body k p s = Inr s' \<Longrightarrow> client_contexts k s'"
  by (cases s; cases k)
    (auto simp: client_contexts_def client_context_def server_wf_def body_defs sys_simps process_defs Let_def
      nth_append ctx_defs less_SucI split: if_splits)

lemma client_contexts_run:
  assumes "server_run k p n s = Some (b, s')" and "client_contexts k s"
  shows "client_contexts k s'"
proof -
  have "client_contexts k (snd (b, s'))"
    using assms(1)[unfolded server_run_forever] assms(2)
  proof (rule forever_rule)
    fix s r
    assume *: "client_contexts k s" "server_body k p s = Inl r"
    obtain e w where s: "s = (e, w)" by (cases s)
    obtain h where "r = (False, e, w\<lparr>hist := h\<rparr>)" using server_body_exit[of k p e w r] *(2) s by blast
    with *(1) s show "client_contexts k (snd r)" by (simp add: client_contexts_def server_wf_def)
  qed (rule client_contexts_turn)
  then show ?thesis by simp
qed

lemma client_contexts_init: "mSocketContextQueue e = [] \<Longrightarrow> spawned w = [] \<Longrightarrow> client_contexts k (e, w)"
  by (simp add: client_contexts_def server_wf_def)

subsection \<open>Properties of the servers\<close>

text \<open>
  \<open>start\<close> of either server never returns true: \<open>run\<close> leaves its loop only through a
  failing \<open>accept\<close>.
\<close>

lemma server_start_never_true:
  assumes "server_wf s" and "server_start k p n s = Some (b, s')"
  shows "\<not> b"
  using server_start_wf[OF assms(2,1)] by simp

text \<open>A server of the sample system, started on an empty store.\<close>

definition sample_server :: engine where
  "sample_server = ThreadsTcpBroServer ''echo'' ''127.0.0.1'' 9001 0"

lemma sample_server_sel [simp]:
  "mFd sample_server = INVALID_FD" "mProtocolType sample_server = PT_TCP_IPV4"
  "mIP sample_server = ''127.0.0.1''" "mSocketContextQueue sample_server = []"
  "mPort sample_server = 9001"
  by (simp_all add: sample_server_def ThreadsTcpBroServer_def engine_addr_def)

lemma sample_server_init:
  "initListeningSocket sample_platform sample_server [] =
    (True, sample_server\<lparr>mFd := 3\<rparr>,
      [E_listen 3 255 (Done 0), E_bind 3 (Sockaddr_in 0x0100007F (net_port 9001)) (Done 0),
       E_setsockopt 3 SO_REUSEADDR (Done 0), E_socket AF_INET (Done 3)])"
  by (simp add: initListeningSocket_eq initIPV4Socket_def sys_simps Let_def BACK_LOG_def)

text \<open>
  When \<open>run\<close> returns, the connections accepted meanwhile are exactly the ones whose contexts
  were queued and handed to worker threads, in the order of their arrival, each once.
\<close>

lemma server_run_serves_all:
  assumes "server_wf (e, w)" and "server_run k p n (e, w) = Some (b, e', w')"
  shows "\<exists>fds. accepted (hist w') = accepted (hist w) @ fds \<and>
    map (\<lambda>r. mClientFd (heap w' ! r)) (spawned w') = map (\<lambda>r. mClientFd (heap w ! r)) (spawned w) @ fds \<and>
    mSocketContextQueue e' = spawned w' \<and> mFd e' = mFd e"
  using server_run_exact[OF assms(2,1)] server_run_wf[OF assms(2,1)] by (auto simp: server_views)

text \<open>A system on which two clients connect before \<open>accept\<close> fails.\<close>

definition two_clients :: platform where
  "two_clients = sample_platform\<lparr>k_accept4 := \<lambda>h fd.
     if length (accepted h) < 2 then Done (4 + int (length (accepted h)), 0x0100007F, htons 5000)
     else Fail (EOther 24)\<rparr>"

text \<open>
  \<open>run\<close> returns if and only if some \<open>accept\<close> fails: after \<open>j\<close> accepted clients, in turn
  \<open>j + 1\<close>.
\<close>

lemma server_run_returns_iff:
  "(\<exists>r. server_run k p n s = Some r) \<longleftrightarrow>
    (\<exists>j < n. \<exists>t. turns (server_body k p) j s = Some t \<and> accept_fails k p t)"
  unfolding server_run_forever forever_iff server_body_exit_iff[symmetric] by blast

text \<open>
  C36: \<open>restart\<close> of a server that listens never brings it back: \<open>stop\<close> closes the
  descriptor but keeps its number, so \<open>start\<close> skips the creation of a socket and the first
  \<open>accept\<close> fails on the closed one.  The server is left with the dead number.
\<close>

theorem server_restart_dead:
  assumes "accept_ebadf p" and "mFd e \<noteq> INVALID_FD"
  shows "\<exists>er. server_restart k p (Suc n) (e, w) =
      Some (False, e, w\<lparr>hist := E_accept (mFd e) (Fail er) # E_close (mFd e) # hist w\<rparr>)"
proof -
  let ?w = "w\<lparr>hist := E_close (mFd e) # hist w\<rparr>"
  have stop: "engine_stop (e, w) = (e, ?w)" using assms(2) by (simp add: engine_stop_def sys_simps)
  have "mFd e \<notin> open_fds (hist ?w)" by simp
  then obtain e4 e6 where "k_accept4 p (hist ?w) (mFd e) = Fail e4" "k_accept6 p (hist ?w) (mFd e) = Fail e6"
    using assms(1) unfolding accept_ebadf_def by metis
  then have "\<exists>er. server_run k p (Suc n) (e, ?w) = Some (False, e, ?w\<lparr>hist := E_accept (mFd e) (Fail er) # hist ?w\<rparr>)"
    by (cases k) (auto simp: ThreadsTcpBroServer_run_def ThreadsTcp6BroServer_run_def body_defs sys_simps Let_def)
  then show ?thesis
    using assms(2) by (auto simp: server_restart_def restart_def server_start_def stop engine_start_running)
qed

theorem server_restart_dead_witness:
  "\<exists>er. server_restart Bro4 sample_platform (Suc 0) (sample_server\<lparr>mFd := 3\<rparr>, empty_world) =
      Some (False, sample_server\<lparr>mFd := 3\<rparr>,
        empty_world\<lparr>hist := E_accept 3 (Fail er) # E_close 3 # hist empty_world\<rparr>)"
  using server_restart_dead[of sample_platform "sample_server\<lparr>mFd := 3\<rparr>" Bro4 0 empty_world]
  by (simp add: sample_platform_laws INVALID_FD_def)

text \<open>
  \<open>stop\<close> is not idempotent: called twice on a listening engine it closes the same number
  twice, and the engine still claims to own it.
\<close>

lemma engine_stop_twice:
  assumes "mFd e \<noteq> INVALID_FD"
  shows "\<exists>w'. engine_stop (engine_stop (e, w)) = (e, w') \<and>
    closes_of (mFd e) (hist w') = closes_of (mFd e) (hist w) + 2 \<and> mFd e \<notin> open_fds (hist w')"
  using assms by (simp add: engine_stop_def sys_simps)

text \<open>
  \<open>start\<close> on an engine without a socket either fails to create one, and then leaves the
  engine as it was and accepts nothing, or runs the accept loop on a socket that is open and in
  the listening state.
\<close>

lemma server_start_listens:
  assumes "mFd e = INVALID_FD" and "server_start k p n (e, w) = Some (b, e', w')"
  shows "(\<exists>h1. initListeningSocket p e (hist w) = (False, e, h1) \<and> e' = e \<and> w' = w\<lparr>hist := h1\<rparr>) \<or>
    (\<exists>e1 h1. initListeningSocket p e (hist w) = (True, e1, h1) \<and> listening (mFd e1) h1 \<and>
      server_run k p n (e1, w\<lparr>hist := h1\<rparr>) = Some (b, e', w'))"
proof -
  obtain ok e1 h1 where i: "initListeningSocket p e (hist w) = (ok, e1, h1)" by (metis surj_pair)
  show ?thesis
    using assms engine_start_fresh[OF assms(1) i, of "server_run k p" n] i
      init_any.init_false[of p e "hist w" e1 h1] init_any.init_true[of p e "hist w" e1 h1]
    by (cases ok) (auto simp: server_start_def)
qed

subsection \<open>Sequences of public operations\<close>

lemma init_accepted:
  "initListeningSocket p e h = (b, e', h') \<Longrightarrow> accepted h' = accepted h"
  by (auto simp: initListeningSocket_eq initIPV4Socket_def initIPV6Socket_def sys_simps Let_def
      split: PROTOCOL_TYPE.splits if_splits option.splits)

text \<open>The part of the state that every public operation only extends by accepted clients.\<close>

definition serves_more :: "server_state \<Rightarrow> server_state \<Rightarrow> bool" where
  "serves_more s s' \<longleftrightarrow> server_wf s' \<and> (\<exists>fds. server_clients s' = server_clients s @ fds \<and>
     accepted (server_hist s') = accepted (server_hist s) @ fds)"

lemma serves_more_trans: "serves_more s t \<Longrightarrow> serves_more t u \<Longrightarrow> serves_more s u"
  by (auto simp: serves_more_def)

lemma server_start_serves:
  assumes "server_start k p n (e, w) = Some (b, s')" and "server_wf (e, w)"
  shows "serves_more (e, w) s'"
proof -
  have init: "accepted h1 = accepted (hist w)"
    if "initListeningSocket p e (hist w) = (ok, e1, h1)" for ok e1 h1
    using init_accepted[OF that] .
  show ?thesis
  proof (cases "mFd e = INVALID_FD")
    case False
    then have "server_run k p n (e, w) = Some (b, s')"
      using assms(1) by (simp add: server_start_def engine_start_running)
    with server_run_exact[OF _ assms(2)] server_run_wf[OF _ assms(2)] show ?thesis
      unfolding serves_more_def by blast
  next
    case True
    obtain ok e1 h1 where i: "initListeningSocket p e (hist w) = (ok, e1, h1)" by (metis surj_pair)
    show ?thesis
    proof (cases ok)
      case False
      with assms engine_start_fresh[OF True i, of "server_run k p" n] init[OF i]
      show ?thesis by (auto simp: server_start_def serves_more_def server_views)
    next
      case ok: True
      let ?s1 = "(e1, w\<lparr>hist := h1\<rparr>)"
      have run: "server_run k p n ?s1 = Some (b, s')"
        using assms(1) ok by (simp add: server_start_def engine_start_fresh[OF True i])
      have "mSocketContextQueue e1 = mSocketContextQueue e"
        using i ok initIPV4Socket_cases[of p e "hist w" True e1 h1] initIPV6Socket_cases[of p e "hist w" True e1 h1]
        by (auto simp: initListeningSocket_eq split: PROTOCOL_TYPE.splits)
      then have "serves_more (e, w) ?s1" using assms(2) init[OF i] by (simp add: serves_more_def server_views)
      moreover have "serves_more ?s1 s'"
        using server_run_exact[OF run] server_run_wf[OF run] \<open>serves_more (e, w) ?s1\<close>
        unfolding serves_more_def by blast
      ultimately show ?thesis by (rule serves_more_trans)
    qed
  qed
qed

lemma engine_stop_serves: "server_wf s \<Longrightarrow> serves_more s (engine_stop s)"
  by (cases s) (auto simp: engine_stop_def serves_more_def server_views sys_simps)

lemmas setter_defs = enableDumpRequest_def disableDumpRequest_def setListeningSocket_def
  setListeningAddress_def setListeningPort_def

lemma restart_SomeE:
  assumes "restart stop start s = Some (b, s')"
  shows "\<exists>b'. start (stop s) = Some (b', s')"
  using assms by (auto simp: restart_def split: option.splits prod.splits if_splits)

lemma engine_exec_serves:
  assumes "engine_exec k p x s = Some s'" and "server_wf s"
  shows "serves_more s s'"
proof (cases x)
  case (Op_start n)
  with assms show ?thesis by (cases s) (auto intro: server_start_serves)
next
  case Op_stop
  then show ?thesis using assms engine_stop_serves[of s] by auto
next
  case (Op_restart n)
  with assms(1) obtain b where "server_start k p n (engine_stop s) = Some (b, s')"
    by (auto simp: server_restart_def dest: restart_SomeE)
  moreover have stop: "serves_more s (engine_stop s)" using assms(2) by (rule engine_stop_serves)
  moreover from stop have "server_wf (engine_stop s)" by (simp add: serves_more_def)
  ultimately have "serves_more (engine_stop s) s'"
    using server_start_serves[of k p n "fst (engine_stop s)" "snd (engine_stop s)" b s'] by simp
  with stop show ?thesis by (rule serves_more_trans)
qed (use assms in \<open>cases s; auto simp: serves_more_def server_views setter_defs split: if_splits\<close>)+

lemma engine_execs_serves:
  "engine_execs k p xs s = Some s' \<Longrightarrow> server_wf s \<Longrightarrow> serves_more s s'"
proof (induction xs arbitrary: s)
  case Nil
  then show ?case by (simp add: serves_more_def)
next
  case (Cons x xs)
  then obtain s1 where s1: "engine_exec k p x s = Some s1" "engine_execs k p xs s1 = Some s'"
    by (auto split: option.splits)
  with engine_exec_serves[OF s1(1) Cons.prems(2)] Cons.IH[of s1] show ?case
    using serves_more_trans serves_more_def by blast
qed

text \<open>The counters and flags that no operation of the class ever writes.\<close>

definition same_status :: "engine \<Rightarrow> engine \<Rightarrow> bool" where
  "same_status e e' \<longleftrightarrow> isStarted e' = isStarted e \<and> getConnections e' = getConnections e \<and>
     getMaxConnections e' = getMaxConnections e \<and> mTotalSendBytes e' = mTotalSendBytes e \<and>
     mTotalRecvBytes e' = mTotalRecvBytes e \<and> mTag e' = mTag e \<and> mProtocolType e' = mProtocolType e"

lemmas status_defs = same_status_def isStarted_def getConnections_def getMaxConnections_def

lemma start_status: "server_start k p n (e, w) = Some (b, e', w') \<Longrightarrow> same_status e e'"
  using server_start_config[of k p n e w b e' w'] by (simp add: same_config_def status_defs)

lemma engine_exec_status: "engine_exec k p x (e, w) = Some (e', w') \<Longrightarrow> same_status e e'"
proof (cases x)
  case (Op_restart n)
  moreover have "fst (engine_stop (e, w)) = e" by (simp add: engine_stop_def)
  moreover assume "engine_exec k p x (e, w) = Some (e', w')"
  ultimately show ?thesis
    by (cases "engine_stop (e, w)") (auto simp: server_restart_def dest!: restart_SomeE intro: start_status)
qed (auto simp: status_defs setter_defs engine_stop_def split: if_splits dest!: start_status)

lemma engine_execs_status: "engine_execs k p xs (e, w) = Some (e', w') \<Longrightarrow> same_status e e'"
proof (induction xs arbitrary: e w)
  case Nil
  then show ?case by (simp add: status_defs)
next
  case (Cons x xs)
  then obtain e1 w1 where s1: "engine_exec k p x (e, w) = Some (e1, w1)"
    "engine_execs k p xs (e1, w1) = Some (e', w')" by (auto split: option.splits)
  with engine_exec_status[OF s1(1)] Cons.IH[OF s1(2)] show ?case by (simp add: same_status_def)
qed

text \<open>
  C17: Whatever public operations are called on a server, its queue names exactly the contexts
  handed to worker threads, and these are exactly the connections accepted so far: no connection
  is lost or served twice, and none is ever removed from the queue.
\<close>

theorem server_operations_serve_all:
  assumes "server_wf (e, w)" and "engine_execs k p ops (e, w) = Some (e', w')"
  shows "mSocketContextQueue e' = spawned w' \<and>
    (\<exists>fds. accepted (hist w') = accepted (hist w) @ fds \<and>
      map (\<lambda>r. mClientFd (heap w' ! r)) (mSocketContextQueue e') =
        map (\<lambda>r. mClientFd (heap w ! r)) (mSocketContextQueue e) @ fds)"
  using engine_execs_serves[OF assms(2,1)] assms(1) by (auto simp: serves_more_def server_views)

lemma two_clients_ops:
  "\<exists>e' w'. engine_execs Bro4 two_clients [Op_setListeningPort 80, Op_start 3, Op_stop]
      (sample_server\<lparr>mFd := 3\<rparr>, empty_world) = Some (e', w') \<and> accepted (hist w') = [4, 5]"
proof -
  let ?e = "setListeningPort 80 (sample_server\<lparr>mFd := 3\<rparr>)"
  have "mFd ?e \<noteq> INVALID_FD" by (simp add: setListeningPort_def INVALID_FD_def)
  then show ?thesis
    by (simp add: server_start_def engine_start_running)
      (simp add: numeral_3_eq_3 ThreadsTcpBroServer_run_def body_defs sys_simps Let_def process_defs
        two_clients_def empty_world_def setListeningPort_def engine_stop_def INVALID_FD_def)
qed

theorem server_operations_serve_all_witness:
  "\<exists>e' w'. engine_execs Bro4 two_clients [Op_setListeningPort 80, Op_start 3, Op_stop]
      (sample_server\<lparr>mFd := 3\<rparr>, empty_world) = Some (e', w') \<and>
    map (\<lambda>r. mClientFd (heap w' ! r)) (mSocketContextQueue e') = [4, 5]"
proof -
  let ?s = "(sample_server\<lparr>mFd := 3\<rparr>, empty_world)"
  obtain e' w' where r: "engine_execs Bro4 two_clients [Op_setListeningPort 80, Op_start 3, Op_stop] ?s = Some (e', w')"
    and a: "accepted (hist w') = [4, 5]" using two_clients_ops by blast
  have "server_wf ?s" by (simp add: server_wf_def empty_world_def)
  from server_operations_serve_all[OF this r] obtain fds where "accepted (hist w') = accepted (hist empty_world) @ fds"
    "map (\<lambda>r. mClientFd (heap w' ! r)) (mSocketContextQueue e') =
      map (\<lambda>r. mClientFd (heap empty_world ! r)) (mSocketContextQueue (sample_server\<lparr>mFd := 3\<rparr>)) @ fds" by blast
  with a have "map (\<lambda>r. mClientFd (heap w' ! r)) (mSocketContextQueue e') = [4, 5]"
    by (simp add: empty_world_def)
  with r show ?thesis by (intro exI conjI)
qed

text \<open>
  The status the engine reports is that of a fresh engine for ever: after any sequence of
  public operations \<open>isStarted\<close> is still false, \<open>getConnections\<close> still \<open>0\<close>, and
  \<open>getMaxConnections\<close> still whatever memory held when the engine was built.
\<close>

lemma server_status_never_changes:
  assumes "engine_execs k p ops (engine_addr tag t ip port junk, w) = Some (e', w')"
  shows "\<not> isStarted e' \<and> getConnections e' = 0 \<and> getMaxConnections e' = junk"
  using engine_execs_status[OF assms] by (simp add: status_defs engine_addr_def)

lemma client_contexts_frame:
  "client_contexts k (e, w) \<Longrightarrow> mSocketContextQueue e' = mSocketContextQueue e \<Longrightarrow>
   client_contexts k (e', w\<lparr>hist := h\<rparr>)"
  by (simp add: client_contexts_def server_wf_def)

lemma client_contexts_restart:
  assumes "server_start k p n (e, w) = Some (b, s')" and "client_contexts k (e, w)"
  shows "client_contexts k s'"
  using assms(1)[unfolded server_start_def]
proof (cases rule: engine_start_cases)
  case (init e1 h1)
  with assms(2) show ?thesis using client_contexts_frame by auto
next
  case (ran e1 h1)
  from ran(2) obtain fd where "e1 = e\<lparr>mFd := fd\<rparr>" by blast
  with assms(2) have "client_contexts k (e1, w\<lparr>hist := h1\<rparr>)" by (simp add: client_contexts_frame)
  with ran(1) show ?thesis by (rule client_contexts_run)
qed

lemma engine_exec_contexts:
  assumes "engine_exec k p x s = Some s'" and "client_contexts k s"
  shows "client_contexts k s'"
proof -
  obtain e w where s: "s = (e, w)" by (cases s)
  have stop: "client_contexts k (engine_stop (e, w))"
    using assms(2) client_contexts_frame[of k e w e] by (simp add: s engine_stop_def)
  show ?thesis
  proof (cases x)
    case (Op_start n)
    with assms s show ?thesis by (auto intro: client_contexts_restart)
  next
    case Op_stop
    with assms s stop show ?thesis by simp
  next
    case (Op_restart n)
    obtain e1 w1 where st: "engine_stop (e, w) = (e1, w1)" by (cases "engine_stop (e, w)")
    from Op_restart assms(1) obtain b where "server_start k p n (engine_stop (e, w)) = Some (b, s')"
      by (auto simp: server_restart_def s dest: restart_SomeE)
    with stop show ?thesis unfolding st by (rule client_contexts_restart[rotated])
  qed (use assms s in \<open>auto simp: setter_defs client_contexts_def server_wf_def split: if_splits\<close>)
qed

lemma engine_execs_contexts:
  "engine_execs k p xs s = Some s' \<Longrightarrow> client_contexts k s \<Longrightarrow> client_contexts k s'"
proof (induction xs arbitrary: s)
  case (Cons x xs)
  then obtain s1 where s1: "engine_exec k p x s = Some s1" "engine_execs k p xs s1 = Some s'"
    by (auto split: option.splits)
  with engine_exec_contexts[OF s1(1) Cons.prems(2)] Cons.IH[of s1] show ?case by blast
qed simp

text \<open>
  C35: The queue of a server is well typed: after any sequence of public operations on a new server
  every entry names an allocated context, of class \<open>IPV4SocketContext\<close> exactly when the server is
  \<open>ThreadsTcpBroServer\<close>, with a descriptor \<open>accept\<close> returned and an empty request and response.
\<close>

theorem server_queue_typed:
  assumes "engine_execs k p ops (engine_addr tag t ip port junk, empty_world) = Some (e', w')"
    and "r \<in> set (mSocketContextQueue e')"
  shows "r < length (heap w') \<and> (is_ipv4 (ctx_class (heap w' ! r)) \<longleftrightarrow> k = Bro4) \<and>
    0 \<le> mClientFd (heap w' ! r) \<and> mRequest (heap w' ! r) = [] \<and> mResponse (heap w' ! r) = []"
proof -
  have "client_contexts k (engine_addr tag t ip port junk, empty_world)"
    by (rule client_contexts_init) (simp_all add: engine_addr_def empty_world_def)
  from engine_execs_contexts[OF assms(1) this] assms(2) show ?thesis
    by (auto simp: client_contexts_def client_context_def server_wf_def)
qed

lemma typed_run:
  "\<exists>e' w'. engine_execs Bro4 two_clients [Op_start 3] (engine_addr ''e'' PT_TCP_IPV4 ''127.0.0.1'' 80 0, empty_world) = Some (e', w') \<and>
    mSocketContextQueue e' = [0, 1]"
proof -
  let ?e = "engine_addr ''e'' PT_TCP_IPV4 ''127.0.0.1'' 80 0"
  have "\<exists>h. initListeningSocket two_clients ?e [] = (True, ?e\<lparr>mFd := 3\<rparr>, h) \<and> accepted h = []"
    by (simp add: initListeningSocket_eq initIPV4Socket_def sys_simps Let_def BACK_LOG_def engine_addr_def two_clients_def)
  then obtain h where h: "initListeningSocket two_clients ?e [] = (True, ?e\<lparr>mFd := 3\<rparr>, h)" "accepted h = []" by blast
  have "mFd ?e = INVALID_FD" by (simp add: engine_addr_def)
  with h show ?thesis
    by (simp add: server_start_def engine_start_fresh empty_world_def)
      (simp add: numeral_3_eq_3 ThreadsTcpBroServer_run_def body_defs sys_simps Let_def process_defs
        two_clients_def engine_addr_def)
qed

theorem server_queue_typed_witness:
  "\<exists>e' w'. engine_execs Bro4 two_clients [Op_start 3] (engine_addr ''e'' PT_TCP_IPV4 ''127.0.0.1'' 80 0, empty_world) = Some (e', w') \<and>
    is_ipv4 (ctx_class (heap w' ! 1))"
proof -
  obtain e' w' where r: "engine_execs Bro4 two_clients [Op_start 3] (engine_addr ''e'' PT_TCP_IPV4 ''127.0.0.1'' 80 0, empty_world) = Some (e', w')"
    and q: "mSocketContextQueue e' = [0, 1]" using typed_run by blast
  have "1 \<in> set (mSocketContextQueue e')" by (simp add: q)
  from server_queue_typed[OF r this] r show ?thesis by auto
qed

end
