(* ===== verification/Worker.thy ===== *)
theory Worker
  imports Context IOHelper
begin

text \<open>
  \<open>ThreadsTcpBroWorker\<close> (ThreadsTcpBroWorker.h/.cpp): the thread that runs \<open>doWork\<close>, the
  receive thread (\<open>handleReadEvent\<close>) and the send thread (\<open>handleWriteEvent\<close>) of one client,
  as an interleaving of their steps.  Program counters name the points between two accesses to
  shared state; a critical section under one mutex that the other threads enter only under the same
  mutex is one step.  The close-and-invalidate section of the context is two steps, because
  \<open>mClientFd\<close> is also read without the lock.  A wait on a \<open>std::condition_variable\<close> ends by
  a notification that found the thread waiting, or spuriously; \<open>boost\<close>'s interruption is a flag
  that only \<open>interruption_point\<close> looks at.
\<close>

subsection \<open>State\<close>

datatype main_pc =
  M_Recv | M_RecvAssign | M_Send | M_SendAssign | M_JoinRecv | M_JoinSend | M_Done

datatype recv_pc =
    R_Unborn | R_Start | R_Top | R_Gate | R_Wait | R_Recv | R_Append "byte list"
  | R_ExitClose | R_ExitClear | R_ExitEnable | R_ExitInterrupt | R_ExitNotify | R_Done

datatype send_pc =
    W_Unborn | W_Start | W_Top | W_Gate | W_Wait | W_Copy | W_Send "byte list"
  | W_Sending int "byte list" size_t
  | W_ExitClose | W_ExitClear | W_ExitEnable | W_ExitInterrupt | W_ExitNotify | W_Done | W_Undefined

datatype io_thread = Recv_thread | Send_thread

text \<open>
  \<open>recv_alive\<close> and \<open>send_alive\<close> say that \<open>mRecvThread\<close> and \<open>mSendThread\<close> have been
  assigned; before that, \<open>interrupt\<close> has nothing to interrupt.
\<close>

record worker =
  whist :: history
  mContext :: "socket_context option"
  mIsReadEnabled :: bool
  mIsWriteEnabled :: bool
  recv_alive :: bool
  send_alive :: bool
  recv_intr :: bool
  send_intr :: bool
  read_note :: bool
  write_note :: bool
  ctx_mutex :: "io_thread option"
  main :: main_pc
  rpc :: recv_pc
  wpc :: send_pc

definition ThreadsTcpBroWorker :: "socket_context option \<Rightarrow> history \<Rightarrow> worker" where
  "ThreadsTcpBroWorker context h =
     \<lparr>whist = h, mContext = context, mIsReadEnabled = True, mIsWriteEnabled = False,
      recv_alive = False, send_alive = False, recv_intr = False, send_intr = False,
      read_note = False, write_note = False, ctx_mutex = None,
      main = M_Recv, rpc = R_Unborn, wpc = W_Unborn\<rparr>"

text \<open>The constructor without a context.\<close>

definition ThreadsTcpBroWorker_default :: "history \<Rightarrow> worker" where
  "ThreadsTcpBroWorker_default h = ThreadsTcpBroWorker None h"

definition enableReadEvent :: "worker \<Rightarrow> worker" where
  "enableReadEvent s = s\<lparr>mIsReadEnabled := True\<rparr>"

definition enableWriteEvent :: "worker \<Rightarrow> worker" where
  "enableWriteEvent s = s\<lparr>mIsWriteEnabled := True\<rparr>"

definition disbaleReadEvent :: "worker \<Rightarrow> worker" where
  "disbaleReadEvent s = s\<lparr>mIsReadEnabled := False\<rparr>"

definition disbaleWriteEvent :: "worker \<Rightarrow> worker" where
  "disbaleWriteEvent s = s\<lparr>mIsWriteEnabled := False\<rparr>"

lemmas event_defs = enableReadEvent_def enableWriteEvent_def disbaleReadEvent_def disbaleWriteEvent_def

definition MAX_MESSAGEBUFF_LEN :: nat where
  "MAX_MESSAGEBUFF_LEN = 1024 * 1024 * 1"

text \<open>Where the receive loop goes after \<open>recv\<close> returned \<open>r\<close> with the bytes \<open>bs\<close>.\<close>

definition after_recv :: "int \<Rightarrow> byte list \<Rightarrow> history \<Rightarrow> recv_pc" where
  "after_recv r bs h =
     (let rb = to_c_int r in
      if rb < 0 then (if would_block h then R_Top else R_ExitClose)
      else if rb = 0 then R_ExitClose
      else R_Append (take (nat rb) bs))"

subsection \<open>Steps\<close>

text \<open>\<open>doWork\<close>.\<close>

inductive main_step :: "worker \<Rightarrow> worker \<Rightarrow> bool" where
  main_spawn_recv: "main s = M_Recv \<Longrightarrow> main_step s (s\<lparr>main := M_RecvAssign, rpc := R_Start\<rparr>)"
| main_assign_recv: "main s = M_RecvAssign \<Longrightarrow> main_step s (s\<lparr>main := M_Send, recv_alive := True\<rparr>)"
| main_spawn_send: "main s = M_Send \<Longrightarrow> main_step s (s\<lparr>main := M_SendAssign, wpc := W_Start\<rparr>)"
| main_assign_send: "main s = M_SendAssign \<Longrightarrow> main_step s (s\<lparr>main := M_JoinRecv, send_alive := True\<rparr>)"
| main_join_recv: "main s = M_JoinRecv \<Longrightarrow> rpc s = R_Done \<Longrightarrow> main_step s (s\<lparr>main := M_JoinSend\<rparr>)"
| main_join_send: "main s = M_JoinSend \<Longrightarrow> wpc s = W_Done \<Longrightarrow> main_step s (s\<lparr>main := M_Done\<rparr>)"

text \<open>\<open>handleReadEvent\<close>.\<close>

inductive recv_step :: "platform \<Rightarrow> worker \<Rightarrow> worker \<Rightarrow> bool" for p :: platform where
  recv_cast_null: "rpc s = R_Start \<Longrightarrow> cast_ipv4 (mContext s) = None \<Longrightarrow>
     recv_step p s (s\<lparr>rpc := R_Done\<rparr>)"
| recv_cast: "rpc s = R_Start \<Longrightarrow> cast_ipv4 (mContext s) = Some c \<Longrightarrow>
     recv_step p s (s\<lparr>rpc := R_Top\<rparr>)"
| recv_interrupted: "rpc s = R_Top \<Longrightarrow> recv_intr s \<Longrightarrow>
     recv_step p s (s\<lparr>rpc := R_ExitClose, recv_intr := False\<rparr>)"
| recv_continue: "rpc s = R_Top \<Longrightarrow> \<not> recv_intr s \<Longrightarrow> recv_step p s (s\<lparr>rpc := R_Gate\<rparr>)"
| recv_enabled: "rpc s = R_Gate \<Longrightarrow> mIsReadEnabled s \<Longrightarrow> recv_step p s (s\<lparr>rpc := R_Recv\<rparr>)"
| recv_blocked: "rpc s = R_Gate \<Longrightarrow> \<not> mIsReadEnabled s \<Longrightarrow>
     recv_step p s (s\<lparr>rpc := R_Wait, read_note := False\<rparr>)"
| recv_woken: "rpc s = R_Wait \<Longrightarrow> read_note s \<Longrightarrow>
     recv_step p s (s\<lparr>rpc := R_Gate, read_note := False\<rparr>)"
| recv_call: "rpc s = R_Recv \<Longrightarrow> mContext s = Some c \<Longrightarrow>
     sys_recv p (mClientFd c) MAX_MESSAGEBUFF_LEN 0 (whist s) = (r, bs, h) \<Longrightarrow>
     recv_step p s (s\<lparr>rpc := after_recv r bs h, whist := h\<rparr>)"
| recv_append: "rpc s = R_Append bs \<Longrightarrow> mContext s = Some c \<Longrightarrow>
     recv_step p s (s\<lparr>rpc := R_Top, mContext := Some (c\<lparr>mRequest := mRequest c @ bs\<rparr>)\<rparr>)"
| recv_close: "rpc s = R_ExitClose \<Longrightarrow> mContext s = Some c \<Longrightarrow> ctx_mutex s = None \<Longrightarrow>
     recv_step p s (s\<lparr>rpc := R_ExitClear, ctx_mutex := Some Recv_thread,
       whist := sys_close (mClientFd c) (whist s)\<rparr>)"
| recv_clear: "rpc s = R_ExitClear \<Longrightarrow> mContext s = Some c \<Longrightarrow>
     recv_step p s (s\<lparr>rpc := R_ExitEnable, ctx_mutex := None,
       mContext := Some (c\<lparr>mClientFd := INVALID_FD\<rparr>)\<rparr>)"
| recv_enable_write: "rpc s = R_ExitEnable \<Longrightarrow>
     recv_step p s ((enableWriteEvent s)\<lparr>rpc := R_ExitInterrupt\<rparr>)"
| recv_interrupt_send: "rpc s = R_ExitInterrupt \<Longrightarrow>
     recv_step p s (s\<lparr>rpc := R_ExitNotify, send_intr := send_intr s \<or> send_alive s\<rparr>)"
| recv_notify_send: "rpc s = R_ExitNotify \<Longrightarrow>
     recv_step p s (s\<lparr>rpc := R_Done, write_note := write_note s \<or> wpc s = W_Wait\<rparr>)"

text \<open>
  \<open>handleWriteEvent\<close>.  It calls \<open>IOHelper::send_bytes\<close> with the descriptor the context has at
  that moment and with its copy of the response; each turn of the loop of \<open>send_bytes\<close> is a step.
\<close>

inductive send_step :: "platform \<Rightarrow> worker \<Rightarrow> worker \<Rightarrow> bool" for p :: platform where
  send_cast_null: "wpc s = W_Start \<Longrightarrow> cast_ipv4 (mContext s) = None \<Longrightarrow>
     send_step p s (s\<lparr>wpc := W_Done\<rparr>)"
| send_cast: "wpc s = W_Start \<Longrightarrow> cast_ipv4 (mContext s) = Some c \<Longrightarrow>
     send_step p s (s\<lparr>wpc := W_Top\<rparr>)"
| send_interrupted: "wpc s = W_Top \<Longrightarrow> send_intr s \<Longrightarrow>
     send_step p s (s\<lparr>wpc := W_ExitClose, send_intr := False\<rparr>)"
| send_continue: "wpc s = W_Top \<Longrightarrow> \<not> send_intr s \<Longrightarrow> send_step p s (s\<lparr>wpc := W_Gate\<rparr>)"
| send_enabled: "wpc s = W_Gate \<Longrightarrow> mIsWriteEnabled s \<Longrightarrow>
     send_step p s (s\<lparr>wpc := W_Copy, mIsWriteEnabled := False\<rparr>)"
| send_blocked: "wpc s = W_Gate \<Longrightarrow> \<not> mIsWriteEnabled s \<Longrightarrow>
     send_step p s (s\<lparr>wpc := W_Wait, write_note := False\<rparr>)"
| send_woken: "wpc s = W_Wait \<Longrightarrow> write_note s \<Longrightarrow>
     send_step p s (s\<lparr>wpc := W_Gate, write_note := False\<rparr>)"
| send_copy: "wpc s = W_Copy \<Longrightarrow> mContext s = Some c \<Longrightarrow>
     send_step p s (s\<lparr>wpc := W_Send (mResponse c)\<rparr>)"
| send_call: "wpc s = W_Send response \<Longrightarrow> mContext s = Some c \<Longrightarrow>
     send_step p s (s\<lparr>wpc := W_Sending (mClientFd c) response 0\<rparr>)"
| send_loop: "wpc s = W_Sending fd response tot \<Longrightarrow>
     send_body p fd response (to_size_t (int (length response))) 0 (tot, whist s) = Inr (tot', h) \<Longrightarrow>
     send_step p s (s\<lparr>whist := h, wpc := W_Sending fd response tot'\<rparr>)"
| send_return: "wpc s = W_Sending fd response tot \<Longrightarrow>
     send_body p fd response (to_size_t (int (length response))) 0 (tot, whist s) = Inl (res, h) \<Longrightarrow>
     send_step p s (s\<lparr>whist := h,
       wpc := (case res of Inl u \<Rightarrow> W_Undefined | Inr ok \<Rightarrow> if \<not> ok then W_ExitClose else W_Top)\<rparr>)"
| send_close: "wpc s = W_ExitClose \<Longrightarrow> mContext s = Some c \<Longrightarrow> ctx_mutex s = None \<Longrightarrow>
     send_step p s (s\<lparr>wpc := W_ExitClear, ctx_mutex := Some Send_thread,
       whist := sys_close (mClientFd c) (whist s)\<rparr>)"
| send_clear: "wpc s = W_ExitClear \<Longrightarrow> mContext s = Some c \<Longrightarrow>
     send_step p s (s\<lparr>wpc := W_ExitEnable, ctx_mutex := None,
       mContext := Some (c\<lparr>mClientFd := INVALID_FD\<rparr>)\<rparr>)"
| send_enable_read: "wpc s = W_ExitEnable \<Longrightarrow>
     send_step p s ((enableReadEvent s)\<lparr>wpc := W_ExitInterrupt\<rparr>)"
| send_interrupt_recv: "wpc s = W_ExitInterrupt \<Longrightarrow>
     send_step p s (s\<lparr>wpc := W_ExitNotify, recv_intr := recv_intr s \<or> recv_alive s\<rparr>)"
| send_notify_recv: "wpc s = W_ExitNotify \<Longrightarrow>
     send_step p s (s\<lparr>wpc := W_Done, read_note := read_note s \<or> rpc s = R_Wait\<rparr>)"

text \<open>The worker alone, and the wake-ups a condition variable may produce by itself.\<close>

inductive worker_step :: "platform \<Rightarrow> worker \<Rightarrow> worker \<Rightarrow> bool" for p :: platform where
  by_main: "main_step s t \<Longrightarrow> worker_step p s t"
| by_recv: "recv_step p s t \<Longrightarrow> worker_step p s t"
| by_send: "send_step p s t \<Longrightarrow> worker_step p s t"

inductive closed_step :: "platform \<Rightarrow> worker \<Rightarrow> worker \<Rightarrow> bool" for p :: platform where
  by_worker: "worker_step p s t \<Longrightarrow> closed_step p s t"
| spurious_recv: "rpc s = R_Wait \<Longrightarrow> closed_step p s (s\<lparr>rpc := R_Gate\<rparr>)"
| spurious_send: "wpc s = W_Wait \<Longrightarrow> closed_step p s (s\<lparr>wpc := W_Gate\<rparr>)"

text \<open>
  The application around it: the public functions of the worker, and a response stored in the
  shared context.  Nothing in the repository does either.
\<close>

inductive app_step :: "worker \<Rightarrow> worker \<Rightarrow> bool" where
  app_enable_read: "app_step s (enableReadEvent s)"
| app_enable_write: "app_step s (enableWriteEvent s)"
| app_disable_read: "app_step s (disbaleReadEvent s)"
| app_disable_write: "app_step s (disbaleWriteEvent s)"
| app_response: "mContext s = Some c \<Longrightarrow> app_step s (s\<lparr>mContext := Some (c\<lparr>mResponse := bs\<rparr>)\<rparr>)"

inductive open_step :: "platform \<Rightarrow> worker \<Rightarrow> worker \<Rightarrow> bool" for p :: platform where
  by_closed: "closed_step p s t \<Longrightarrow> open_step p s t"
| by_app: "app_step s t \<Longrightarrow> open_step p s t"

subsection \<open>The descriptor is closed once\<close>

text \<open>Which threads exist at which point of \<open>doWork\<close>.\<close>

definition main_inv :: "worker \<Rightarrow> bool" where
  "main_inv s \<longleftrightarrow>
     (rpc s = R_Unborn \<longleftrightarrow> main s = M_Recv) \<and>
     (wpc s = W_Unborn \<longleftrightarrow> main s = M_Recv \<or> main s = M_RecvAssign \<or> main s = M_Send) \<and>
     (main s = M_JoinSend \<or> main s = M_Done \<longrightarrow> rpc s = R_Done) \<and>
     (main s = M_Done \<longrightarrow> wpc s = W_Done)"

lemma main_inv_worker: "worker_step p s t \<Longrightarrow> main_inv s \<Longrightarrow> main_inv t"
proof (induction rule: worker_step.induct)
  case (by_main s t)
  then show ?case by (cases rule: main_step.cases) (auto simp: main_inv_def)
next
  case (by_recv s t)
  then show ?case
    by (cases rule: recv_step.cases) (auto simp: main_inv_def event_defs after_recv_def Let_def)
next
  case (by_send s t)
  then show ?case
    by (cases rule: send_step.cases) (auto simp: main_inv_def event_defs split: sum.splits)
qed

lemma main_inv_init: "main_inv (ThreadsTcpBroWorker c h)"
  by (simp add: main_inv_def ThreadsTcpBroWorker_def)

text \<open>
  The invariant of the context: the lock is held exactly in the section between the close and
  the invalidation, and the original descriptor has been closed once when it is no longer in the
  context or the section is entered.
\<close>

datatype phase = Before | Closing | After

fun recv_phase :: "recv_pc \<Rightarrow> phase" where
  "recv_phase R_ExitClear = Closing"
| "recv_phase R_ExitEnable = After"
| "recv_phase R_ExitInterrupt = After"
| "recv_phase R_ExitNotify = After"
| "recv_phase R_Done = After"
| "recv_phase _ = Before"

fun send_phase :: "send_pc \<Rightarrow> phase" where
  "send_phase W_ExitClear = Closing"
| "send_phase W_ExitEnable = After"
| "send_phase W_ExitInterrupt = After"
| "send_phase W_ExitNotify = After"
| "send_phase W_Done = After"
| "send_phase _ = Before"

text \<open>The same for the values themselves: the descriptor, the closes of \<open>fd0\<close>, lock and phases.\<close>

definition fd_ok :: "int \<Rightarrow> nat \<Rightarrow> int \<Rightarrow> nat \<Rightarrow> io_thread option \<Rightarrow> phase \<Rightarrow> phase \<Rightarrow> bool" where
  "fd_ok fd0 n0 fd n l r w \<longleftrightarrow>
     (fd = fd0 \<or> fd = INVALID_FD) \<and>
     n = n0 + (if fd = INVALID_FD \<or> l \<noteq> None then 1 else 0) \<and>
     (r = Closing \<longleftrightarrow> l = Some Recv_thread) \<and> (w = Closing \<longleftrightarrow> l = Some Send_thread) \<and>
     (r = After \<or> w = After \<longleftrightarrow> fd = INVALID_FD)"

lemma fd_ok_close:
  assumes "fd_ok fd0 n0 fd n None r w" and "fd0 \<noteq> INVALID_FD"
  shows "r = Before \<Longrightarrow> fd_ok fd0 n0 fd (if fd = fd0 then Suc n else n) (Some Recv_thread) Closing w"
    and "w = Before \<Longrightarrow> fd_ok fd0 n0 fd (if fd = fd0 then Suc n else n) (Some Send_thread) r Closing"
  using assms by (auto simp: fd_ok_def)

lemma fd_ok_clear:
  "fd_ok fd0 n0 fd n l Closing w \<Longrightarrow> fd_ok fd0 n0 INVALID_FD n None After w"
  "fd_ok fd0 n0 fd n l r Closing \<Longrightarrow> fd_ok fd0 n0 INVALID_FD n None r After"
  by (auto simp: fd_ok_def split: if_splits)

lemma send_body_closes:
  "send_body p fd bs n fl (tot, h) = Inr (tot', h') \<Longrightarrow> closes_of fd' h' = closes_of fd' h"
  "send_body p fd bs n fl (tot, h) = Inl (res, h') \<Longrightarrow> closes_of fd' h' = closes_of fd' h"
  by (auto simp: body_defs sys_simps Let_def split: if_splits sum.splits)

lemma send_body_empty [simp]:
  "send_body p fd [] 0 fl (tot, h) = Inl (Inr True, h)" "send_body p fd [] (to_size_t 0) fl (tot, h) = Inl (Inr True, h)"
  by (simp_all add: body_defs to_size_t_def)

definition fd_inv :: "int \<Rightarrow> history \<Rightarrow> worker \<Rightarrow> bool" where
  "fd_inv fd0 h0 s \<longleftrightarrow> (\<exists>c. mContext s = Some c \<and> is_ipv4 (ctx_class c) \<and>
     fd_ok fd0 (closes_of fd0 h0) (mClientFd c) (closes_of fd0 (whist s)) (ctx_mutex s)
       (recv_phase (rpc s)) (send_phase (wpc s)))"

lemma cast_ipv4_Some: "is_ipv4 (ctx_class c) \<Longrightarrow> cast_ipv4 (Some c) = Some c"
  by (simp add: cast_ipv4_def)

lemma fd_inv_main: "main_step s t \<Longrightarrow> main_inv s \<Longrightarrow> fd_inv fd0 h0 s \<Longrightarrow> fd_inv fd0 h0 t"
  by (cases rule: main_step.cases) (auto simp: fd_inv_def main_inv_def)

lemma recv_phase_after_recv: "recv_phase (after_recv r bs h) = Before"
  by (simp add: after_recv_def Let_def)

lemma fd_inv_recv:
  assumes "recv_step p s t" and "fd_inv fd0 h0 s" and "fd0 \<noteq> INVALID_FD"
  shows "fd_inv fd0 h0 t"
proof -
  obtain c where c: "mContext s = Some c" "is_ipv4 (ctx_class c)"
    "fd_ok fd0 (closes_of fd0 h0) (mClientFd c) (closes_of fd0 (whist s)) (ctx_mutex s)
       (recv_phase (rpc s)) (send_phase (wpc s))" using assms(2) by (auto simp: fd_inv_def)
  from assms(1) show ?thesis
  proof (cases rule: recv_step.cases)
    case (recv_close c')
    with c fd_ok_close(1)[of fd0 _ _ _ "Before", OF _ assms(3) refl] show ?thesis
      by (simp add: fd_inv_def sys_simps)
  qed (use c in \<open>auto simp: fd_inv_def event_defs sys_simps Let_def cast_ipv4_Some recv_phase_after_recv
        dest: fd_ok_clear(1)\<close>)
qed

lemma fd_inv_send:
  assumes "send_step p s t" and "fd_inv fd0 h0 s" and "fd0 \<noteq> INVALID_FD"
  shows "fd_inv fd0 h0 t"
proof -
  obtain c where c: "mContext s = Some c" "is_ipv4 (ctx_class c)"
    "fd_ok fd0 (closes_of fd0 h0) (mClientFd c) (closes_of fd0 (whist s)) (ctx_mutex s)
       (recv_phase (rpc s)) (send_phase (wpc s))" using assms(2) by (auto simp: fd_inv_def)
  note call = send_body_closes(1)[of p _ _ _ _ _ "whist s"] send_body_closes(2)[of p _ _ _ _ _ "whist s"]
  from assms(1) show ?thesis
  proof (cases rule: send_step.cases)
    case (send_close c')
    with c fd_ok_close(2)[of fd0 _ _ _ _ "Before", OF _ assms(3) refl] show ?thesis
      by (simp add: fd_inv_def sys_simps)
  qed (use c in \<open>auto simp: fd_inv_def event_defs sys_simps Let_def cast_ipv4_Some call
        split: sum.splits dest: fd_ok_clear(2)\<close>)
qed

definition client_inv :: "int \<Rightarrow> history \<Rightarrow> worker \<Rightarrow> bool" where
  "client_inv fd0 h0 s \<longleftrightarrow> fd0 \<noteq> INVALID_FD \<and> main_inv s \<and> fd_inv fd0 h0 s"

lemma client_inv_worker: "worker_step p s t \<Longrightarrow> client_inv fd0 h0 s \<Longrightarrow> client_inv fd0 h0 t"
  using main_inv_worker[of p s t] fd_inv_main fd_inv_recv fd_inv_send
  by (auto simp: client_inv_def elim!: worker_step.cases)

lemma client_inv_closed: "closed_step p s t \<Longrightarrow> client_inv fd0 h0 s \<Longrightarrow> client_inv fd0 h0 t"
proof (induction rule: closed_step.induct)
  case (by_worker s t)
  then show ?case by (rule client_inv_worker)
qed (auto simp: client_inv_def main_inv_def fd_inv_def)

lemma client_inv_app: "app_step s t \<Longrightarrow> client_inv fd0 h0 s \<Longrightarrow> client_inv fd0 h0 t"
  by (induction rule: app_step.induct) (auto simp: client_inv_def main_inv_def fd_inv_def event_defs)

lemma client_inv_open: "open_step p s t \<Longrightarrow> client_inv fd0 h0 s \<Longrightarrow> client_inv fd0 h0 t"
  by (induction rule: open_step.induct) (auto intro: client_inv_closed client_inv_app)

text \<open>A fresh worker on an IPv4 context with a live descriptor.\<close>

definition fresh_worker :: "int \<Rightarrow> history \<Rightarrow> worker \<Rightarrow> bool" where
  "fresh_worker fd0 h0 s \<longleftrightarrow> fd0 \<noteq> INVALID_FD \<and>
     (\<exists>c. is_ipv4 (ctx_class c) \<and> mClientFd c = fd0 \<and> s = ThreadsTcpBroWorker (Some c) h0)"

lemma client_inv_init: "fresh_worker fd0 h0 s \<Longrightarrow> client_inv fd0 h0 s"
  by (auto simp: fresh_worker_def client_inv_def main_inv_init)
    (simp add: fd_inv_def fd_ok_def ThreadsTcpBroWorker_def)

interpretation client: invariant_system "open_step p" "fresh_worker fd0 h0" "client_inv fd0 h0" for p fd0 h0
  by unfold_locales (auto intro: client_inv_init client_inv_open)

text \<open>What the invariant says of the closes of the client's descriptor.\<close>

lemma client_inv_closes:
  assumes "client_inv fd0 h0 s"
  shows "closes_of fd0 (whist s) \<le> closes_of fd0 h0 + 1 \<and>
    (main s = M_Done \<longrightarrow> closes_of fd0 (whist s) = closes_of fd0 h0 + 1)"
proof -
  from assms obtain c :: socket_context where ok: "fd_ok fd0 (closes_of fd0 h0) (mClientFd c)
      (closes_of fd0 (whist s)) (ctx_mutex s) (recv_phase (rpc s)) (send_phase (wpc s))"
    by (auto simp: client_inv_def fd_inv_def)
  have "recv_phase (rpc s) = After" if "main s = M_Done"
    using assms that by (simp add: client_inv_def main_inv_def)
  with ok show ?thesis by (auto simp: fd_ok_def)
qed

subsection \<open>The worker without an application\<close>

text \<open>
  How far the receive thread has got in waking the send thread: it has enabled the write event
  (\<open>1\<close>), requested the interruption (\<open>2\<close>), sent the notification (\<open>3\<close>); and how far it must
  have got for the send thread to be where it is.
\<close>

fun recv_stage :: "recv_pc \<Rightarrow> nat" where
  "recv_stage R_ExitInterrupt = 1"
| "recv_stage R_ExitNotify = 2"
| "recv_stage R_Done = 3"
| "recv_stage _ = 0"

fun send_needs :: "send_pc \<Rightarrow> nat" where
  "send_needs W_Copy = 1"
| "send_needs (W_Send bs) = 1"
| "send_needs (W_Sending fd bs tot) = 1"
| "send_needs W_ExitClose = 2"
| "send_needs W_ExitClear = 2"
| "send_needs W_ExitEnable = 2"
| "send_needs W_ExitInterrupt = 2"
| "send_needs W_ExitNotify = 2"
| "send_needs W_Done = 2"
| "send_needs _ = 0"

fun idle_response :: "send_pc \<Rightarrow> bool" where
  "idle_response (W_Send bs) = (bs = [])"
| "idle_response (W_Sending fd bs tot) = (bs = [])"
| "idle_response W_Undefined = False"
| "idle_response _ = True"

fun pending :: "recv_pc \<Rightarrow> byte list" where
  "pending (R_Append bs) = bs"
| "pending _ = []"

definition quiet_inv :: "int \<Rightarrow> history \<Rightarrow> worker \<Rightarrow> bool" where
  "quiet_inv fd0 h0 s \<longleftrightarrow>
     (\<exists>c. mContext s = Some c \<and> mResponse c = [] \<and>
       received fd0 (whist s) = received fd0 h0 @ mRequest c @ pending (rpc s)) \<and>
     (\<forall>fd. sent fd (whist s) = sent fd h0) \<and>
     mIsReadEnabled s \<and> rpc s \<noteq> R_Wait \<and> idle_response (wpc s) \<and>
     (mIsWriteEnabled s \<longrightarrow> 1 \<le> recv_stage (rpc s)) \<and>
     (send_intr s \<longrightarrow> 2 \<le> recv_stage (rpc s)) \<and>
     send_needs (wpc s) \<le> recv_stage (rpc s) \<and>
     (wpc s = W_Wait \<and> mIsWriteEnabled s \<and> recv_stage (rpc s) = 3 \<longrightarrow> write_note s)"

definition closed_inv :: "platform \<Rightarrow> int \<Rightarrow> history \<Rightarrow> worker \<Rightarrow> bool" where
  "closed_inv p fd0 h0 s \<longleftrightarrow> recv_bounded p \<and> client_inv fd0 h0 s \<and> quiet_inv fd0 h0 s"

lemma send_needs_phase: "send_needs w = 0 \<Longrightarrow> send_phase w = Before"
  by (cases w) simp_all

text \<open>While the receive thread reads, the context holds the original descriptor, still open.\<close>

lemma recv_live:
  assumes "client_inv fd0 h0 s" and "quiet_inv fd0 h0 s" and "rpc s = R_Recv" and "mContext s = Some c"
  shows "mClientFd c = fd0 \<and> closes_of fd0 (whist s) = closes_of fd0 h0"
proof -
  have "send_needs (wpc s) = 0" using assms(2,3) by (simp add: quiet_inv_def)
  then have w: "send_phase (wpc s) = Before" by (rule send_needs_phase)
  have ok: "fd_ok fd0 (closes_of fd0 h0) (mClientFd c) (closes_of fd0 (whist s)) (ctx_mutex s) Before Before"
    using assms w by (auto simp: client_inv_def fd_inv_def)
  moreover have "ctx_mutex s = None" using ok by (cases "ctx_mutex s"; cases "the (ctx_mutex s)") (auto simp: fd_ok_def)
  ultimately show ?thesis by (auto simp: fd_ok_def)
qed

text \<open>What one \<open>recv\<close> of a full buffer makes of the next program counter.\<close>

lemma after_recv_cases:
  assumes "recv_bounded p" and "sys_recv p fd MAX_MESSAGEBUFF_LEN 0 h = (r, bs, h')"
  shows "received fd h' = received fd h @ pending (after_recv r bs h')"
    "(\<forall>fd'. sent fd' h' = sent fd' h)" "recv_stage (after_recv r bs h') = 0" "after_recv r bs h' \<noteq> R_Wait"
proof -
  let ?a = "k_recv p h fd MAX_MESSAGEBUFF_LEN 0"
  have "length (data_of ?a) \<le> MAX_MESSAGEBUFF_LEN"
    using recv_boundedD[OF assms(1), of h fd MAX_MESSAGEBUFF_LEN 0] by (cases ?a) auto
  then have "to_c_int (int (length (data_of ?a))) = int (length (data_of ?a))"
    by (intro to_c_int_small) (simp_all add: MAX_MESSAGEBUFF_LEN_def)
  then show "received fd h' = received fd h @ pending (after_recv r bs h')"
    "(\<forall>fd'. sent fd' h' = sent fd' h)" "recv_stage (after_recv r bs h') = 0" "after_recv r bs h' \<noteq> R_Wait"
    using assms(2) by (cases ?a; auto simp: sys_simps Let_def after_recv_def to_c_int_small)+
qed

lemma quiet_inv_main:
  assumes "main_step s t" and "main_inv s" and "quiet_inv fd0 h0 s"
  shows "quiet_inv fd0 h0 t"
  using assms(1)
proof (cases rule: main_step.cases)
  case main_spawn_recv
  then have "rpc s = R_Unborn" using assms(2) by (simp add: main_inv_def)
  with main_spawn_recv assms(3) show ?thesis by (simp add: quiet_inv_def)
next
  case main_spawn_send
  then have "wpc s = W_Unborn" using assms(2) by (simp add: main_inv_def)
  with main_spawn_send assms(3) show ?thesis by (simp add: quiet_inv_def)
qed (use assms(3) in \<open>simp_all add: quiet_inv_def\<close>)

lemma quiet_inv_recv:
  assumes "recv_step p s t" and "closed_inv p fd0 h0 s"
  shows "quiet_inv fd0 h0 t"
  using assms(1)
proof (cases rule: recv_step.cases)
  case (recv_call c r bs h)
  have inv: "client_inv fd0 h0 s" "quiet_inv fd0 h0 s" "recv_bounded p"
    using assms(2) by (simp_all add: closed_inv_def)
  have "mClientFd c = fd0" using recv_live[OF inv(1,2) recv_call(2,3)] by simp
  with recv_call after_recv_cases[OF inv(3), of fd0 "whist s" r bs h] inv(2)
  show ?thesis by (auto simp: quiet_inv_def)
next
  case (recv_cast_null)
  with assms(2) show ?thesis by (auto simp: closed_inv_def client_inv_def fd_inv_def cast_ipv4_Some)
qed (use assms(2) in \<open>auto simp: closed_inv_def quiet_inv_def event_defs sys_simps\<close>)

lemma quiet_inv_send:
  assumes "send_step p s t" and "closed_inv p fd0 h0 s"
  shows "quiet_inv fd0 h0 t"
  using assms(1)
proof (cases rule: send_step.cases)
  case (send_loop fd response tot tot' h)
  then have "response = []" using assms(2) by (simp add: closed_inv_def quiet_inv_def)
  with send_loop show ?thesis by simp
next
  case (send_return fd response tot res h)
  then have "response = []" using assms(2) by (simp add: closed_inv_def quiet_inv_def)
  then have "res = Inr True \<and> h = whist s" using send_return(3) by simp
  with send_return assms(2) show ?thesis by (auto simp: closed_inv_def quiet_inv_def)
next
  case (send_cast_null)
  with assms(2) show ?thesis by (auto simp: closed_inv_def client_inv_def fd_inv_def cast_ipv4_Some)
qed (use assms(2) in \<open>auto simp: closed_inv_def quiet_inv_def event_defs sys_simps\<close>)

lemma closed_inv_worker: "worker_step p s t \<Longrightarrow> closed_inv p fd0 h0 s \<Longrightarrow> closed_inv p fd0 h0 t"
  using client_inv_worker[of p s t fd0 h0] quiet_inv_main[of s t fd0 h0] quiet_inv_recv[of p s t fd0 h0]
    quiet_inv_send[of p s t fd0 h0]
  by (auto simp: closed_inv_def client_inv_def elim!: worker_step.cases)

lemma closed_inv_step:
  assumes "closed_step p s t" and "closed_inv p fd0 h0 s"
  shows "closed_inv p fd0 h0 t"
  using assms(1)
proof (cases rule: closed_step.cases)
  case by_worker
  with assms(2) show ?thesis by (blast intro: closed_inv_worker)
qed (use assms client_inv_closed[OF assms(1)] in \<open>auto simp: closed_inv_def quiet_inv_def\<close>)

text \<open>A fresh worker whose context holds no request and no response yet.\<close>

definition fresh_client :: "platform \<Rightarrow> int \<Rightarrow> history \<Rightarrow> worker \<Rightarrow> bool" where
  "fresh_client p fd0 h0 s \<longleftrightarrow> recv_bounded p \<and> fd0 \<noteq> INVALID_FD \<and>
     (\<exists>c. is_ipv4 (ctx_class c) \<and> mClientFd c = fd0 \<and> mRequest c = [] \<and> mResponse c = [] \<and>
       s = ThreadsTcpBroWorker (Some c) h0)"

lemma closed_inv_init:
  assumes "fresh_client p fd0 h0 s"
  shows "closed_inv p fd0 h0 s"
proof -
  have "fresh_worker fd0 h0 s" using assms by (auto simp: fresh_client_def fresh_worker_def)
  then have "client_inv fd0 h0 s" by (rule client_inv_init)
  moreover have "quiet_inv fd0 h0 s"
    using assms by (auto simp: fresh_client_def quiet_inv_def ThreadsTcpBroWorker_def)
  ultimately show ?thesis using assms by (simp add: closed_inv_def fresh_client_def)
qed

interpretation quiet: invariant_system "closed_step p" "fresh_client p fd0 h0" "closed_inv p fd0 h0" for p fd0 h0
  by unfold_locales (auto intro: closed_inv_init closed_inv_step)

subsection \<open>The steps as functions\<close>

text \<open>
  Each thread is deterministic up to the kernel's answers, so its step relation is the graph of a
  function.  A list of actors is a schedule.
\<close>

definition main_next :: "worker \<Rightarrow> worker option" where
  "main_next s = (case main s of
     M_Recv \<Rightarrow> Some (s\<lparr>main := M_RecvAssign, rpc := R_Start\<rparr>)
   | M_RecvAssign \<Rightarrow> Some (s\<lparr>main := M_Send, recv_alive := True\<rparr>)
   | M_Send \<Rightarrow> Some (s\<lparr>main := M_SendAssign, wpc := W_Start\<rparr>)
   | M_SendAssign \<Rightarrow> Some (s\<lparr>main := M_JoinRecv, send_alive := True\<rparr>)
   | M_JoinRecv \<Rightarrow> if rpc s = R_Done then Some (s\<lparr>main := M_JoinSend\<rparr>) else None
   | M_JoinSend \<Rightarrow> if wpc s = W_Done then Some (s\<lparr>main := M_Done\<rparr>) else None
   | M_Done \<Rightarrow> None)"

definition recv_next :: "platform \<Rightarrow> worker \<Rightarrow> worker option" where
  "recv_next p s = (case rpc s of
     R_Unborn \<Rightarrow> None
   | R_Start \<Rightarrow> Some (s\<lparr>rpc := (case cast_ipv4 (mContext s) of None \<Rightarrow> R_Done | Some c \<Rightarrow> R_Top)\<rparr>)
   | R_Top \<Rightarrow> Some (if recv_intr s then s\<lparr>rpc := R_ExitClose, recv_intr := False\<rparr> else s\<lparr>rpc := R_Gate\<rparr>)
   | R_Gate \<Rightarrow> Some (if mIsReadEnabled s then s\<lparr>rpc := R_Recv\<rparr> else s\<lparr>rpc := R_Wait, read_note := False\<rparr>)
   | R_Wait \<Rightarrow> if read_note s then Some (s\<lparr>rpc := R_Gate, read_note := False\<rparr>) else None
   | R_Recv \<Rightarrow> (case mContext s of None \<Rightarrow> None | Some c \<Rightarrow>
       (case sys_recv p (mClientFd c) MAX_MESSAGEBUFF_LEN 0 (whist s) of (r, bs, h) \<Rightarrow>
          Some (s\<lparr>rpc := after_recv r bs h, whist := h\<rparr>)))
   | R_Append bs \<Rightarrow> map_option (\<lambda>c. s\<lparr>rpc := R_Top, mContext := Some (c\<lparr>mRequest := mRequest c @ bs\<rparr>)\<rparr>) (mContext s)
   | R_ExitClose \<Rightarrow> (case mContext s of None \<Rightarrow> None | Some c \<Rightarrow>
       if ctx_mutex s = None
       then Some (s\<lparr>rpc := R_ExitClear, ctx_mutex := Some Recv_thread, whist := sys_close (mClientFd c) (whist s)\<rparr>)
       else None)
   | R_ExitClear \<Rightarrow> map_option (\<lambda>c. s\<lparr>rpc := R_ExitEnable, ctx_mutex := None,
       mContext := Some (c\<lparr>mClientFd := INVALID_FD\<rparr>)\<rparr>) (mContext s)
   | R_ExitEnable \<Rightarrow> Some ((enableWriteEvent s)\<lparr>rpc := R_ExitInterrupt\<rparr>)
   | R_ExitInterrupt \<Rightarrow> Some (s\<lparr>rpc := R_ExitNotify, send_intr := send_intr s \<or> send_alive s\<rparr>)
   | R_ExitNotify \<Rightarrow> Some (s\<lparr>rpc := R_Done, write_note := write_note s \<or> wpc s = W_Wait\<rparr>)
   | R_Done \<Rightarrow> None)"

definition send_next :: "platform \<Rightarrow> worker \<Rightarrow> worker option" where
  "send_next p s = (case wpc s of
     W_Unborn \<Rightarrow> None
   | W_Start \<Rightarrow> Some (s\<lparr>wpc := (case cast_ipv4 (mContext s) of None \<Rightarrow> W_Done | Some c \<Rightarrow> W_Top)\<rparr>)
   | W_Top \<Rightarrow> Some (if send_intr s then s\<lparr>wpc := W_ExitClose, send_intr := False\<rparr> else s\<lparr>wpc := W_Gate\<rparr>)
   | W_Gate \<Rightarrow> Some (if mIsWriteEnabled s then s\<lparr>wpc := W_Copy, mIsWriteEnabled := False\<rparr>
                    else s\<lparr>wpc := W_Wait, write_note := False\<rparr>)
   | W_Wait \<Rightarrow> if write_note s then Some (s\<lparr>wpc := W_Gate, write_note := False\<rparr>) else None
   | W_Copy \<Rightarrow> map_option (\<lambda>c. s\<lparr>wpc := W_Send (mResponse c)\<rparr>) (mContext s)
   | W_Send response \<Rightarrow> map_option (\<lambda>c. s\<lparr>wpc := W_Sending (mClientFd c) response 0\<rparr>) (mContext s)
   | W_Sending fd response tot \<Rightarrow>
       (case send_body p fd response (to_size_t (int (length response))) 0 (tot, whist s) of
          Inr (tot', h) \<Rightarrow> Some (s\<lparr>whist := h, wpc := W_Sending fd response tot'\<rparr>)
        | Inl (res, h) \<Rightarrow> Some (s\<lparr>whist := h,
            wpc := (case res of Inl u \<Rightarrow> W_Undefined | Inr ok \<Rightarrow> if \<not> ok then W_ExitClose else W_Top)\<rparr>))
   | W_ExitClose \<Rightarrow> (case mContext s of None \<Rightarrow> None | Some c \<Rightarrow>
       if ctx_mutex s = None
       then Some (s\<lparr>wpc := W_ExitClear, ctx_mutex := Some Send_thread, whist := sys_close (mClientFd c) (whist s)\<rparr>)
       else None)
   | W_ExitClear \<Rightarrow> map_option (\<lambda>c. s\<lparr>wpc := W_ExitEnable, ctx_mutex := None,
       mContext := Some (c\<lparr>mClientFd := INVALID_FD\<rparr>)\<rparr>) (mContext s)
   | W_ExitEnable \<Rightarrow> Some ((enableReadEvent s)\<lparr>wpc := W_ExitInterrupt\<rparr>)
   | W_ExitInterrupt \<Rightarrow> Some (s\<lparr>wpc := W_ExitNotify, recv_intr := recv_intr s \<or> recv_alive s\<rparr>)
   | W_ExitNotify \<Rightarrow> Some (s\<lparr>wpc := W_Done, read_note := read_note s \<or> rpc s = R_Wait\<rparr>)
   | W_Done \<Rightarrow> None | W_Undefined \<Rightarrow> None)"

lemma main_step_iff: "main_step s t \<longleftrightarrow> main_next s = Some t"
  by (auto simp: main_step.simps main_next_def split: main_pc.splits if_splits)

lemma recv_step_iff: "recv_step p s t \<longleftrightarrow> recv_next p s = Some t"
proof
  show "recv_step p s t \<Longrightarrow> recv_next p s = Some t"
    by (auto simp: recv_next_def elim!: recv_step.cases)
  show "recv_next p s = Some t \<Longrightarrow> recv_step p s t"
    by (auto simp: recv_next_def intro: recv_step.intros
        split: recv_pc.splits option.splits prod.splits if_splits)
qed

lemma send_step_iff: "send_step p s t \<longleftrightarrow> send_next p s = Some t"
proof
  show "send_step p s t \<Longrightarrow> send_next p s = Some t"
    by (auto simp: send_next_def elim!: send_step.cases)
  show "send_step p s t" if n: "send_next p s = Some t"
  proof (cases "\<exists>fd response tot res h. wpc s = W_Sending fd response tot \<and>
      send_body p fd response (to_size_t (int (length response))) 0 (tot, whist s) = Inl (res, h)")
    case True
    then obtain fd response tot res h where w: "wpc s = W_Sending fd response tot"
      "send_body p fd response (to_size_t (int (length response))) 0 (tot, whist s) = Inl (res, h)" by blast
    from send_step.send_return[OF this] n w show ?thesis by (simp add: send_next_def)
  next
    case False
    with n show ?thesis
      by (auto simp: send_next_def intro: send_step.intros
          split: send_pc.splits option.splits prod.splits sum.splits if_splits)
  qed
qed

datatype actor = Main | Recv | Send

fun actor_next :: "platform \<Rightarrow> actor \<Rightarrow> worker \<Rightarrow> worker option" where
  "actor_next p Main s = main_next s"
| "actor_next p Recv s = recv_next p s"
| "actor_next p Send s = send_next p s"

abbreviation schedule :: "platform \<Rightarrow> actor list \<Rightarrow> worker \<Rightarrow> worker option" where
  "schedule p \<equiv> sched (actor_next p)"

lemma actor_next_step: "actor_next p a s = Some t \<Longrightarrow> worker_step p s t"
  by (cases a) (auto simp: main_step_iff[symmetric] recv_step_iff[symmetric] send_step_iff[symmetric]
      intro: worker_step.intros)

lemma schedule_reach: "schedule p as s = Some t \<Longrightarrow> reach (worker_step p) s t"
  by (rule sched_reach) (rule actor_next_step)

lemma schedule_closed: "schedule p as s = Some t \<Longrightarrow> reach (closed_step p) s t"
  by (rule reach_mono[OF schedule_reach]) (auto intro: closed_step.intros)

text \<open>
  Left alone, the send thread's steps are the call of \<open>IOHelper::send_bytes\<close> that they stand for.
\<close>

lemma sending_alone:
  assumes "forever (send_body p fd response (to_size_t (int (length response))) 0) fuel (tot, whist s) = Some (res, h)"
    and "wpc s = W_Sending fd response tot"
  shows "\<exists>k. schedule p (replicate k Send) s =
    Some (s\<lparr>whist := h, wpc := (case res of Inl u \<Rightarrow> W_Undefined | Inr ok \<Rightarrow> if \<not> ok then W_ExitClose else W_Top)\<rparr>)"
  using assms
proof (induction fuel arbitrary: tot s)
  case (Suc fuel)
  show ?case
  proof (cases "send_body p fd response (to_size_t (int (length response))) 0 (tot, whist s)")
    case (Inl r)
    with Suc.prems have "schedule p (replicate 1 Send) s =
        Some (s\<lparr>whist := h, wpc := (case res of Inl u \<Rightarrow> W_Undefined | Inr ok \<Rightarrow> if \<not> ok then W_ExitClose else W_Top)\<rparr>)"
      by (simp add: send_next_def)
    then show ?thesis ..
  next
    case (Inr r)
    obtain tot' h' where r: "r = (tot', h')" by (cases r)
    let ?s = "s\<lparr>whist := h', wpc := W_Sending fd response tot'\<rparr>"
    have n: "send_next p s = Some ?s" using Inr Suc.prems(2) by (simp add: r send_next_def)
    have "forever (send_body p fd response (to_size_t (int (length response))) 0) fuel (tot', whist ?s) = Some (res, h)"
      using Suc.prems(1) Inr by (simp add: r)
    from Suc.IH[OF this] obtain k where "schedule p (replicate k Send) ?s = Some (?s\<lparr>whist := h,
        wpc := (case res of Inl u \<Rightarrow> W_Undefined | Inr ok \<Rightarrow> if \<not> ok then W_ExitClose else W_Top)\<rparr>)" by auto
    with n have "schedule p (replicate (Suc k) Send) s =
        Some (s\<lparr>whist := h, wpc := (case res of Inl u \<Rightarrow> W_Undefined | Inr ok \<Rightarrow> if \<not> ok then W_ExitClose else W_Top)\<rparr>)"
      by simp
    then show ?thesis ..
  qed
qed simp

lemma send_bytes_alone:
  assumes "send_bytes p fuel (mClientFd c) response (to_size_t (int (length response))) 0 (whist s) = Some (res, h)"
    and "wpc s = W_Send response" and "mContext s = Some c"
  shows "\<exists>k. schedule p (replicate k Send) s =
    Some (s\<lparr>whist := h, wpc := (case res of Inl u \<Rightarrow> W_Undefined | Inr ok \<Rightarrow> if \<not> ok then W_ExitClose else W_Top)\<rparr>)"
proof -
  let ?s = "s\<lparr>wpc := W_Sending (mClientFd c) response 0\<rparr>"
  obtain k where "schedule p (replicate k Send) ?s = Some (?s\<lparr>whist := h,
      wpc := (case res of Inl u \<Rightarrow> W_Undefined | Inr ok \<Rightarrow> if \<not> ok then W_ExitClose else W_Top)\<rparr>)"
    using sending_alone[of p "mClientFd c" response fuel 0 ?s res h] assms(1) by (auto simp: send_bytes_def)
  moreover have "send_next p s = Some ?s" using assms(2,3) by (simp add: send_next_def)
  ultimately have "schedule p (replicate (Suc k) Send) s =
      Some (s\<lparr>whist := h, wpc := (case res of Inl u \<Rightarrow> W_Undefined | Inr ok \<Rightarrow> if \<not> ok then W_ExitClose else W_Top)\<rparr>)"
    by simp
  then show ?thesis ..
qed

text \<open>What each thread waits for when it has no step.\<close>

lemma recv_stuck:
  "recv_next p s = None \<longleftrightarrow> rpc s = R_Unborn \<or> rpc s = R_Done \<or> rpc s = R_Wait \<and> \<not> read_note s \<or>
     mContext s = None \<and> (rpc s = R_Recv \<or> (\<exists>bs. rpc s = R_Append bs) \<or> rpc s = R_ExitClose \<or> rpc s = R_ExitClear) \<or>
     rpc s = R_ExitClose \<and> ctx_mutex s \<noteq> None"
  by (auto simp: recv_next_def split: recv_pc.splits option.splits prod.splits)

lemma main_stuck:
  "main_next s = None \<longleftrightarrow> main s = M_Done \<or> main s = M_JoinRecv \<and> rpc s \<noteq> R_Done \<or>
     main s = M_JoinSend \<and> wpc s \<noteq> W_Done"
  by (auto simp: main_next_def split: main_pc.splits)

end
