(* ===== verification/Worker_Properties.thy ===== *)
theory Worker_Properties
  imports Worker
begin

text \<open>
  What the threads of \<open>ThreadsTcpBroWorker\<close> guarantee: the fate of the client's descriptor, the
  request they collect, the one deadlock they have, and the clients they ignore.  Existence claims
  are witnessed by schedules (lists of actors) that the step functions execute.
\<close>

subsection \<open>Deadlocks\<close>

text \<open>
  The receive thread is gone and the send thread is at its gate with the write event consumed:
  the wake-up was spent before the interruption was requested.
\<close>

definition lost_wakeup :: "worker \<Rightarrow> bool" where
  "lost_wakeup s \<longleftrightarrow> rpc s = R_Done \<and> \<not> mIsWriteEnabled s \<and> (wpc s = W_Gate \<or> wpc s = W_Wait)"

lemma lost_wakeup_stays_worker:
  assumes "worker_step p s t" and "lost_wakeup s" and "main_inv s"
  shows "lost_wakeup t"
  using assms(1)
proof (cases rule: worker_step.cases)
  case by_main
  with assms(2,3) show ?thesis
    by (auto simp: main_step_iff main_next_def lost_wakeup_def main_inv_def split: main_pc.splits if_splits)
next
  case by_recv
  with assms(2) show ?thesis by (simp add: recv_step_iff recv_next_def lost_wakeup_def)
next
  case by_send
  with assms(2) show ?thesis by (auto simp: send_step_iff send_next_def lost_wakeup_def split: if_splits)
qed

lemma lost_wakeup_stays:
  assumes "closed_step p s t" and "lost_wakeup s" and "main_inv s"
  shows "lost_wakeup t"
  using assms(1)
proof (cases rule: closed_step.cases)
  case by_worker
  with assms show ?thesis by (blast intro: lost_wakeup_stays_worker)
qed (use assms(2) in \<open>simp_all add: lost_wakeup_def\<close>)

lemma lost_wakeup_reach:
  assumes "reach (closed_step p) s t" and "lost_wakeup s" and "closed_inv p fd0 h0 s"
  shows "lost_wakeup t \<and> main t \<noteq> M_Done"
proof -
  have "lost_wakeup t \<and> closed_inv p fd0 h0 t"
    using assms
  proof (induction rule: reach.induct)
    case (reach_step s' t)
    then have *: "lost_wakeup s'" "closed_inv p fd0 h0 s'" by simp_all
    then have "main_inv s'" by (simp add: closed_inv_def client_inv_def)
    with * reach_step.hyps(2) show ?case by (blast intro: lost_wakeup_stays closed_inv_step)
  qed simp
  then show ?thesis by (auto simp: closed_inv_def client_inv_def main_inv_def lost_wakeup_def)
qed

lemma recv_not_stuck:
  assumes "closed_inv p fd0 h0 s" and "\<And>t. \<not> worker_step p s t"
  shows "rpc s = R_Unborn \<or> rpc s = R_Done"
proof (rule ccontr)
  assume neg: "\<not> ?thesis"
  have next': "recv_next p s = None" "send_next p s = None"
    using assms(2) actor_next_step[of p Recv s] actor_next_step[of p Send s] by force+
  obtain c where c: "mContext s = Some c" "fd_ok fd0 (closes_of fd0 h0) (mClientFd c) (closes_of fd0 (whist s))
      (ctx_mutex s) (recv_phase (rpc s)) (send_phase (wpc s))"
    using assms(1) by (auto simp: closed_inv_def client_inv_def fd_inv_def)
  moreover have "rpc s \<noteq> R_Wait" using assms(1) by (simp add: closed_inv_def quiet_inv_def)
  ultimately have r: "rpc s = R_ExitClose" "ctx_mutex s \<noteq> None" using neg next'(1) by (auto simp: recv_stuck)
  then have "ctx_mutex s = Some Send_thread" using c(2) by (cases "the (ctx_mutex s)") (auto simp: fd_ok_def)
  then have "send_phase (wpc s) = Closing" using c(2) by (simp add: fd_ok_def)
  then have "wpc s = W_ExitClear" by (cases "wpc s") simp_all
  with next'(2) c(1) show False by (simp add: send_next_def)
qed

lemma send_stuck:
  assumes "closed_inv p fd0 h0 s" and "\<And>t. \<not> worker_step p s t" and "rpc s = R_Done"
  shows "wpc s = W_Unborn \<or> wpc s = W_Done \<or> lost_wakeup s"
proof -
  have next': "send_next p s = None" using assms(2) actor_next_step[of p Send s] by force
  obtain c where c: "mContext s = Some c" "fd_ok fd0 (closes_of fd0 h0) (mClientFd c) (closes_of fd0 (whist s))
      (ctx_mutex s) After (send_phase (wpc s))"
    using assms(1,3) by (auto simp: closed_inv_def client_inv_def fd_inv_def)
  have q: "quiet_inv fd0 h0 s" using assms(1) by (simp add: closed_inv_def)
  show ?thesis
  proof (cases "wpc s")
    case (W_Send response)
    with c(1) next' show ?thesis by (simp add: send_next_def)
  next
    case (W_Sending fd response tot)
    with q have "response = []" by (simp add: quiet_inv_def)
    with W_Sending next' show ?thesis by (simp add: send_next_def)
  next
    case W_ExitClose
    then have "ctx_mutex s = None" using c(2) by (cases "ctx_mutex s"; cases "the (ctx_mutex s)") (auto simp: fd_ok_def)
    with W_ExitClose c(1) next' show ?thesis by (simp add: send_next_def)
  qed (use q c(1) next' assms(3) in \<open>auto simp: send_next_def quiet_inv_def lost_wakeup_def split: if_splits\<close>)
qed

lemma closed_stuck:
  assumes "closed_inv p fd0 h0 s" and "\<And>t. \<not> worker_step p s t"
  shows "main s = M_Done \<or> lost_wakeup s"
proof -
  have "main_next s = None" using assms(2) actor_next_step[of p Main s] by force
  then have m: "main s = M_Done \<or> main s = M_JoinRecv \<and> rpc s \<noteq> R_Done \<or> main s = M_JoinSend \<and> wpc s \<noteq> W_Done"
    by (simp add: main_stuck)
  have i: "main_inv s" using assms(1) by (simp add: closed_inv_def client_inv_def)
  from m show ?thesis
  proof (elim disjE conjE)
    assume "main s = M_JoinRecv" "rpc s \<noteq> R_Done"
    with recv_not_stuck[OF assms] i show ?thesis by (simp add: main_inv_def)
  next
    assume *: "main s = M_JoinSend" "wpc s \<noteq> W_Done"
    with i have "rpc s = R_Done" "wpc s \<noteq> W_Unborn" by (auto simp: main_inv_def)
    with send_stuck[OF assms] * show ?thesis by blast
  qed simp
qed

subsection \<open>Concrete schedules\<close>

definition start_worker :: "actor list" where
  "start_worker = [Main, Main, Main, Main, Recv, Recv, Recv, Send, Send]"

lemmas step_fun_defs = main_next_def recv_next_def send_next_def

lemma start_worker_state:
  assumes "is_ipv4 (ctx_class c)"
  shows "schedule p start_worker (ThreadsTcpBroWorker (Some c) h) =
    Some \<lparr>whist = h, mContext = Some c, mIsReadEnabled = True, mIsWriteEnabled = False,
      recv_alive = True, send_alive = True, recv_intr = False, send_intr = False,
      read_note = False, write_note = False, ctx_mutex = None,
      main = M_JoinRecv, rpc = R_Recv, wpc = W_Gate\<rparr>"
  using assms by (simp add: start_worker_def ThreadsTcpBroWorker_def step_fun_defs cast_ipv4_Some)

lemma schedule_loses_wakeup:
  assumes "is_ipv4 (ctx_class c)" and "mResponse c = []"
    and "k_recv p h (mClientFd c) MAX_MESSAGEBUFF_LEN 0 = Done []"
  shows "\<exists>t. schedule p (start_worker @ [Recv, Recv, Recv, Recv, Send, Send, Send, Send, Send, Recv, Recv])
      (ThreadsTcpBroWorker (Some c) h) = Some t \<and> lost_wakeup t"
  unfolding sched_append start_worker_state[OF assms(1)]
  using assms(2,3)
  by (simp add: step_fun_defs sys_simps after_recv_def to_c_int_def event_defs lost_wakeup_def to_size_t_def)

text \<open>The worker of a context that is no \<open>IPV4SocketContext\<close> never touches anything.\<close>

definition ignored_inv :: "socket_context option \<Rightarrow> history \<Rightarrow> worker \<Rightarrow> bool" where
  "ignored_inv ctx h0 s \<longleftrightarrow> cast_ipv4 ctx = None \<and> main_inv s \<and> mContext s = ctx \<and> whist s = h0 \<and>
     (rpc s = R_Unborn \<or> rpc s = R_Start \<or> rpc s = R_Done) \<and>
     (wpc s = W_Unborn \<or> wpc s = W_Start \<or> wpc s = W_Done)"

lemma ignored_inv_worker:
  assumes "worker_step p s t" and "ignored_inv ctx h0 s"
  shows "ignored_inv ctx h0 t"
proof -
  have m: "main_inv t" using assms main_inv_worker by (auto simp: ignored_inv_def)
  from assms(1) show ?thesis
  proof (cases rule: worker_step.cases)
    case by_main
    with assms(2) m show ?thesis
      by (auto simp: main_step_iff main_next_def ignored_inv_def split: main_pc.splits if_splits)
  next
    case by_recv
    with assms(2) m show ?thesis by (auto simp: recv_step_iff recv_next_def ignored_inv_def)
  next
    case by_send
    with assms(2) m show ?thesis by (auto simp: send_step_iff send_next_def ignored_inv_def)
  qed
qed

lemma ignored_inv_step:
  assumes "closed_step p s t" and "ignored_inv ctx h0 s"
  shows "ignored_inv ctx h0 t"
  using assms(1)
proof (cases rule: closed_step.cases)
  case by_worker
  with assms(2) show ?thesis by (blast intro: ignored_inv_worker)
qed (use assms(2) in \<open>auto simp: ignored_inv_def\<close>)

lemma ignored_stuck:
  assumes "ignored_inv ctx h0 s" and "\<And>t. \<not> worker_step p s t"
  shows "main s = M_Done"
proof -
  have nexts: "main_next s = None" "recv_next p s = None" "send_next p s = None"
    using assms(2) actor_next_step[of p Main s] actor_next_step[of p Recv s]
      actor_next_step[of p Send s] by force+
  have "rpc s = R_Unborn \<or> rpc s = R_Done" "wpc s = W_Unborn \<or> wpc s = W_Done"
    using assms(1) nexts(2,3) by (auto simp: ignored_inv_def recv_next_def send_next_def)
  moreover have "main_inv s" using assms(1) by (simp add: ignored_inv_def)
  ultimately show ?thesis using nexts(1) unfolding main_stuck by (cases "main s") (simp_all add: main_inv_def)
qed

definition ignored_worker :: "socket_context option \<Rightarrow> history \<Rightarrow> worker \<Rightarrow> bool" where
  "ignored_worker ctx h0 s \<longleftrightarrow> cast_ipv4 ctx = None \<and> s = ThreadsTcpBroWorker ctx h0"

interpretation ignored: invariant_system "closed_step p" "ignored_worker ctx h0" "ignored_inv ctx h0" for p ctx h0
proof
  show "ignored_worker ctx h0 s \<Longrightarrow> ignored_inv ctx h0 s" for s
    using main_inv_init[of ctx h0] by (auto simp: ignored_worker_def ignored_inv_def ThreadsTcpBroWorker_def)
qed (rule ignored_inv_step)

lemma schedule_open: "schedule p as s = Some t \<Longrightarrow> reach (open_step p) s t"
  by (rule reach_mono[OF schedule_closed]) (auto intro: open_step.intros)

text \<open>Two more schedules: one that ends well, and a response sent by an application.\<close>

lemma schedule_finishes:
  assumes "is_ipv4 (ctx_class c)" and "mResponse c = []" and "mClientFd c \<noteq> INVALID_FD"
    and "k_recv p h (mClientFd c) MAX_MESSAGEBUFF_LEN 0 = Done []"
  shows "\<exists>t. schedule p (start_worker @ [Recv, Recv, Recv, Recv, Recv, Recv,
      Send, Send, Send, Send, Send, Send, Send, Send, Send, Send, Main, Main])
      (ThreadsTcpBroWorker (Some c) h) = Some t \<and> main t = M_Done"
  unfolding sched_append start_worker_state[OF assms(1)]
  using assms(2,3,4)
  by (simp add: step_fun_defs sys_simps after_recv_def to_c_int_def event_defs to_size_t_def)

lemma open_send_after_close:
  assumes "is_ipv4 (ctx_class c)" and "mClientFd c \<noteq> INVALID_FD"
    and "k_recv p h (mClientFd c) MAX_MESSAGEBUFF_LEN 0 = Done []"
  shows "\<exists>t c'. reach (open_step p) (ThreadsTcpBroWorker (Some c) h) t \<and>
    wpc t = W_Send bs \<and> mContext t = Some c' \<and> mClientFd c' = mClientFd c \<and>
    closes_of (mClientFd c) (whist t) = closes_of (mClientFd c) h + 1"
proof -
  let ?s0 = "ThreadsTcpBroWorker (Some c) h"
  obtain s1 where s1: "schedule p start_worker ?s0 = Some s1"
    "s1 = \<lparr>whist = h, mContext = Some c, mIsReadEnabled = True, mIsWriteEnabled = False,
      recv_alive = True, send_alive = True, recv_intr = False, send_intr = False,
      read_note = False, write_note = False, ctx_mutex = None,
      main = M_JoinRecv, rpc = R_Recv, wpc = W_Gate\<rparr>"
    using start_worker_state[OF assms(1)] by blast
  let ?s2 = "s1\<lparr>mContext := Some (c\<lparr>mResponse := bs\<rparr>)\<rparr>"
  have "mContext s1 = Some c" by (simp add: s1(2))
  then have r2: "reach (open_step p) ?s0 ?s2"
    by (intro reach_step[OF schedule_open[OF s1(1)]] by_app app_response)
  have r3: "reach (open_step p) ?s0 (enableWriteEvent ?s2)"
    using r2 by (rule reach_step) (intro by_app app_enable_write)
  have "\<exists>t. schedule p [Send, Send, Recv, Recv] (enableWriteEvent ?s2) = Some t \<and>
      wpc t = W_Send bs \<and> mContext t = Some (c\<lparr>mResponse := bs\<rparr>) \<and>
      closes_of (mClientFd c) (whist t) = closes_of (mClientFd c) h + 1"
    using assms(2,3) s1(2)
    by (simp add: step_fun_defs sys_simps after_recv_def to_c_int_def event_defs)
  then obtain t where t: "schedule p [Send, Send, Recv, Recv] (enableWriteEvent ?s2) = Some t"
    "wpc t = W_Send bs" "mContext t = Some (c\<lparr>mResponse := bs\<rparr>)"
    "closes_of (mClientFd c) (whist t) = closes_of (mClientFd c) h + 1" by blast
  have "reach (open_step p) ?s0 t"
    using reach_trans[OF schedule_open[OF t(1)] r3] .
  with t show ?thesis by auto
qed

subsection \<open>Properties of the worker\<close>

text \<open>
  C14: Whatever an application does through the public functions, and in whatever order the three
  threads run, the client's descriptor is closed at most once, and exactly once when \<open>doWork\<close>
  returns.
\<close>

theorem worker_closes_once:
  assumes "fresh_worker fd0 h0 s0" and "reach (open_step p) s0 s"
  shows "closes_of fd0 (whist s) \<le> closes_of fd0 h0 + 1 \<and>
    (main s = M_Done \<longrightarrow> closes_of fd0 (whist s) = closes_of fd0 h0 + 1)"
  by (rule client_inv_closes[OF client.reach_inv[OF assms(2,1)]])

text \<open>Contexts and systems for the witnesses.\<close>

definition sample_context :: socket_context where
  "sample_context = IPV4SocketContext 4 5000 (0x0100007F, htons 5000)"

definition sample_context6 :: socket_context where
  "sample_context6 = IPV6SocketContext 4 5000 (1, htons 5000)"

definition eof_platform :: platform where
  "eof_platform = sample_platform\<lparr>k_recv := \<lambda>h fd n fl. Done []\<rparr>"

lemma sample_context_sel [simp]:
  "is_ipv4 (ctx_class sample_context)" "mClientFd sample_context = 4"
  "mRequest sample_context = []" "mResponse sample_context = []"
  "cast_ipv4 (Some sample_context6) = None"
  by (simp_all add: sample_context_def sample_context6_def ctx_defs cast_ipv4_def)

lemma eof_platform_recv: "k_recv eof_platform h fd n fl = Done []" "recv_bounded eof_platform"
  by (simp_all add: eof_platform_def recv_bounded_def)

lemma sample_fresh:
  "fresh_worker 4 [] (ThreadsTcpBroWorker (Some sample_context) [])"
  "recv_bounded p \<Longrightarrow> fresh_client p 4 [] (ThreadsTcpBroWorker (Some sample_context) [])"
  by (auto simp: fresh_worker_def fresh_client_def INVALID_FD_def intro!: exI[of _ sample_context])

lemma sample_finishes:
  "\<exists>s. reach (open_step eof_platform) (ThreadsTcpBroWorker (Some sample_context) []) s \<and> main s = M_Done"
  using schedule_finishes[of sample_context eof_platform "[]"] schedule_open
  by (fastforce simp: eof_platform_recv INVALID_FD_def)

theorem worker_closes_once_witness:
  "\<exists>s. reach (open_step eof_platform) (ThreadsTcpBroWorker (Some sample_context) []) s \<and>
    main s = M_Done \<and> closes_of 4 (whist s) = 1"
proof -
  obtain s where s: "reach (open_step eof_platform) (ThreadsTcpBroWorker (Some sample_context) []) s"
    "main s = M_Done" using sample_finishes by blast
  from worker_closes_once[OF sample_fresh(1) s(1)] s show ?thesis by auto
qed

text \<open>
  In the program as it is, the receive thread calls \<open>recv\<close> only on the client's own
  descriptor and only while nobody has closed it.
\<close>

lemma worker_reads_live_descriptor:
  assumes "fresh_client p fd0 h0 s0" and "reach (closed_step p) s0 s" and "rpc s = R_Recv"
  shows "\<exists>c. mContext s = Some c \<and> mClientFd c = fd0 \<and> closes_of fd0 (whist s) = closes_of fd0 h0"
proof -
  have inv: "client_inv fd0 h0 s" "quiet_inv fd0 h0 s"
    using quiet.reach_inv[OF assms(2,1)] by (simp_all add: closed_inv_def)
  from inv(1) obtain c where "mContext s = Some c" by (auto simp: client_inv_def fd_inv_def)
  with recv_live[OF inv assms(3)] show ?thesis by blast
qed

text \<open>
  At every moment the context's request is the byte stream received from the client so far, in
  order, short only of the bytes the receive thread is about to append.
\<close>

lemma worker_request_is_stream:
  assumes "fresh_client p fd0 h0 s0" and "reach (closed_step p) s0 s"
  shows "\<exists>c. mContext s = Some c \<and> received fd0 (whist s) = received fd0 h0 @ mRequest c @ pending (rpc s)"
  using quiet.reach_inv[OF assms(2,1)] by (auto simp: closed_inv_def quiet_inv_def)

text \<open>
  Whatever the client sends and however the threads interleave, no byte is ever sent, on any
  descriptor.
\<close>

lemma worker_never_answers:
  assumes "fresh_client p fd0 h0 s0" and "reach (closed_step p) s0 s"
  shows "sent fd (whist s) = sent fd h0"
  using quiet.reach_inv[OF assms(2,1)] by (simp add: closed_inv_def quiet_inv_def)

text \<open>
  C18: The worker is stuck in one way only: when no thread can take a step, either \<open>doWork\<close> has
  returned, or the receive thread is gone and the send thread waits for a write event whose flag it
  has already consumed.
\<close>

theorem worker_only_deadlock:
  assumes "fresh_client p fd0 h0 s0" and "reach (closed_step p) s0 s" and "\<And>t. \<not> worker_step p s t"
  shows "main s = M_Done \<or> (rpc s = R_Done \<and> wpc s = W_Wait \<and> \<not> mIsWriteEnabled s)"
proof -
  have "\<not> worker_step p s (s\<lparr>wpc := W_Wait, write_note := False\<rparr>)" by (rule assms(3))
  then have "wpc s \<noteq> W_Gate \<or> mIsWriteEnabled s" using worker_step.by_send[OF send_step.send_blocked] by blast
  with closed_stuck[OF quiet.reach_inv[OF assms(2,1)] assms(3)] show ?thesis by (auto simp: lost_wakeup_def)
qed

lemma done_stuck: "main s = M_Done \<Longrightarrow> main_inv s \<Longrightarrow> \<not> worker_step p s t"
  by (auto simp: main_inv_def main_step_iff recv_step_iff send_step_iff step_fun_defs elim!: worker_step.cases)

theorem worker_only_deadlock_witness:
  "\<exists>s. reach (closed_step eof_platform) (ThreadsTcpBroWorker (Some sample_context) []) s \<and>
    (main s = M_Done \<or> (rpc s = R_Done \<and> wpc s = W_Wait \<and> \<not> mIsWriteEnabled s))"
proof -
  let ?s0 = "ThreadsTcpBroWorker (Some sample_context) []"
  obtain s where s: "reach (closed_step eof_platform) ?s0 s" "main s = M_Done"
    using schedule_finishes[of sample_context eof_platform "[]"] schedule_closed
    by (fastforce simp: eof_platform_recv INVALID_FD_def)
  have f: "fresh_client eof_platform 4 [] ?s0" by (rule sample_fresh(2)[OF eof_platform_recv(2)])
  have "main_inv s" using quiet.reach_inv[OF s(1) f] by (simp add: closed_inv_def client_inv_def)
  then have "\<not> worker_step eof_platform s t" for t by (rule done_stuck[OF s(2)])
  from worker_only_deadlock[OF f s(1) this] s(1) show ?thesis by blast
qed

text \<open>
  C32: That deadlock happens: when the client hangs up, the threads can run so that \<open>doWork\<close>
  never returns, whatever they do from there on, spurious wake-ups included.
\<close>

theorem worker_can_hang:
  assumes "is_ipv4 (ctx_class c)" and "mClientFd c \<noteq> INVALID_FD" and "mRequest c = []" and "mResponse c = []"
    and "recv_bounded p" and "k_recv p h (mClientFd c) MAX_MESSAGEBUFF_LEN 0 = Done []"
  shows "\<exists>s. reach (closed_step p) (ThreadsTcpBroWorker (Some c) h) s \<and>
    \<not> (\<exists>t. reach (closed_step p) s t \<and> main t = M_Done)"
proof -
  let ?s0 = "ThreadsTcpBroWorker (Some c) h"
  obtain s where s: "reach (closed_step p) ?s0 s" "lost_wakeup s"
    using schedule_loses_wakeup[OF assms(1,4,6)] schedule_closed by blast
  have "fresh_client p (mClientFd c) h ?s0" using assms by (auto simp: fresh_client_def)
  from quiet.reach_inv[OF s(1) this] s show ?thesis using lost_wakeup_reach by blast
qed

theorem worker_can_hang_witness:
  "\<exists>s. reach (closed_step eof_platform) (ThreadsTcpBroWorker (Some sample_context) []) s \<and>
    \<not> (\<exists>t. reach (closed_step eof_platform) s t \<and> main t = M_Done)"
  by (rule worker_can_hang) (simp_all add: eof_platform_recv INVALID_FD_def)

text \<open>
  It can also end well: in the same situation the threads can run so that \<open>doWork\<close> returns.
\<close>

lemma worker_can_finish:
  assumes "is_ipv4 (ctx_class c)" and "mClientFd c \<noteq> INVALID_FD" and "mResponse c = []"
    and "k_recv p h (mClientFd c) MAX_MESSAGEBUFF_LEN 0 = Done []"
  shows "\<exists>s. reach (worker_step p) (ThreadsTcpBroWorker (Some c) h) s \<and> main s = M_Done"
  using schedule_finishes[OF assms(1,3,2,4)] schedule_reach by blast

text \<open>
  With an application that sets a response, the send thread can call \<open>send\<close> on a descriptor
  the receive thread has already closed: \<open>mClientFd\<close> is read without the lock that guards the
  close.
\<close>

lemma worker_sends_after_close:
  assumes "is_ipv4 (ctx_class c)" and "mClientFd c \<noteq> INVALID_FD"
    and "k_recv p h (mClientFd c) MAX_MESSAGEBUFF_LEN 0 = Done []"
  shows "\<exists>s c'. reach (open_step p) (ThreadsTcpBroWorker (Some c) h) s \<and>
    wpc s = W_Send response \<and> mContext s = Some c' \<and> mClientFd c' = mClientFd c \<and>
    closes_of (mClientFd c) (whist s) = closes_of (mClientFd c) h + 1"
  by (rule open_send_after_close[OF assms])

text \<open>
  A worker whose context is no \<open>IPV4SocketContext\<close> makes no system call and never writes the
  context: it neither serves nor closes its client, and it has nothing left to do but return.
\<close>

lemma worker_ignores_other_contexts:
  assumes "cast_ipv4 ctx = None" and "reach (closed_step p) (ThreadsTcpBroWorker ctx h0) s"
  shows "whist s = h0 \<and> mContext s = ctx \<and> (main s = M_Done \<or> (\<exists>t. worker_step p s t))"
proof -
  have "ignored_inv ctx h0 s"
    by (rule ignored.reach_inv[OF assms(2)]) (simp add: ignored_worker_def assms(1))
  then show ?thesis using ignored_stuck[of ctx h0 s p] by (auto simp: ignored_inv_def)
qed

text \<open>So does one built without a context.\<close>

lemma default_worker_idle:
  "reach (closed_step p) (ThreadsTcpBroWorker_default h0) s \<Longrightarrow> whist s = h0 \<and> mContext s = None"
  using worker_ignores_other_contexts[of None p h0 s] by (simp add: ThreadsTcpBroWorker_default_def cast_ipv4_def)

lemma ignored_finishes:
  "cast_ipv4 ctx = None \<Longrightarrow> \<exists>s. schedule p [Main, Main, Main, Main, Recv, Send, Main, Main]
     (ThreadsTcpBroWorker ctx h) = Some s \<and> main s = M_Done"
  by (simp add: ThreadsTcpBroWorker_def step_fun_defs)

end
