(* ===== verification/Broker.thy ===== *)
theory Broker
  imports Fleet Servers Worker_Properties
begin

text \<open>
  The broker servers with the workers of all their clients, as instances of \<open>fleet\<close>: the accept
  loop of \<open>ThreadsTcpBroServer\<close> or \<open>ThreadsTcp6BroServer\<close> and, for each connection, the threads of
  the \<open>ThreadsTcpBroWorker\<close> that \<open>ThreadsTcpBroProcessor::process\<close> starts on its context.
\<close>

subsection \<open>The systems\<close>

definition broker_design :: "server_kind \<Rightarrow> platform \<Rightarrow> (server_state, worker) design" where
  "broker_design k p =
     \<lparr>turn = server_body k p,
      calls = (\<lambda>(e, w). hist w),
      log_calls = (\<lambda>evs (e, w). (e, w\<lparr>hist := evs @ hist w\<rparr>)),
      newest = (\<lambda>(e, w). ThreadsTcpBroWorker (Some (heap w ! last (spawned w))) []),
      thread_step = (\<lambda>H s t. closed_step (localise p H (whist s)) s t),
      own_calls = whist,
      down = (\<lambda>s. wpc s = W_Undefined)\<rparr>"

text \<open>A server that \<open>start\<close> has given its socket, before it accepts anyone.\<close>

definition fresh_broker :: "engine \<Rightarrow> history \<Rightarrow> server_state" where
  "fresh_broker e h = (e\<lparr>mSocketContextQueue := []\<rparr>, empty_world\<lparr>hist := h\<rparr>)"

lemma broker_sel [simp]:
  "turn (broker_design k p) = server_body k p" "calls (broker_design k p) (e, w) = hist w"
  "log_calls (broker_design k p) evs (e, w) = (e, w\<lparr>hist := evs @ hist w\<rparr>)"
  "newest (broker_design k p) (e, w) = ThreadsTcpBroWorker (Some (heap w ! last (spawned w))) []"
  "thread_step (broker_design k p) H s t = closed_step (localise p H (whist s)) s t"
  "own_calls (broker_design k p) = whist" "down (broker_design k p) s = (wpc s = W_Undefined)"
  by (simp_all add: broker_design_def)

lemma closed_inv_platform: "closed_inv p fd h0 s \<Longrightarrow> recv_bounded q \<Longrightarrow> closed_inv q fd h0 s"
  by (simp add: closed_inv_def)

subsection \<open>A step of a worker\<close>

lemma closing_live:
  assumes "client_inv fd [] s" and "mContext s = Some c" and "ctx_mutex s = None"
  shows "mClientFd c = INVALID_FD \<or> (mClientFd c = fd \<and> live fd (whist s))"
  using assms by (auto simp: client_inv_def fd_inv_def fd_ok_def live_def)

lemma closed_step_calls:
  assumes "closed_step p s t" and "closed_inv p fd [] s"
  shows "\<exists>evs. client_calls fd (whist s) evs \<and> whist t = evs @ whist s"
proof -
  have inv: "client_inv fd [] s" "quiet_inv fd [] s" using assms(2) by (simp_all add: closed_inv_def)
  note same = client_step_calls(1)
  from assms(1) show ?thesis
  proof (cases rule: closed_step.cases)
    case by_worker
    then show ?thesis
    proof (cases rule: worker_step.cases)
      case by_main
      then have "whist t = whist s" by (cases rule: main_step.cases) auto
      then show ?thesis by (rule same)
    next
      case by_recv
      then show ?thesis
      proof (cases rule: recv_step.cases)
        case (recv_call c r bs h)
        then have "mClientFd c = fd" "live fd (whist s)" using recv_live[OF inv] by (auto simp: live_def)
        with sys_recv_event[OF recv_call(4)] recv_call(1) show ?thesis by (intro client_step_calls(2)) simp_all
      next
        case (recv_close c)
        with closing_live[OF inv(1)] show ?thesis by (intro client_step_calls(4)) simp_all
      qed ((rule same, simp add: event_defs)+)
    next
      case by_send
      then show ?thesis
      proof (cases rule: send_step.cases)
        case (send_loop fd' response tot tot' h)
        then have "response = []" using inv(2) by (simp add: quiet_inv_def)
        with send_loop show ?thesis by simp
      next
        case (send_return fd' response tot res h)
        then have "response = []" using inv(2) by (simp add: quiet_inv_def)
        with send_return show ?thesis by (intro same) simp
      next
        case (send_close c)
        with closing_live[OF inv(1)] show ?thesis by (intro client_step_calls(4)) simp_all
      qed ((rule same, simp add: event_defs)+)
    qed
  qed ((rule same, simp)+)
qed

subsection \<open>A turn of the accept loop\<close>

lemma accept_turn:
  assumes "server_body k p (e, w) = Inr (e', w')" and "accept_fresh p"
  shows "\<exists>r c. hist w' = E_accept (mFd e) r # hist w \<and> 0 \<le> c_ret id r \<and> c_ret id r \<notin> open_fds (hist w) \<and>
    heap w' = heap w @ [c] \<and> mClientFd c = c_ret id r \<and> spawned w' = spawned w @ [length (heap w)]"
  using assms(1) accept_freshD[OF assms(2), of "hist w" "mFd e"]
  by (cases k) (auto simp: body_defs sys_simps process_defs Let_def not_less split: if_splits)

lemma server_clients_turn:
  assumes "server_wf (e, w)" and "heap w' = heap w @ [c]" and "spawned w' = spawned w @ [length (heap w)]"
  shows "server_clients (e', w') = server_clients (e, w) @ [mClientFd c]"
  using assms by (simp add: server_clients_def server_wf_def clients_alloc)

definition broker_sound :: "server_kind \<Rightarrow> platform \<Rightarrow> server_state \<Rightarrow> bool" where
  "broker_sound k p s \<longleftrightarrow> recv_bounded p \<and> accept_fresh p \<and> client_contexts k s"

lemma broker_accepts:
  assumes "broker_sound k p s" and "server_body k p s = Inr s'"
  shows "\<exists>l r c. broker_sound k p s' \<and> calls (broker_design k p) s' = E_accept l r # calls (broker_design k p) s \<and>
    0 \<le> c_ret id r \<and> c_ret id r \<notin> open_fds (calls (broker_design k p) s) \<and>
    server_clients s' = server_clients s @ [c_ret id r] \<and> client_context k c \<and> mClientFd c = c_ret id r \<and>
    newest (broker_design k p) s' = ThreadsTcpBroWorker (Some c) []"
proof -
  obtain e w e' w' where s: "s = (e, w)" "s' = (e', w')" by (cases s; cases s')
  have f: "accept_fresh p" "client_contexts k (e, w)" using assms(1) s by (simp_all add: broker_sound_def)
  obtain r c where t: "hist w' = E_accept (mFd e) r # hist w" "0 \<le> c_ret id r" "c_ret id r \<notin> open_fds (hist w)"
    "heap w' = heap w @ [c]" "mClientFd c = c_ret id r" "spawned w' = spawned w @ [length (heap w)]"
    using accept_turn[OF assms(2)[unfolded s] f(1)] by blast
  have ctx: "client_contexts k (e', w')" using client_contexts_turn[OF f(2)] assms(2) s by simp
  then have "client_context k c" using t(4,6) by (auto simp: client_contexts_def)
  moreover have "server_wf (e, w)" using f(2) by (simp add: client_contexts_def)
  from server_clients_turn[OF this t(4,6)] have "server_clients s' = server_clients s @ [c_ret id r]"
    by (simp add: s t(5))
  ultimately show ?thesis using t ctx assms(1) s by (auto simp: broker_sound_def)
qed

lemma broker_leaves:
  assumes "broker_sound k p s" and "server_body k p s = Inl (b, s')"
  shows "\<exists>l r. broker_sound k p s' \<and> server_clients s' = server_clients s \<and> c_ret id r < 0 \<and>
    calls (broker_design k p) s' = E_accept l r # calls (broker_design k p) s"
proof -
  obtain e w where s: "s = (e, w)" by (cases s)
  obtain a where "c_ret id a < 0" "s' = (e, w\<lparr>hist := E_accept (mFd e) a # hist w\<rparr>)"
    using server_body_exit[OF assms(2)[unfolded s]] by auto
  with assms(1) show ?thesis
    by (auto simp: broker_sound_def s client_contexts_def server_wf_def server_clients_def)
qed

lemma broker_logs:
  assumes "broker_sound k p s"
  shows "broker_sound k p (log_calls (broker_design k p) evs s) \<and>
    server_clients (log_calls (broker_design k p) evs s) = server_clients s \<and>
    calls (broker_design k p) (log_calls (broker_design k p) evs s) = evs @ calls (broker_design k p) s"
  using assms by (cases s) (auto simp: broker_sound_def client_contexts_def server_wf_def server_clients_def)

subsection \<open>Both servers satisfy the contract\<close>

text \<open>The IPv4 workers serve their clients; the IPv6 ones never make a call.\<close>

definition ignoring :: "int \<Rightarrow> worker \<Rightarrow> bool" where
  "ignoring fd s \<longleftrightarrow> (\<exists>c. mClientFd c = fd \<and> ignored_inv (Some c) [] s)"

lemma fresh_good:
  assumes "recv_bounded p" and "client_context Bro4 c" and "mClientFd c = fd"
  shows "closed_inv p fd [] (ThreadsTcpBroWorker (Some c) [])"
proof -
  have "fresh_client p fd [] (ThreadsTcpBroWorker (Some c) [])"
    using assms by (auto simp: fresh_client_def client_context_def INVALID_FD_def)
  then show ?thesis by (rule closed_inv_init)
qed

lemma fresh_ignoring:
  assumes "client_context Bro6 c" and "mClientFd c = fd"
  shows "ignoring fd (ThreadsTcpBroWorker (Some c) [])"
proof -
  have "ignored_worker (Some c) [] (ThreadsTcpBroWorker (Some c) [])"
    using assms by (simp add: ignored_worker_def client_context_def cast_ipv4_def)
  then have "ignored_inv (Some c) [] (ThreadsTcpBroWorker (Some c) [])" by (rule ignored.inv_start)
  with assms(2) show ?thesis unfolding ignoring_def by blast
qed

interpretation broker4: fleet "broker_design Bro4 p" "broker_sound Bro4 p" server_clients
    "\<lambda>fd. closed_inv p fd []" False for p
proof
  let ?D = "broker_design Bro4 p"
  show "broker_sound Bro4 p s' \<and> (\<exists>opts l r. list_all is_option opts \<and> calls ?D s' = opts @ E_accept l r # calls ?D s \<and>
      0 \<le> c_ret id r \<and> c_ret id r \<notin> open_fds (calls ?D s) \<and> server_clients s' = server_clients s @ [c_ret id r] \<and>
      closed_inv p (c_ret id r) [] (newest ?D s') \<and> own_calls ?D (newest ?D s') = [])"
    if s: "broker_sound Bro4 p s" "turn ?D s = Inr s'" for s s'
    using broker_accepts[OF s(1) s(2)[unfolded broker_sel]] fresh_good[of p] s(1)
    by (auto simp: broker_sound_def ThreadsTcpBroWorker_def intro!: exI[of _ "[]"])
  show "broker_sound Bro4 p s' \<and> server_clients s' = server_clients s \<and>
      (\<exists>opts l r. list_all is_option opts \<and> calls ?D s' = opts @ E_accept l r # calls ?D s \<and>
        (0 \<le> c_ret id r \<longrightarrow> False \<and> c_ret id r \<notin> open_fds (calls ?D s)))"
    if "broker_sound Bro4 p s" "turn ?D s = Inl (b, s')" for s b s'
    using broker_leaves[OF that(1) that(2)[unfolded broker_sel]] by (auto intro!: exI[of _ "[]"])
  show "broker_sound Bro4 p (log_calls ?D evs s) \<and> server_clients (log_calls ?D evs s) = server_clients s \<and>
      calls ?D (log_calls ?D evs s) = evs @ calls ?D s" if "broker_sound Bro4 p s" for s evs
    using that by (rule broker_logs)
  show "closed_inv p fd [] t \<and> (\<exists>evs. client_calls fd (own_calls ?D c) evs \<and> own_calls ?D t = evs @ own_calls ?D c)"
    if c: "closed_inv p fd [] c" "thread_step ?D H c t" for fd c H t
  proof -
    have b: "recv_bounded p" using c(1) by (simp add: closed_inv_def)
    have s: "closed_step (localise p H (whist c)) c t" using c(2) by simp
    have q: "closed_inv (localise p H (whist c)) fd [] c"
      using c(1) localise_bounded[OF b] by (rule closed_inv_platform)
    from closed_step_calls[OF s q] closed_inv_platform[OF closed_inv_step[OF s q] b] show ?thesis by simp
  qed
qed

interpretation broker6: fleet "broker_design Bro6 p" "broker_sound Bro6 p" server_clients ignoring False for p
proof
  let ?D = "broker_design Bro6 p"
  show "broker_sound Bro6 p s' \<and> (\<exists>opts l r. list_all is_option opts \<and> calls ?D s' = opts @ E_accept l r # calls ?D s \<and>
      0 \<le> c_ret id r \<and> c_ret id r \<notin> open_fds (calls ?D s) \<and> server_clients s' = server_clients s @ [c_ret id r] \<and>
      ignoring (c_ret id r) (newest ?D s') \<and> own_calls ?D (newest ?D s') = [])"
    if s: "broker_sound Bro6 p s" "turn ?D s = Inr s'" for s s'
    using broker_accepts[OF s(1) s(2)[unfolded broker_sel]] fresh_ignoring
    by (auto simp: ThreadsTcpBroWorker_def intro!: exI[of _ "[]"])
  show "broker_sound Bro6 p s' \<and> server_clients s' = server_clients s \<and>
      (\<exists>opts l r. list_all is_option opts \<and> calls ?D s' = opts @ E_accept l r # calls ?D s \<and>
        (0 \<le> c_ret id r \<longrightarrow> False \<and> c_ret id r \<notin> open_fds (calls ?D s)))"
    if "broker_sound Bro6 p s" "turn ?D s = Inl (b, s')" for s b s'
    using broker_leaves[OF that(1) that(2)[unfolded broker_sel]] by (auto intro!: exI[of _ "[]"])
  show "broker_sound Bro6 p (log_calls ?D evs s) \<and> server_clients (log_calls ?D evs s) = server_clients s \<and>
      calls ?D (log_calls ?D evs s) = evs @ calls ?D s" if "broker_sound Bro6 p s" for s evs
    using that by (rule broker_logs)
  show "ignoring fd t \<and> (\<exists>evs. client_calls fd (own_calls ?D c) evs \<and> own_calls ?D t = evs @ own_calls ?D c)"
    if c: "ignoring fd c" "thread_step ?D H c t" for fd c H t
  proof -
    obtain ctx where i: "mClientFd ctx = fd" "ignored_inv (Some ctx) [] c" using c(1) by (auto simp: ignoring_def)
    from i(2) have "ignored_inv (Some ctx) [] t" using c(2) ignored_inv_step by auto
    with i show ?thesis by (auto simp: ignoring_def ignored_inv_def client_calls_def)
  qed
qed

end
