(* ===== verification/Broker_Properties.thy ===== *)
theory Broker_Properties
  imports Broker
begin

text \<open>
  Properties of a broker server together with all its workers: descriptors are neither shared nor
  lost, connections do not mix, the whole implements a table of connections; and the IPv6 server
  keeps every connection for ever.
\<close>

subsection \<open>Runs\<close>

definition broker_next ::
  "server_kind \<Rightarrow> platform \<Rightarrow> actor move \<Rightarrow> (server_state, worker) fleet_state \<Rightarrow> (server_state, worker) fleet_state option" where
  "broker_next k p = fleet_next (broker_design k p) (\<lambda>H a s. actor_next (localise p H (whist s)) a s)"

lemma broker_sched_reach:
  "sched (broker_next k p) as b = Some b' \<Longrightarrow> reach (fleet_step (broker_design k p)) b b'"
  unfolding broker_next_def
  by (erule fleet_sched_reach[rotated]) (auto intro: closed_step.by_worker actor_next_step)

text \<open>
  A system that accepts as descriptor 4 whenever 4 is free, and whose clients send \<open>hi\<close> once and
  hang up.
\<close>

definition busy_platform :: platform where
  "busy_platform = sample_platform\<lparr>
     k_accept4 := \<lambda>h fd. if 4 \<notin> open_fds h then Done (4, 0x0100007F, htons 5000) else Fail (EOther 24),
     k_accept6 := \<lambda>h fd. if 4 \<notin> open_fds h then Done (4, 1, htons 5000) else Fail (EOther 24),
     k_recv := \<lambda>h fd n fl. if conn_stream fd h = [] then Done (take n [104, 105]) else Done []\<rparr>"

lemma busy_platform_laws: "recv_bounded busy_platform" "accept_fresh busy_platform"
  by (auto simp: busy_platform_def recv_bounded_def accept_fresh_def split: if_splits)

abbreviation sample_broker :: "(server_state, worker) fleet_state" where
  "sample_broker \<equiv> open_shop (fresh_broker (sample_server\<lparr>mFd := 3\<rparr>) [])"

lemmas fleet_eval = running_def work_at_def open_shop_def localise_def news_def all_calls_def

lemmas broker_eval = body_defs sys_simps process_defs Let_def step_fun_defs after_recv_def to_c_int_small
  MAX_MESSAGEBUFF_LEN_def fleet_eval broker_next_def fresh_broker_def empty_world_def
  ThreadsTcpBroWorker_def cast_ipv4_def ctx_defs

lemma six_run:
  "\<exists>b. sched (broker_next Bro6 busy_platform) [Accept, Client 0 Main, Client 0 Recv, Accept] sample_broker = Some b \<and>
    server_clients (acceptor b) = [4] \<and> length (crew b) = 1 \<and> \<not> serving b"
  by (simp add: broker_eval busy_platform_def server_clients_def)

subsection \<open>Properties of the system\<close>

lemma fresh_broker_facts:
  assumes "recv_bounded p" and "accept_fresh p"
  shows "broker_sound k p (fresh_broker e h)" "server_clients (fresh_broker e h) = []"
    "calls (broker_design k p) (fresh_broker e h) = h"
  using assms by (auto simp: broker_sound_def fresh_broker_def client_contexts_def server_wf_def server_clients_def
      empty_world_def)

lemma done_not_live: "closed_inv p fd [] s \<Longrightarrow> main s = M_Done \<Longrightarrow> \<not> live fd (whist s)"
  using client_inv_closes[of fd "[]" s] by (simp add: closed_inv_def live_def)

text \<open>
  In every interleaving of the IPv4 server's accept loop and all threads of all its clients, a
  close of a real descriptor closes one that is open, no two live clients share a descriptor, the
  process has open exactly what it had before and the descriptors of its live clients, and when all
  workers have finished nothing of the clients is left open.
\<close>

lemma broker_descriptors:
  assumes "recv_bounded p" and "accept_fresh p" and "clean h"
    and "reach (fleet_step (broker_design Bro4 p)) (open_shop (fresh_broker e h)) b"
  defines "H \<equiv> all_calls (broker_design Bro4 p) b" and "clients \<equiv> team server_clients b"
  shows "clean H \<and> distinct (live_fds whist clients) \<and> open_fds H = open_fds h \<union> set (live_fds whist clients) \<and>
    ((\<forall>(fd, s)\<in>set clients. main s = M_Done) \<longrightarrow> open_fds H = open_fds h)"
proof -
  note start = fresh_broker_facts[OF assms(1,2)]
  have c: "clean (calls (broker_design Bro4 p) (fresh_broker e h))" using assms(3) start(3) by simp
  from broker4.descriptors[OF start(1,2) c assms(4)] have d: "clean H" "distinct (live_fds whist clients)"
    "open_fds H = open_fds h \<union> set (live_fds whist clients)" by (auto simp: start(3) H_def clients_def)
  have "\<not> live fd (whist s)" if "(fd, s) \<in> set clients" "main s = M_Done" for fd s
    using broker4.members[OF start(1,2) c assms(4)] that done_not_live unfolding clients_def by blast
  then have "live_fds whist clients = []" if "\<forall>(fd, s)\<in>set clients. main s = M_Done"
    using that by (auto simp: live_fds_def live_team_def filter_empty_conv)
  with d show ?thesis by auto
qed

text \<open>
  Clients are isolated from each other: the request of a live IPv4 client, with what its
  receive thread is about to append, is exactly what arrived on its own connection since it was
  accepted, even when its descriptor number served an earlier client.
\<close>

lemma broker_isolation:
  assumes "recv_bounded p" and "accept_fresh p" and "clean h"
    and "reach (fleet_step (broker_design Bro4 p)) (open_shop (fresh_broker e h)) b"
    and "(fd, s) \<in> set (team server_clients b)" and "live fd (whist s)"
  shows "\<exists>c. mContext s = Some c \<and> conn_stream fd (all_calls (broker_design Bro4 p) b) = mRequest c @ pending (rpc s)"
proof -
  note start = fresh_broker_facts[OF assms(1,2)]
  have c: "clean (calls (broker_design Bro4 p) (fresh_broker e h))" using assms(3) start(3) by simp
  from broker4.members[OF start(1,2) c assms(4,5)] assms(6) have "closed_inv p fd [] s"
    "conn_stream fd (all_calls (broker_design Bro4 p) b) = received fd (whist s)" by auto
  then show ?thesis by (auto simp: closed_inv_def quiet_inv_def)
qed

text \<open>
  Either broker server with all its threads implements a table of connections: every step of
  any thread leaves the table alone, adds an empty connection under an unused number, appends to
  one connection, or removes one.
\<close>

lemma broker_implements_table:
  assumes "recv_bounded p" and "accept_fresh p" and "clean h"
    and "reach (fleet_step (broker_design k p)) (open_shop (fresh_broker e h)) b"
  shows "reach table_step Map.empty (fleet_table (broker_design k p) server_clients b)"
proof -
  note start = fresh_broker_facts[OF assms(1,2)]
  have c: "clean (calls (broker_design k p) (fresh_broker e h))" using assms(3) start(3) by simp
  show ?thesis
  proof (cases k)
    case Bro4
    with broker4.implements_table[of p "fresh_broker e h"] start c assms(4) show ?thesis by simp
  next
    case Bro6
    with broker6.implements_table[of p "fresh_broker e h"] start c assms(4) show ?thesis by simp
  qed
qed

text \<open>
  C31: The IPv6 server leaks every connection for as long as it lives: in every interleaving all
  descriptors it ever accepted are open and pairwise distinct, while none of its workers has made a
  single call.
\<close>

theorem broker6_leaks:
  assumes "recv_bounded p" and "accept_fresh p" and "clean h"
    and "reach (fleet_step (broker_design Bro6 p)) (open_shop (fresh_broker e h)) b"
  shows "open_fds (all_calls (broker_design Bro6 p) b) = open_fds h \<union> set (server_clients (acceptor b)) \<and>
    distinct (server_clients (acceptor b)) \<and> (\<forall>s\<in>set (crew b). whist s = [])"
proof -
  note start = fresh_broker_facts[OF assms(1,2)]
  have c: "clean (calls (broker_design Bro6 p) (fresh_broker e h))" using assms(3) start(3) by simp
  let ?ts = "team server_clients b"
  have idle: "whist s = []" if "(fd, s) \<in> set ?ts" for fd s
    using broker6.members[OF start(1,2) c assms(4) that] by (auto simp: ignoring_def ignored_inv_def)
  have len: "length (crew b) = length (server_clients (acceptor b))"
    using broker6.reach_fleet[OF start(1,2) c assms(4)] by (simp add: fleet_inv_def)
  then have ts: "map fst ?ts = server_clients (acceptor b)" "map snd ?ts = crew b" by (simp_all add: team_def)
  have "live_team whist ?ts = ?ts" unfolding live_team_def by (rule filter_True) (auto simp: idle)
  then have "live_fds whist ?ts = server_clients (acceptor b)" using ts(1) by (simp add: live_fds_def)
  moreover have "\<forall>s\<in>set (crew b). whist s = []" using idle by (auto simp flip: ts(2))
  ultimately show ?thesis using broker6.descriptors[OF start(1,2) c assms(4)] by (auto simp: start(3))
qed

theorem broker6_leaks_witness:
  "\<exists>b. reach (fleet_step (broker_design Bro6 busy_platform)) sample_broker b \<and>
    open_fds (all_calls (broker_design Bro6 busy_platform) b) = {4}"
proof -
  obtain b where r: "sched (broker_next Bro6 busy_platform) [Accept, Client 0 Main, Client 0 Recv, Accept] sample_broker = Some b"
    and c: "server_clients (acceptor b) = [4]" using six_run by blast
  have reach: "reach (fleet_step (broker_design Bro6 busy_platform)) sample_broker b" by (rule broker_sched_reach[OF r])
  have "clean []" by simp
  from broker6_leaks[OF busy_platform_laws this reach] reach c show ?thesis by auto
qed

end
