(* ===== verification/Worker_Refinement.thy ===== *)
theory Worker_Refinement
  imports Client_Life Broker_Properties
begin

text \<open>
  The worker of a broker's IPv4 client as an implementation of an abstract collector.
\<close>

subsection \<open>An abstract collector\<close>

text \<open>A broker's worker without a response: it only ever collects bytes, then closes.\<close>

inductive collect_step :: "byte list \<times> bool \<Rightarrow> byte list \<times> bool \<Rightarrow> bool" where
  collect: "collect_step (xs, True) (xs @ ys, True)"
| finish: "collect_step (xs, True) (xs, False)"

definition collected :: "int \<Rightarrow> worker \<Rightarrow> byte list \<times> bool" where
  "collected fd s = ((case mContext s of None \<Rightarrow> [] | Some c \<Rightarrow> mRequest c @ pending (rpc s)), live fd (whist s))"

lemma collected_received: "closed_inv p fd [] s \<Longrightarrow> collected fd s = (received fd (whist s), live fd (whist s))"
  by (auto simp: collected_def closed_inv_def quiet_inv_def)

lemma collect_refine:
  assumes "closed_inv p fd [] s" and "closed_step p s t"
  shows "collected fd t = collected fd s \<or> collect_step (collected fd s) (collected fd t)"
proof -
  note t = closed_inv_step[OF assms(2,1)]
  have fd: "fd \<noteq> INVALID_FD" using assms(1) by (auto simp: closed_inv_def client_inv_def)
  obtain evs where e: "client_calls fd (whist s) evs" "whist t = evs @ whist s"
    using closed_step_calls[OF assms(2,1)] by blast
  then show ?thesis
    using fd unfolding collected_received[OF assms(1)] collected_received[OF t] client_calls_def
    by (auto simp: received_recv live_def intro: collect_step.intros)
qed

interpretation collector: refinement "closed_step p" "fresh_client p fd []" "closed_inv p fd []" collect_step "collected fd" for p fd
  by unfold_locales (rule collect_refine)

text \<open>
  The worker of an IPv4 client implements a collector: in every run each step of any of its
  threads appends bytes to what it has collected from its open connection, closes it, or does
  neither; nothing is ever collected after the close.
\<close>

lemma worker_implements_collector:
  assumes "recv_bounded p" and "client_context Bro4 c" and "fd = mClientFd c"
    and "reach (closed_step p) (ThreadsTcpBroWorker (Some c) []) s"
  shows "reach collect_step ([], True) (collected fd s)"
proof -
  have fresh: "fresh_client p fd [] (ThreadsTcpBroWorker (Some c) [])"
    using assms(1-3) by (auto simp: fresh_client_def client_context_def INVALID_FD_def)
  have "collected fd (ThreadsTcpBroWorker (Some c) []) = ([], True)"
    using assms(2) by (simp add: collected_def ThreadsTcpBroWorker_def client_context_def)
  with collector.refine_reach[OF assms(4) fresh] show ?thesis by simp
qed

end
