(* ===== verification/Worker_Runs.thy ===== *)
theory Worker_Runs
  imports Worker_Properties
begin

text \<open>
  How long a worker runs once its peer has gone: every step of its threads, in any order, brings it
  closer to the end, so that it stops after a bounded number of them.
\<close>

text \<open>
  A connection whose peer has closed it, or that fails otherwise than for the time being, once the
  calls \<open>h0\<close> have been made.
\<close>

definition peer_gone :: "platform \<Rightarrow> int \<Rightarrow> history \<Rightarrow> bool" where
  "peer_gone p fd h0 \<longleftrightarrow> (\<forall>evs. k_recv p (evs @ h0) fd MAX_MESSAGEBUFF_LEN 0 = Done [] \<or>
     (\<exists>e. k_recv p (evs @ h0) fd MAX_MESSAGEBUFF_LEN 0 = Fail e \<and> e \<noteq> EAGAIN \<and> e \<noteq> EWOULDBLOCK))"

lemma gone_leaves:
  assumes "peer_gone p fd h0" and "sys_recv p fd MAX_MESSAGEBUFF_LEN 0 (evs @ h0) = (r, bs, h')"
  shows "after_recv r bs h' = R_ExitClose"
proof -
  from assms(1) consider "k_recv p (evs @ h0) fd MAX_MESSAGEBUFF_LEN 0 = Done []"
    | e where "k_recv p (evs @ h0) fd MAX_MESSAGEBUFF_LEN 0 = Fail e" "e \<noteq> EAGAIN" "e \<noteq> EWOULDBLOCK"
    unfolding peer_gone_def by blast
  then show ?thesis
    by cases (use assms(2) in \<open>auto simp: sys_recv_def Let_def after_recv_def would_block_def to_c_int_def\<close>)
qed

lemma peer_gone_later: "peer_gone p fd h0 \<Longrightarrow> peer_gone p fd (evs @ h0)"
  unfolding peer_gone_def by (metis append_assoc)

lemma worker_step_extends:
  assumes "worker_step p s t"
  shows "\<exists>evs. whist t = evs @ whist s"
  using assms
proof (cases rule: worker_step.cases)
  case by_main
  then show ?thesis by (cases rule: main_step.cases) simp_all
next
  case by_recv
  then show ?thesis
  proof (cases rule: recv_step.cases)
    case (recv_call c r bs h)
    from sys_recv_event[OF recv_call(4)] recv_call(1) show ?thesis by simp
  qed (simp_all add: event_defs sys_close_def)
next
  case by_send
  have "send_body p fd bs n fl (tot, h) = Inr (tot', h') \<Longrightarrow> \<exists>evs. h' = evs @ h"
    "send_body p fd bs n fl (tot, h) = Inl (res, h') \<Longrightarrow> \<exists>evs. h' = evs @ h" for fd bs n fl tot h tot' h' res
    using send_body_event[of p fd bs n fl tot h _ tot' h' res] by (metis append_Cons append_Nil)+
  with by_send show ?thesis by (cases rule: send_step.cases) (simp_all add: event_defs sys_close_def)
qed

text \<open>How far each thread is from its end; a loop of the send thread is paid for by the event it consumes.\<close>

fun main_left :: "main_pc \<Rightarrow> nat" where
  "main_left M_Recv = 6"
| "main_left M_RecvAssign = 5"
| "main_left M_Send = 4"
| "main_left M_SendAssign = 3"
| "main_left M_JoinRecv = 2"
| "main_left M_JoinSend = 1"
| "main_left M_Done = 0"

fun recv_left :: "recv_pc \<Rightarrow> nat" where
  "recv_left R_Unborn = 10"
| "recv_left R_Start = 10"
| "recv_left (R_Append bs) = 9"
| "recv_left R_Top = 8"
| "recv_left R_Wait = 8"
| "recv_left R_Gate = 7"
| "recv_left R_Recv = 6"
| "recv_left R_ExitClose = 5"
| "recv_left R_ExitClear = 4"
| "recv_left R_ExitEnable = 3"
| "recv_left R_ExitInterrupt = 2"
| "recv_left R_ExitNotify = 1"
| "recv_left R_Done = 0"

fun send_left :: "send_pc \<Rightarrow> nat" where
  "send_left W_Unborn = 9"
| "send_left W_Start = 9"
| "send_left W_Copy = 11"
| "send_left (W_Send response) = 10"
| "send_left (W_Sending fd response tot) = 9"
| "send_left W_Top = 8"
| "send_left W_Gate = 7"
| "send_left W_Wait = 6"
| "send_left W_ExitClose = 5"
| "send_left W_ExitClear = 4"
| "send_left W_ExitEnable = 3"
| "send_left W_ExitInterrupt = 2"
| "send_left W_ExitNotify = 1"
| "send_left W_Done = 0"
| "send_left W_Undefined = 0"

definition steps_left :: "worker \<Rightarrow> nat" where
  "steps_left s = main_left (main s) + 6 * recv_left (rpc s) + send_left (wpc s) +
     5 * of_bool (mIsWriteEnabled s) + 2 * of_bool (write_note s)"

lemma steps_left_step:
  assumes "worker_step p s t" and "closed_inv p fd h0 s" and "peer_gone p fd (whist s)"
  shows "steps_left t < steps_left s"
proof -
  have ci: "client_inv fd h0 s" and q: "quiet_inv fd h0 s" using assms(2) by (simp_all add: closed_inv_def)
  have births: "main s = M_Recv \<Longrightarrow> rpc s = R_Unborn" "main s = M_Send \<Longrightarrow> wpc s = W_Unborn"
    using ci by (simp_all add: client_inv_def main_inv_def)
  from assms(1) show ?thesis
  proof (cases rule: worker_step.cases)
    case by_main
    then show ?thesis using births by (cases rule: main_step.cases) (simp_all add: steps_left_def)
  next
    case by_recv
    then show ?thesis
    proof (cases rule: recv_step.cases)
      case (recv_call c r bs h)
      have "mClientFd c = fd" using recv_live[OF ci q recv_call(2,3)] by simp
      with gone_leaves[OF assms(3), of "[]"] recv_call have "rpc t = R_ExitClose" by simp
      with recv_call(1,2) show ?thesis by (simp add: steps_left_def)
    next
      case recv_blocked
      with q show ?thesis by (simp add: quiet_inv_def)
    next
      case recv_woken
      with q show ?thesis by (simp add: quiet_inv_def)
    qed (simp_all add: steps_left_def event_defs)
  next
    case by_send
    then show ?thesis
    proof (cases rule: send_step.cases)
      case (send_loop fd' response tot tot' h)
      then have "response = []" using q by (simp add: quiet_inv_def)
      with send_loop show ?thesis by simp
    qed (auto simp: steps_left_def event_defs split: sum.splits)
  qed
qed

lemma steps_left_bound: "steps_left s \<le> 84"
proof -
  have "main_left (main s) \<le> 6" by (cases "main s") simp_all
  moreover have "recv_left (rpc s) \<le> 10" by (cases "rpc s") simp_all
  moreover have "send_left (wpc s) \<le> 11" by (cases "wpc s") simp_all
  ultimately show ?thesis unfolding steps_left_def by (cases "mIsWriteEnabled s"; cases "write_note s") simp_all
qed

interpretation worker_rest: resting_system "worker_step p" "\<lambda>s. closed_inv p fd h0 s \<and> peer_gone p fd (whist s)" steps_left
  for p fd h0
proof
  show "closed_inv p fd h0 t \<and> peer_gone p fd (whist t)"
    if "closed_inv p fd h0 s \<and> peer_gone p fd (whist s)" "worker_step p s t" for s t
    using that closed_inv_worker[of p s t fd h0] worker_step_extends[OF that(2)] peer_gone_later by auto
qed (use steps_left_step in blast)

text \<open>
  C19: When the peer of a client has gone, its worker comes to rest: from any state it can be in, its
  three threads take at most 84 more steps, in whatever order; every such run goes on to one that
  stops, and where it stops either \<open>doWork\<close> has returned, or the receive thread is gone and the send
  thread waits for an event that it has consumed.
\<close>

theorem worker_runs_end:
  assumes "fresh_client p fd h0 s0" and "reach (closed_step p) s0 s" and "peer_gone p fd (whist s)"
    and "(worker_step p ^^ n) s t"
  shows "n \<le> 84 \<and> (\<exists>m u. (worker_step p ^^ m) t u \<and> (\<forall>v. \<not> worker_step p u v)) \<and>
    ((\<forall>v. \<not> worker_step p t v) \<longrightarrow>
      main t = M_Done \<or> rpc t = R_Done \<and> wpc t = W_Wait \<and> \<not> mIsWriteEnabled t)"
proof -
  have i: "closed_inv p fd h0 s" by (rule quiet.reach_inv[OF assms(2,1)])
  then have r: "n + steps_left t \<le> steps_left s" "closed_inv p fd h0 t" "peer_gone p fd (whist t)"
    using worker_rest.run_bounded[OF assms(4)] assms(3) by blast+
  from r(2,3) have "\<exists>m u. (worker_step p ^^ m) t u \<and> (\<forall>v. \<not> worker_step p u v)"
    by (intro worker_rest.run_completes conjI)
  moreover have "main t = M_Done \<or> rpc t = R_Done \<and> wpc t = W_Wait \<and> \<not> mIsWriteEnabled t" if "\<forall>v. \<not> worker_step p t v"
  proof -
    have "wpc t \<noteq> W_Gate"
      using that worker_step.by_send[OF send_step.send_enabled] worker_step.by_send[OF send_step.send_blocked] by blast
    with closed_stuck[OF r(2)] that show ?thesis by (auto simp: lost_wakeup_def)
  qed
  ultimately show ?thesis using r(1) steps_left_bound[of s] by simp
qed

lemma eof_gone: "peer_gone eof_platform fd h"
  by (simp add: peer_gone_def eof_platform_recv)

theorem worker_runs_end_witness:
  "\<exists>t u. (worker_step eof_platform ^^ 20) (ThreadsTcpBroWorker (Some sample_context) []) t \<and> lost_wakeup t \<and>
    (\<exists>m. (worker_step eof_platform ^^ m) t u) \<and> main u \<noteq> M_Done \<and> (\<forall>v. \<not> worker_step eof_platform u v)"
proof -
  let ?s = "ThreadsTcpBroWorker (Some sample_context) []"
  have f: "fresh_client eof_platform 4 [] ?s" by (rule sample_fresh(2)[OF eof_platform_recv(2)])
  obtain t where t: "schedule eof_platform (start_worker @ [Recv, Recv, Recv, Recv, Send, Send, Send, Send, Send, Recv, Recv]) ?s = Some t"
    "lost_wakeup t" using schedule_loses_wakeup[of sample_context eof_platform "[]"] by (auto simp: eof_platform_recv)
  have "length (start_worker @ [Recv, Recv, Recv, Recv, Send, Send, Send, Send, Send, Recv, Recv]) = 20"
    by (simp add: start_worker_def)
  then have n: "(worker_step eof_platform ^^ 20) ?s t" using sched_run[OF actor_next_step t(1)] by (simp only:)
  from worker_runs_end[OF f reach_start eof_gone n] obtain m u where
    u: "(worker_step eof_platform ^^ m) t u" "\<forall>v. \<not> worker_step eof_platform u v" by blast
  have "reach (closed_step eof_platform) t u" by (rule reach_mono[OF reach_run[OF u(1)]]) (rule by_worker)
  with lost_wakeup_reach[OF this t(2) quiet.reach_inv[OF schedule_closed[OF t(1)] f]] have "main u \<noteq> M_Done" by simp
  with n t(2) u show ?thesis by blast
qed

end
