(* ===== verification/Open_Broker.thy ===== *)
theory Open_Broker
  imports Broker_Properties
begin

text \<open>
  The IPv4 broker server in an application that uses its workers to the full: at any moment it may
  store a response in a client's context and enable or disable the events of a worker.  On a system
  whose \<open>send\<close> does not answer 0, descriptors and requests are as safe as without the application;
  the responses are not.
\<close>

subsection \<open>A worker under an application\<close>

text \<open>The send thread leaves only when the receive thread has interrupted it.\<close>

fun send_leaves :: "send_pc \<Rightarrow> bool" where
  "send_leaves W_ExitClose = True"
| "send_leaves W_ExitClear = True"
| "send_leaves W_ExitEnable = True"
| "send_leaves W_ExitInterrupt = True"
| "send_leaves W_ExitNotify = True"
| "send_leaves W_Done = True"
| "send_leaves _ = False"

definition open_inv :: "platform \<Rightarrow> int \<Rightarrow> worker \<Rightarrow> bool" where
  "open_inv p fd s \<longleftrightarrow> recv_bounded p \<and> send_never_zero p \<and> client_inv fd [] s \<and>
     (\<exists>c. mContext s = Some c \<and> received fd (whist s) = mRequest c @ pending (rpc s)) \<and>
     (send_intr s \<or> send_leaves (wpc s) \<longrightarrow> 2 \<le> recv_stage (rpc s))"

lemma send_never_false:
  assumes "send_never_zero p" and "send_body p fd data (to_size_t (int (length data))) fl (tot, h) = Inl (res, h')"
  shows "res \<noteq> Inr False"
proof
  assume f: "res = Inr False"
  let ?len = "to_size_t (int (length data))"
  let ?part = "take (unat (?len - tot)) (drop (unat tot) data)"
  have lt: "tot < ?len" and in_range: "\<not> length data < unat tot + unat (?len - tot)"
    and zero: "to_size_t (c_ret id (k_send p h fd ?part fl)) = 0"
    using assms(2) f by (auto simp: body_defs sys_simps Let_def split: if_splits sum.splits)
  have "0 < unat (?len - tot)" using lt by (metis less_imp_neq right_minus_eq unat_gt_0)
  then have "?part \<noteq> []" using in_range by auto
  from send_never_zeroD[OF assms(1) this] zero show False by blast
qed

lemma send_body_calls:
  "send_body p fd data len fl (tot, h) = Inr (tot', h') \<Longrightarrow> \<exists>bs r. h' = E_send fd bs fl r # h"
  "send_body p fd data len fl (tot, h) = Inl (res, h') \<Longrightarrow> h' = h \<or> (\<exists>bs r. h' = E_send fd bs fl r # h)"
  by (auto simp: body_defs sys_simps Let_def split: if_splits sum.splits)

lemma open_reads:
  assumes "open_inv p fd s" and "rpc s = R_Recv" and "mContext s = Some c"
  shows "mClientFd c = fd \<and> live fd (whist s)"
proof -
  have "\<not> send_leaves (wpc s)" using assms(1,2) by (auto simp: open_inv_def)
  then have w: "send_phase (wpc s) = Before" by (cases "wpc s") simp_all
  have ok: "fd_ok fd 0 (mClientFd c) (closes_of fd (whist s)) (ctx_mutex s) Before Before"
    using assms w by (auto simp: open_inv_def client_inv_def fd_inv_def)
  moreover have "ctx_mutex s = None" using ok by (cases "ctx_mutex s"; cases "the (ctx_mutex s)") (auto simp: fd_ok_def)
  ultimately show ?thesis by (auto simp: fd_ok_def live_def)
qed

lemma open_inv_main:
  assumes "main_step s t" and "open_inv p fd s"
  shows "open_inv p fd t \<and> whist t = whist s"
proof -
  have ct: "client_inv fd [] t" using client_inv_worker[of p s t] assms by (auto simp: open_inv_def intro: by_main)
  have "main_inv s" using assms(2) by (simp add: open_inv_def client_inv_def)
  then have "main s = M_Recv \<Longrightarrow> rpc s = R_Unborn" "main s = M_Send \<Longrightarrow> wpc s = W_Unborn"
    by (simp_all add: main_inv_def)
  with assms(2) ct show ?thesis
    unfolding open_inv_def by (cases rule: main_step.cases[OF assms(1)]) simp_all
qed

lemma open_inv_recv:
  assumes "recv_step p s t" and "open_inv p fd s"
  shows "open_inv p fd t \<and> (\<exists>evs. client_calls fd (whist s) evs \<and> whist t = evs @ whist s)"
proof -
  have ci: "client_inv fd [] s" using assms(2) by (simp add: open_inv_def)
  have ct: "client_inv fd [] t" using client_inv_worker[OF worker_step.by_recv[OF assms(1)] ci] .
  note none = client_step_calls(1)[of "whist t" "whist s" fd]
  from assms(1) show ?thesis
  proof (cases rule: recv_step.cases)
    case (recv_call c r bs h)
    have fd: "mClientFd c = fd" "live fd (whist s)" using open_reads[OF assms(2) recv_call(2,3)] by simp_all
    have "recv_bounded p" using assms(2) by (simp add: open_inv_def)
    note a = after_recv_cases[OF this recv_call(4)]
    have "open_inv p fd t" using assms(2) ct recv_call(1-3) a fd(1) by (auto simp: open_inv_def)
    moreover have "\<exists>evs. client_calls fd (whist s) evs \<and> whist t = evs @ whist s"
      using sys_recv_event[OF recv_call(4)] recv_call(1) fd by (intro client_step_calls(2)) simp_all
    ultimately show ?thesis ..
  next
    case (recv_close c)
    have "open_inv p fd t" using assms(2) ct recv_close by (auto simp: open_inv_def sys_simps)
    moreover have "\<exists>evs. client_calls fd (whist s) evs \<and> whist t = evs @ whist s"
      using recv_close closing_live[OF ci] by (intro client_step_calls(4)) simp_all
    ultimately show ?thesis ..
  next
    case recv_cast_null
    with ci show ?thesis by (auto simp: client_inv_def fd_inv_def cast_ipv4_Some)
  qed (use assms(2) ct none in \<open>auto simp: open_inv_def event_defs\<close>)
qed

lemma open_inv_send:
  assumes "send_step p s t" and "open_inv p fd s"
  shows "open_inv p fd t \<and> (\<exists>evs. client_calls fd (whist s) evs \<and> whist t = evs @ whist s)"
proof -
  have ci: "client_inv fd [] s" and z: "send_never_zero p" using assms(2) by (simp_all add: open_inv_def)
  have ct: "client_inv fd [] t" using client_inv_worker[OF worker_step.by_send[OF assms(1)] ci] .
  note none = client_step_calls(1)[of "whist t" "whist s" fd]
  from assms(1) show ?thesis
  proof (cases rule: send_step.cases)
    case (send_loop fd' response tot tot' h)
    obtain bs r where "h = E_send fd' bs 0 r # whist s" using send_body_calls(1)[OF send_loop(3)] by blast
    moreover from this have "open_inv p fd t" using assms(2) ct send_loop by (auto simp: open_inv_def)
    ultimately show ?thesis using send_loop(1) by (intro conjI client_step_calls(3)) simp_all
  next
    case (send_return fd' response tot res h)
    have "res \<noteq> Inr False" using send_never_false[OF z send_return(3)] .
    then have w: "send_leaves (wpc t) = False" using send_return(1) by (auto split: sum.splits)
    have h: "whist t = whist s \<or> (\<exists>bs r. whist t = E_send fd' bs 0 r # whist s)"
      using send_body_calls(2)[OF send_return(3)] send_return(1) by simp
    then have "received fd (whist t) = received fd (whist s)" by auto
    moreover have "mContext t = mContext s" "rpc t = rpc s" "send_intr t = send_intr s" by (simp_all add: send_return(1))
    ultimately have "open_inv p fd t" using assms(2) ct w by (simp add: open_inv_def)
    moreover have "\<exists>evs. client_calls fd (whist s) evs \<and> whist t = evs @ whist s"
      using h by (elim disjE exE) (erule client_step_calls(1), erule client_step_calls(3))
    ultimately show ?thesis ..
  next
    case (send_close c)
    have "open_inv p fd t" using assms(2) ct send_close by (auto simp: open_inv_def sys_simps)
    moreover have "\<exists>evs. client_calls fd (whist s) evs \<and> whist t = evs @ whist s"
      using send_close closing_live[OF ci] by (intro client_step_calls(4)) simp_all
    ultimately show ?thesis ..
  next
    case send_cast_null
    with ci show ?thesis by (auto simp: client_inv_def fd_inv_def cast_ipv4_Some)
  qed (use assms(2) ct none in \<open>auto simp: open_inv_def event_defs\<close>)
qed

lemma open_inv_step:
  assumes "open_step p s t" and "open_inv p fd s"
  shows "open_inv p fd t \<and> (\<exists>evs. client_calls fd (whist s) evs \<and> whist t = evs @ whist s)"
proof -
  have ct: "client_inv fd [] t" using client_inv_open[OF assms(1)] assms(2) by (simp add: open_inv_def)
  note none = client_step_calls(1)[of "whist t" "whist s" fd]
  from assms(1) show ?thesis
  proof (cases rule: open_step.cases)
    case by_closed
    then show ?thesis
    proof (cases rule: closed_step.cases)
      case by_worker
      then show ?thesis
        by (cases rule: worker_step.cases) (use assms(2) none open_inv_main open_inv_recv open_inv_send in blast)+
    qed (use assms(2) ct none in \<open>auto simp: open_inv_def\<close>)
  next
    case by_app
    then show ?thesis
      by (cases rule: app_step.cases) (use assms(2) ct none in \<open>auto simp: open_inv_def event_defs\<close>)
  qed
qed

subsection \<open>The server under an application\<close>

definition open_broker_design :: "platform \<Rightarrow> (server_state, worker) design" where
  "open_broker_design p =
     (broker_design Bro4 p)\<lparr>thread_step := (\<lambda>H s t. open_step (localise p H (whist s)) s t)\<rparr>"

lemma open_broker_sel [simp]:
  "turn (open_broker_design p) = server_body Bro4 p" "calls (open_broker_design p) = calls (broker_design Bro4 p)"
  "log_calls (open_broker_design p) = log_calls (broker_design Bro4 p)"
  "newest (open_broker_design p) = newest (broker_design Bro4 p)"
  "thread_step (open_broker_design p) H s t = open_step (localise p H (whist s)) s t"
  "own_calls (open_broker_design p) = whist" "down (open_broker_design p) s = (wpc s = W_Undefined)"
  by (simp_all add: open_broker_design_def broker_design_def)

definition open_sound :: "platform \<Rightarrow> server_state \<Rightarrow> bool" where
  "open_sound p s \<longleftrightarrow> broker_sound Bro4 p s \<and> send_never_zero p"

lemma fresh_open:
  assumes "recv_bounded p" and "send_never_zero p" and "client_context Bro4 c"
  shows "open_inv p (mClientFd c) (ThreadsTcpBroWorker (Some c) [])"
proof -
  have "closed_inv p (mClientFd c) [] (ThreadsTcpBroWorker (Some c) [])" using assms(1,3) by (rule fresh_good) simp
  then show ?thesis using assms(2)
    by (auto simp: open_inv_def closed_inv_def quiet_inv_def ThreadsTcpBroWorker_def)
qed

interpretation open4: fleet "open_broker_design p" "open_sound p" server_clients "open_inv p" False for p
proof
  let ?D = "open_broker_design p"
  show "open_sound p s' \<and> (\<exists>opts l r. list_all is_option opts \<and> calls ?D s' = opts @ E_accept l r # calls ?D s \<and>
      0 \<le> c_ret id r \<and> c_ret id r \<notin> open_fds (calls ?D s) \<and> server_clients s' = server_clients s @ [c_ret id r] \<and>
      open_inv p (c_ret id r) (newest ?D s') \<and> own_calls ?D (newest ?D s') = [])"
    if s: "open_sound p s" "turn ?D s = Inr s'" for s s'
  proof -
    have b: "broker_sound Bro4 p s" "send_never_zero p" "recv_bounded p" using s(1) by (simp_all add: open_sound_def broker_sound_def)
    from broker_accepts[OF b(1) s(2)[unfolded open_broker_sel]] obtain l r c where
      t: "broker_sound Bro4 p s'" "calls ?D s' = E_accept l r # calls ?D s" "0 \<le> c_ret id r" "c_ret id r \<notin> open_fds (calls ?D s)"
        "server_clients s' = server_clients s @ [c_ret id r]" "client_context Bro4 c" "mClientFd c = c_ret id r"
        "newest ?D s' = ThreadsTcpBroWorker (Some c) []" by auto
    have "open_inv p (c_ret id r) (newest ?D s')" using fresh_open[OF b(3,2) t(6)] t(7,8) by simp
    moreover have "own_calls ?D (newest ?D s') = []" by (simp add: t(8)[unfolded open_broker_sel] ThreadsTcpBroWorker_def)
    ultimately show ?thesis using t(1-5) b(2) by (intro conjI exI[of _ "[]"] exI[of _ l] exI[of _ r]) (simp_all add: open_sound_def)
  qed
  show "open_sound p s' \<and> server_clients s' = server_clients s \<and>
      (\<exists>opts l r. list_all is_option opts \<and> calls ?D s' = opts @ E_accept l r # calls ?D s \<and>
        (0 \<le> c_ret id r \<longrightarrow> False \<and> c_ret id r \<notin> open_fds (calls ?D s)))"
    if "open_sound p s" "turn ?D s = Inl (b, s')" for s b s'
    using broker_leaves[of Bro4 p s b s'] that by (auto simp: open_sound_def intro!: exI[of _ "[]"])
  show "open_sound p (log_calls ?D evs s) \<and> server_clients (log_calls ?D evs s) = server_clients s \<and>
      calls ?D (log_calls ?D evs s) = evs @ calls ?D s" if "open_sound p s" for s evs
    using broker_logs[of Bro4 p s evs] that by (simp add: open_sound_def)
  show "open_inv p fd t \<and> (\<exists>evs. client_calls fd (own_calls ?D c) evs \<and> own_calls ?D t = evs @ own_calls ?D c)"
    if c: "open_inv p fd c" "thread_step ?D H c t" for fd c H t
  proof -
    have "open_inv (localise p H (whist c)) fd c"
      using c(1) localise_bounded[of p H "whist c"] localise_never_zero[of p H "whist c"] by (simp add: open_inv_def)
    from open_inv_step[OF c(2)[unfolded open_broker_sel] this] c(1) show ?thesis by (simp add: open_inv_def)
  qed
qed

subsection \<open>Runs\<close>

datatype app_actor = Thread actor | Respond "byte list" | Enable_read | Enable_write | Disable_read | Disable_write

fun app_next :: "platform \<Rightarrow> app_actor \<Rightarrow> worker \<Rightarrow> worker option" where
  "app_next p (Thread a) s = actor_next p a s"
| "app_next p (Respond bs) s = map_option (\<lambda>c. s\<lparr>mContext := Some (c\<lparr>mResponse := bs\<rparr>)\<rparr>) (mContext s)"
| "app_next p Enable_read s = Some (enableReadEvent s)"
| "app_next p Enable_write s = Some (enableWriteEvent s)"
| "app_next p Disable_read s = Some (disbaleReadEvent s)"
| "app_next p Disable_write s = Some (disbaleWriteEvent s)"

lemma app_next_step: "app_next p a s = Some t \<Longrightarrow> open_step p s t"
  by (cases a) (auto intro: open_step.intros app_step.intros closed_step.by_worker actor_next_step)

definition open_next ::
  "platform \<Rightarrow> app_actor move \<Rightarrow> (server_state, worker) fleet_state \<Rightarrow> (server_state, worker) fleet_state option" where
  "open_next p = fleet_next (open_broker_design p) (\<lambda>H a s. app_next (localise p H (whist s)) a s)"

lemma open_sched_reach:
  "sched (open_next p) as b = Some b' \<Longrightarrow> reach (fleet_step (open_broker_design p)) b b'"
  unfolding open_next_def by (erule fleet_sched_reach[rotated]) (auto intro: app_next_step)

text \<open>A system that accepts as descriptor 4 whenever 4 is free, and whose \<open>send\<close> takes two bytes at most.\<close>

definition app_platform :: platform where
  "app_platform = busy_platform\<lparr>k_send := \<lambda>h fd bs fl. Done (min 2 (int (length bs)))\<rparr>"

lemma app_platform_laws: "recv_bounded app_platform" "accept_fresh app_platform" "send_never_zero app_platform"
  using busy_platform_laws
  by (auto simp: app_platform_def send_never_zero_def recv_bounded_def accept_fresh_def)

text \<open>
  The first client's send thread has read the descriptor for its response when the receive thread
  closes it; the number is given to a second connection before the bytes are sent.
\<close>

definition misdirected :: "app_actor move list" where
  "misdirected = [Accept] @ map (Client 0 \<circ> Thread) [Main, Main, Main, Main, Recv, Recv, Recv, Recv, Send, Recv, Recv, Recv] @
     [Client 0 (Respond [1, 2]), Client 0 Enable_write] @
     map (Client 0 \<circ> Thread) [Send, Send, Send, Send, Recv, Recv, Recv] @ [Accept, Client 0 (Thread Send)]"

lemma misdirected_run:
  "\<exists>b. sched (open_next app_platform) misdirected sample_broker = Some b \<and> server_clients (acceptor b) = [4, 4] \<and>
    length (crew b) = 2 \<and> live 4 (whist (crew b ! 1)) \<and> whist (crew b ! 1) = [] \<and>
    conn_sent 4 (all_calls (open_broker_design app_platform) b) = [1, 2] \<and>
    conn_stream 4 (all_calls (open_broker_design app_platform) b) = []"
  by (simp add: misdirected_def open_next_def broker_eval app_platform_def busy_platform_def live_def server_clients_def
      event_defs to_size_t_def)

lemma misdirected_state:
  "\<exists>b s. reach (fleet_step (open_broker_design app_platform)) sample_broker b \<and> server_clients (acceptor b) = [4, 4] \<and>
    (4, s) \<in> set (team server_clients b) \<and> live 4 (whist s) \<and> whist s = [] \<and>
    conn_stream 4 (all_calls (open_broker_design app_platform) b) = [] \<and>
    conn_sent 4 (all_calls (open_broker_design app_platform) b) = [1, 2]"
proof -
  obtain b where r: "sched (open_next app_platform) misdirected sample_broker = Some b"
    and b: "server_clients (acceptor b) = [4, 4]" "length (crew b) = 2" "live 4 (whist (crew b ! 1))"
      "whist (crew b ! 1) = []" "conn_sent 4 (all_calls (open_broker_design app_platform) b) = [1, 2]"
      "conn_stream 4 (all_calls (open_broker_design app_platform) b) = []" using misdirected_run by blast
  obtain s t where "crew b = [s, t]" using b(2) by (auto simp: numeral_2_eq_2 length_Suc_conv)
  then have "(4, crew b ! 1) \<in> set (team server_clients b)" using b(1) by (simp add: team_def)
  with open_sched_reach[OF r] b show ?thesis by blast
qed

text \<open>One client that sends \<open>hi\<close> and is answered by the application.\<close>

definition answered_once :: "app_actor move list" where
  "answered_once = [Accept] @ map (Client 0 \<circ> Thread) [Main, Main, Main, Main, Recv, Recv, Recv, Recv, Recv] @
     [Client 0 (Respond [1, 2]), Client 0 Enable_write] @ map (Client 0 \<circ> Thread) [Send, Send, Send, Send, Send, Send]"

lemma answered_state:
  "\<exists>b s. reach (fleet_step (open_broker_design app_platform)) sample_broker b \<and>
    (4, s) \<in> set (team server_clients b) \<and> live 4 (whist s) \<and> sent 4 (whist s) = [1, 2] \<and>
    conn_stream 4 (all_calls (open_broker_design app_platform) b) = [104, 105]"
proof -
  have "\<exists>b. sched (open_next app_platform) answered_once sample_broker = Some b \<and> server_clients (acceptor b) = [4] \<and>
      length (crew b) = 1 \<and> live 4 (whist (crew b ! 0)) \<and> sent 4 (whist (crew b ! 0)) = [1, 2] \<and>
      conn_stream 4 (all_calls (open_broker_design app_platform) b) = [104, 105]"
    by (simp add: answered_once_def open_next_def broker_eval app_platform_def busy_platform_def live_def server_clients_def
        event_defs to_size_t_def)
  then obtain b where r: "sched (open_next app_platform) answered_once sample_broker = Some b"
    and b: "server_clients (acceptor b) = [4]" "length (crew b) = 1" "live 4 (whist (crew b ! 0))"
      "sent 4 (whist (crew b ! 0)) = [1, 2]" "conn_stream 4 (all_calls (open_broker_design app_platform) b) = [104, 105]"
    by blast
  obtain s where "crew b = [s]" using b(2) by (auto simp: length_Suc_conv)
  then have "(4, crew b ! 0) \<in> set (team server_clients b)" using b(1) by (simp add: team_def)
  with open_sched_reach[OF r] b show ?thesis by blast
qed

subsection \<open>Properties\<close>

lemma open_facts:
  assumes "recv_bounded p" and "accept_fresh p" and "send_never_zero p"
  shows "open_sound p (fresh_broker e h)" "server_clients (fresh_broker e h) = []"
    "calls (open_broker_design p) (fresh_broker e h) = h"
  using fresh_broker_facts[OF assms(1,2)] assms(3) by (simp_all add: open_sound_def)

lemma open_done:
  assumes "open_inv p fd s" and "main s = M_Done"
  shows "\<not> live fd (whist s)"
  using client_inv_closes[of fd "[]" s] assms by (simp add: open_inv_def live_def)

text \<open>
  C5: Whatever an application does with the workers' public functions and the clients' responses,
  in every interleaving of the IPv4 server and all its clients each close of a real descriptor
  closes one that is open, no two live clients share a descriptor, and the process has open what it
  had before and the descriptors of its live clients; when all workers have finished, none of
  theirs.
\<close>

theorem open_broker_descriptors:
  assumes "recv_bounded p" and "accept_fresh p" and "send_never_zero p" and "clean h"
    and "reach (fleet_step (open_broker_design p)) (open_shop (fresh_broker e h)) b"
  defines "H \<equiv> all_calls (open_broker_design p) b" and "clients \<equiv> team server_clients b"
  shows "clean H \<and> distinct (live_fds whist clients) \<and> open_fds H = open_fds h \<union> set (live_fds whist clients) \<and>
    ((\<forall>(fd, s)\<in>set clients. main s = M_Done) \<longrightarrow> open_fds H = open_fds h)"
proof -
  note start = open_facts[OF assms(1-3)]
  have c: "clean (calls (open_broker_design p) (fresh_broker e h))" using assms(4) start(3) by simp
  from open4.descriptors[OF start(1,2) c assms(5)] have d: "clean H" "distinct (live_fds whist clients)"
    "open_fds H = open_fds h \<union> set (live_fds whist clients)"
    using start(3) by (auto simp: H_def clients_def simp del: open_broker_sel(2))
  have "\<not> live fd (whist s)" if "(fd, s) \<in> set clients" "main s = M_Done" for fd s
    using open4.members[OF start(1,2) c assms(5)] that open_done unfolding clients_def by blast
  then have "live_fds whist clients = []" if "\<forall>(fd, s)\<in>set clients. main s = M_Done"
    using that by (auto simp: live_fds_def live_team_def filter_empty_conv)
  with d show ?thesis by auto
qed

theorem open_broker_descriptors_witness:
  "\<exists>b. reach (fleet_step (open_broker_design app_platform)) sample_broker b \<and> server_clients (acceptor b) = [4, 4] \<and>
    conn_sent 4 (all_calls (open_broker_design app_platform) b) = [1, 2] \<and>
    clean (all_calls (open_broker_design app_platform) b) \<and> distinct (live_fds whist (team server_clients b))"
proof -
  obtain b where b: "reach (fleet_step (open_broker_design app_platform)) sample_broker b" "server_clients (acceptor b) = [4, 4]"
    "conn_sent 4 (all_calls (open_broker_design app_platform) b) = [1, 2]" using misdirected_state by blast
  have "clean []" by simp
  from open_broker_descriptors[OF app_platform_laws this b(1)] b show ?thesis by blast
qed

text \<open>
  C2: Nor can an application, or one client, spoil the request of another: the request of a live
  client, with what its receive thread is about to append, is exactly what arrived on its own
  connection since it was accepted.
\<close>

theorem open_broker_isolation:
  assumes "recv_bounded p" and "accept_fresh p" and "send_never_zero p" and "clean h"
    and "reach (fleet_step (open_broker_design p)) (open_shop (fresh_broker e h)) b"
    and "(fd, s) \<in> set (team server_clients b)" and "live fd (whist s)"
  shows "\<exists>c. mContext s = Some c \<and> conn_stream fd (all_calls (open_broker_design p) b) = mRequest c @ pending (rpc s)"
proof -
  note start = open_facts[OF assms(1-3)]
  have c: "clean (calls (open_broker_design p) (fresh_broker e h))" using assms(4) start(3) by simp
  from open4.members[OF start(1,2) c assms(5,6)] assms(7) have "open_inv p fd s"
    "conn_stream fd (all_calls (open_broker_design p) b) = received fd (whist s)" by auto
  then show ?thesis by (auto simp: open_inv_def)
qed

theorem open_broker_isolation_witness:
  "\<exists>b s c. reach (fleet_step (open_broker_design app_platform)) sample_broker b \<and>
    (4, s) \<in> set (team server_clients b) \<and> sent 4 (whist s) = [1, 2] \<and> mContext s = Some c \<and>
    mRequest c @ pending (rpc s) = [104, 105]"
proof -
  obtain b s where b: "reach (fleet_step (open_broker_design app_platform)) sample_broker b"
    "(4, s) \<in> set (team server_clients b)" "live 4 (whist s)" "sent 4 (whist s) = [1, 2]"
    "conn_stream 4 (all_calls (open_broker_design app_platform) b) = [104, 105]" using answered_state by blast
  have "clean []" by simp
  from open_broker_isolation[OF app_platform_laws this b(1-3)] b show ?thesis by metis
qed

text \<open>
  C24: But responses can go astray, although all the laws hold: there is a run in which a client's
  send thread has read the descriptor, its receive thread closes it, the system gives the number to
  a new connection, and \<open>send_bytes\<close> sends the response of the first client there.
\<close>

theorem open_broker_cross_talk:
  "\<exists>p b s. recv_bounded p \<and> accept_fresh p \<and> send_never_zero p \<and>
    reach (fleet_step (open_broker_design p)) sample_broker b \<and> (4, s) \<in> set (team server_clients b) \<and>
    live 4 (whist s) \<and> whist s = [] \<and> conn_stream 4 (all_calls (open_broker_design p) b) = [] \<and>
    conn_sent 4 (all_calls (open_broker_design p) b) = [1, 2]"
proof -
  obtain b s where "reach (fleet_step (open_broker_design app_platform)) sample_broker b"
    "(4, s) \<in> set (team server_clients b)" "live 4 (whist s)" "whist s = []"
    "conn_stream 4 (all_calls (open_broker_design app_platform) b) = []"
    "conn_sent 4 (all_calls (open_broker_design app_platform) b) = [1, 2]" using misdirected_state by blast
  with app_platform_laws show ?thesis by (intro exI[of _ app_platform] exI[of _ b] exI[of _ s] conjI)
qed

end
