(* ===== verification/Worker_Waiting.thy ===== *)
theory Worker_Waiting
  imports Open_Broker
begin

text \<open>
  An application and a worker whose threads wait: \<open>enableReadEvent\<close> and \<open>enableWriteEvent\<close> set a
  flag and notify nobody, so a thread that waits for the flag is not woken by them.
\<close>

subsection \<open>Steps without spurious wake-ups\<close>

inductive steady_step :: "platform \<Rightarrow> worker \<Rightarrow> worker \<Rightarrow> bool" for p :: platform where
  steady_worker: "worker_step p s t \<Longrightarrow> steady_step p s t"
| steady_app: "app_step s t \<Longrightarrow> steady_step p s t"

lemma steady_open: "steady_step p s t \<Longrightarrow> open_step p s t"
  by (induction rule: steady_step.induct) (auto intro: by_closed by_worker by_app)

lemma send_body_sent:
  assumes "fd' \<noteq> fd"
  shows "send_body p fd' bs n fl (tot, h) = Inr (tot', h') \<Longrightarrow> sent fd h' = sent fd h"
    "send_body p fd' bs n fl (tot, h) = Inl (res, h') \<Longrightarrow> sent fd h' = sent fd h"
proof -
  have other: "sent fd (E_send fd' xs fl' r # h) = sent fd h" for xs fl' r using assms by (cases r) simp_all
  show "send_body p fd' bs n fl (tot, h) = Inr (tot', h') \<Longrightarrow> sent fd h' = sent fd h"
    by (drule send_body_calls(1)) (auto simp: other)
  show "send_body p fd' bs n fl (tot, h) = Inl (res, h') \<Longrightarrow> sent fd h' = sent fd h"
    by (drule send_body_calls(2)) (auto simp: other)
qed

subsection \<open>A send thread that waits\<close>

text \<open>
  The send thread waits, or the receive thread has left, and with it the descriptor; a transfer
  under way goes somewhere else.
\<close>

definition unheard :: "int \<Rightarrow> history \<Rightarrow> worker \<Rightarrow> bool" where
  "unheard fd h0 s \<longleftrightarrow> client_inv fd h0 s \<and>
     (wpc s = W_Wait \<and> \<not> write_note s \<or> rpc s = R_Done \<and> (\<forall>r tot. wpc s \<noteq> W_Sending fd r tot))"

lemma gone_descriptor:
  assumes "client_inv fd h0 s" and "rpc s = R_Done" and "mContext s = Some c"
  shows "mClientFd c = INVALID_FD \<and> fd \<noteq> INVALID_FD"
  using assms by (auto simp: client_inv_def fd_inv_def fd_ok_def)

lemma unheard_main:
  assumes "main_step s t" and "unheard fd h0 s" and "client_inv fd h0 t"
  shows "unheard fd h0 t \<and> whist t = whist s"
proof -
  have "main_inv s" using assms(2) by (simp add: unheard_def client_inv_def)
  then have "main s = M_Recv \<Longrightarrow> rpc s = R_Unborn \<and> wpc s = W_Unborn" "main s = M_Send \<Longrightarrow> wpc s = W_Unborn"
    by (simp_all add: main_inv_def)
  with assms(2,3) show ?thesis unfolding unheard_def by (cases rule: main_step.cases[OF assms(1)]) simp_all
qed

lemma unheard_recv:
  assumes "recv_step p s t" and "unheard fd h0 s" and "client_inv fd h0 t"
  shows "unheard fd h0 t \<and> sent fd (whist t) = sent fd (whist s)"
  using assms(1)
proof (cases rule: recv_step.cases)
  case (recv_call c r bs h)
  then have "whist t = E_recv (mClientFd c) (k_recv p (whist s) (mClientFd c) MAX_MESSAGEBUFF_LEN 0) # whist s"
    using sys_recv_event by simp
  then show ?thesis using assms(2,3) recv_call(1,2) by (auto simp: unheard_def)
qed (use assms(2,3) in \<open>auto simp: unheard_def event_defs sys_close_def\<close>)

lemma unheard_send:
  assumes "send_step p s t" and "unheard fd h0 s" and "client_inv fd h0 t"
  shows "unheard fd h0 t \<and> sent fd (whist t) = sent fd (whist s)"
  using assms(1)
proof (cases rule: send_step.cases)
  case (send_call response c)
  then have "mClientFd c \<noteq> fd" using gone_descriptor[of fd h0 s c] assms(2) by (auto simp: unheard_def)
  with send_call assms(2,3) show ?thesis by (auto simp: unheard_def)
next
  case (send_loop fd' response tot tot' h)
  then have "fd' \<noteq> fd" using assms(2) by (auto simp: unheard_def)
  note send_body_sent(1)[OF this send_loop(3)]
  with send_loop(1,2) assms(2,3) show ?thesis by (auto simp: unheard_def)
next
  case (send_return fd' response tot res h)
  then have "fd' \<noteq> fd" using assms(2) by (auto simp: unheard_def)
  note send_body_sent(2)[OF this send_return(3)]
  with send_return(1,2) assms(2,3) show ?thesis by (auto simp: unheard_def split: sum.splits)
qed (use assms(2,3) in \<open>auto simp: unheard_def event_defs sys_close_def\<close>)

lemma unheard_step:
  assumes "steady_step p s t" and "unheard fd h0 s"
  shows "unheard fd h0 t \<and> sent fd (whist t) = sent fd (whist s)"
proof -
  have ct: "client_inv fd h0 t"
    using client_inv_open[OF steady_open[OF assms(1)]] assms(2) by (simp add: unheard_def)
  from assms(1) show ?thesis
  proof (cases rule: steady_step.cases)
    case steady_worker
    then show ?thesis
      using unheard_main[OF _ assms(2) ct] unheard_recv[OF _ assms(2) ct] unheard_send[OF _ assms(2) ct]
      by (cases rule: worker_step.cases) simp_all
  next
    case steady_app
    then show ?thesis using assms(2) ct by (cases rule: app_step.cases) (simp_all add: unheard_def event_defs)
  qed
qed

subsection \<open>A receive thread that waits\<close>

definition paused :: "platform \<Rightarrow> int \<Rightarrow> worker \<Rightarrow> bool" where
  "paused p fd s \<longleftrightarrow> open_inv p fd s \<and> rpc s = R_Wait \<and> \<not> read_note s"

lemma paused_step:
  assumes "steady_step p s t" and "paused p fd s"
  shows "paused p fd t \<and> received fd (whist t) = received fd (whist s)"
proof -
  have ot: "open_inv p fd t" and os: "open_inv p fd s"
    using open_inv_step[OF steady_open[OF assms(1)]] assms(2) by (simp_all add: paused_def)
  have stay: "\<not> send_leaves (wpc s)" and m: "main_inv s"
    using assms(2) by (auto simp: paused_def open_inv_def client_inv_def)
  have r: "rpc s = R_Wait" "\<not> read_note s" using assms(2) by (simp_all add: paused_def)
  have p: "rpc t = R_Wait \<and> \<not> read_note t \<and> mContext t \<noteq> None \<and> (\<forall>c. mContext s = Some c \<longrightarrow>
      (\<exists>c'. mContext t = Some c' \<and> mRequest c' = mRequest c))"
    using assms(1)
  proof (cases rule: steady_step.cases)
    case steady_worker
    then show ?thesis
    proof (cases rule: worker_step.cases)
      case by_main
      moreover have "main s \<noteq> M_Recv" using r(1) m by (auto simp: main_inv_def)
      ultimately show ?thesis using r os by (cases rule: main_step.cases) (auto simp: open_inv_def)
    next
      case by_recv
      then show ?thesis using r by (cases rule: recv_step.cases) simp_all
    next
      case by_send
      then show ?thesis using r stay os by (cases rule: send_step.cases) (auto simp: open_inv_def)
    qed
  next
    case steady_app
    then show ?thesis using r os by (cases rule: app_step.cases) (auto simp: event_defs open_inv_def)
  qed
  with ot os r show ?thesis by (auto simp: paused_def open_inv_def)
qed

lemma paused_live:
  assumes "paused p fd s"
  shows "main s \<noteq> M_Done \<and> live fd (whist s)"
proof -
  have "\<not> send_leaves (wpc s)" using assms by (auto simp: paused_def open_inv_def)
  then have w: "send_phase (wpc s) = Before" by (cases "wpc s") simp_all
  have r: "rpc s = R_Wait" and ci: "client_inv fd [] s" using assms by (simp_all add: paused_def open_inv_def)
  obtain c :: socket_context where ok: "fd_ok fd 0 (mClientFd c) (closes_of fd (whist s)) (ctx_mutex s) Before Before"
    using ci r w by (auto simp: client_inv_def fd_inv_def)
  then have "ctx_mutex s = None" by (cases "ctx_mutex s"; cases "the (ctx_mutex s)") (auto simp: fd_ok_def)
  with ok have "live fd (whist s)" by (auto simp: fd_ok_def live_def)
  moreover have "main s \<noteq> M_Done" using ci r by (auto simp: client_inv_def main_inv_def)
  ultimately show ?thesis by simp
qed

subsection \<open>Properties\<close>

text \<open>
  C7: A send thread that waits is deaf: \<open>enableWriteEvent\<close> notifies nobody.  Once the send thread
  waits on its condition and no notification is under way, then, whatever the application stores and
  enables and however the threads run, it is not woken before the receive thread has left, and not a
  byte is sent on the client's descriptor any more, unless by a spurious wake-up.
\<close>

theorem worker_wait_is_deaf:
  assumes "fresh_worker fd h0 s0" and "reach (open_step p) s0 s" and "wpc s = W_Wait" and "\<not> write_note s"
    and "reach (steady_step p) s t"
  shows "(wpc t = W_Wait \<or> rpc t = R_Done) \<and> sent fd (whist t) = sent fd (whist s)"
proof -
  have start: "unheard fd h0 s" using client.reach_inv[OF assms(2,1)] assms(3,4) by (simp add: unheard_def)
  from assms(5) have "unheard fd h0 t \<and> sent fd (whist t) = sent fd (whist s)"
  proof (induction rule: reach.induct)
    case (reach_step t u)
    then show ?case using unheard_step by metis
  qed (use start in simp)
  then show ?thesis by (auto simp: unheard_def)
qed

text \<open>Runs of the worker and its application without spurious wake-ups.\<close>

lemma app_next_steady: "app_next p a s = Some t \<Longrightarrow> steady_step p s t"
  by (cases a) (auto intro: steady_worker steady_app app_step.intros actor_next_step)

lemma steady_reach: "sched (app_next p) as s = Some t \<Longrightarrow> reach (steady_step p) s t"
  by (rule sched_reach) (rule app_next_steady)

lemma steady_reach_open: "sched (app_next p) as s = Some t \<Longrightarrow> reach (open_step p) s t"
  by (rule sched_reach) (rule app_next_step)

lemma started:
  "sched (app_next p) (map Thread start_worker) (ThreadsTcpBroWorker (Some sample_context) []) =
    Some \<lparr>whist = [], mContext = Some sample_context, mIsReadEnabled = True, mIsWriteEnabled = False,
      recv_alive = True, send_alive = True, recv_intr = False, send_intr = False,
      read_note = False, write_note = False, ctx_mutex = None,
      main = M_JoinRecv, rpc = R_Recv, wpc = W_Gate\<rparr>"
  by (simp add: start_worker_def ThreadsTcpBroWorker_def step_fun_defs cast_ipv4_Some)

theorem worker_wait_is_deaf_witness:
  "\<exists>s t c. reach (open_step app_platform) (ThreadsTcpBroWorker (Some sample_context) []) s \<and> wpc s = W_Wait \<and>
    reach (steady_step app_platform) s t \<and> mIsWriteEnabled t \<and> mContext t = Some c \<and> mResponse c = [1, 2] \<and>
    sent 4 (whist t) = []"
proof -
  let ?s0 = "ThreadsTcpBroWorker (Some sample_context) []" and ?ask = "[Respond [1, 2], Enable_write]"
  obtain s where s: "sched (app_next app_platform) (map Thread start_worker @ [Thread Send]) ?s0 = Some s"
    "wpc s = W_Wait" "\<not> write_note s" "whist s = []" "mContext s = Some sample_context"
    unfolding sched_append started by (simp add: step_fun_defs)
  obtain t c where t: "sched (app_next app_platform) ?ask s = Some t" "mIsWriteEnabled t" "mContext t = Some c"
    "mResponse c = [1, 2]" using s(5) by (simp add: event_defs)
  note r = steady_reach_open[OF s(1)] steady_reach[OF t(1)]
  from worker_wait_is_deaf[OF sample_fresh(1) r(1) s(2,3) r(2)] s(4) have "sent 4 (whist t) = []" by simp
  with r s(2) t show ?thesis by blast
qed

text \<open>
  C8: Disabling the read event can be for ever: \<open>enableReadEvent\<close> notifies nobody.  Once the receive
  thread waits, then, whatever the application does and however the threads run, it never
  reads again, \<open>doWork\<close> never returns and the client's descriptor is never closed, unless by a
  spurious wake-up.
\<close>

theorem worker_pause_is_forever:
  assumes "fresh_client p fd [] s0" and "send_never_zero p" and "reach (open_step p) s0 s"
    and "rpc s = R_Wait" and "\<not> read_note s" and "reach (steady_step p) s t"
  shows "rpc t = R_Wait \<and> main t \<noteq> M_Done \<and> received fd (whist t) = received fd (whist s) \<and> live fd (whist t)"
proof -
  have "open_inv p fd s0"
    using closed_inv_init[OF assms(1)] assms(1,2)
    by (auto simp: open_inv_def closed_inv_def quiet_inv_def fresh_client_def ThreadsTcpBroWorker_def)
  with assms(3) have "open_inv p fd s"
    by (induction rule: reach.induct) (use open_inv_step in blast)+
  with assms(4,5) have start: "paused p fd s" by (simp add: paused_def)
  from assms(6) have "paused p fd t \<and> received fd (whist t) = received fd (whist s)"
  proof (induction rule: reach.induct)
    case (reach_step t u)
    then show ?case using paused_step by metis
  qed (use start in simp)
  then show ?thesis using paused_live by (auto simp: paused_def)
qed

theorem worker_pause_is_forever_witness:
  "\<exists>s t. reach (open_step app_platform) (ThreadsTcpBroWorker (Some sample_context) []) s \<and> rpc s = R_Wait \<and>
    reach (steady_step app_platform) s t \<and> mIsReadEnabled t \<and> rpc t = R_Wait \<and> live 4 (whist t)"
proof -
  let ?s0 = "ThreadsTcpBroWorker (Some sample_context) []"
  obtain s where s: "sched (app_next app_platform)
      (map Thread start_worker @ [Thread Recv, Thread Recv, Disable_read, Thread Recv, Thread Recv]) ?s0 = Some s"
    "rpc s = R_Wait" "\<not> read_note s"
    unfolding sched_append started
    by (simp add: step_fun_defs event_defs sys_simps after_recv_def to_c_int_small app_platform_def busy_platform_def Let_def
        MAX_MESSAGEBUFF_LEN_def)
  obtain t where t: "sched (app_next app_platform) [Enable_read] s = Some t" "mIsReadEnabled t" by (simp add: event_defs)
  note r = steady_reach_open[OF s(1)] steady_reach[OF t(1)]
  from worker_pause_is_forever[OF sample_fresh(2)[OF app_platform_laws(1)] app_platform_laws(3) r(1) s(2,3) r(2)]
  have "rpc t = R_Wait" "live 4 (whist t)" by simp_all
  with r s(2) t show ?thesis by blast
qed

end
