(* ===== verification/Worker_Answers.thy ===== *)
theory Worker_Answers
  imports Worker_Waiting "HOL-Library.Sublist"
begin

text \<open>
  What a worker that does not wait sends: response by response what the application has stored,
  no more often than it has asked.  An observer keeps a journal of the application's requests and of
  the responses the send thread takes.
\<close>

subsection \<open>The journal of an application\<close>

text \<open>
  What an observer of the worker writes down: how often the application has enabled the write
  event, the responses the context has held, oldest first, and the responses the send thread has
  handed to \<open>IOHelper::send_bytes\<close>, each with the descriptor it read for it.
\<close>

record journal =
  asked :: nat
  stored :: "byte list list"
  taken :: "(int \<times> byte list) list"

inductive journal_step :: "platform \<Rightarrow> worker \<times> journal \<Rightarrow> worker \<times> journal \<Rightarrow> bool" for p :: platform where
  note_enable: "journal_step p (s, j) (enableWriteEvent s, j\<lparr>asked := Suc (asked j)\<rparr>)"
| note_response: "mContext s = Some c \<Longrightarrow>
     journal_step p (s, j) (s\<lparr>mContext := Some (c\<lparr>mResponse := bs\<rparr>)\<rparr>, j\<lparr>stored := stored j @ [bs]\<rparr>)"
| note_app: "app_step s t \<Longrightarrow> mContext t = mContext s \<Longrightarrow> (mIsWriteEnabled t \<Longrightarrow> mIsWriteEnabled s) \<Longrightarrow>
     journal_step p (s, j) (t, j)"
| note_taken: "send_step p s t \<Longrightarrow> wpc s = W_Send response \<Longrightarrow> mContext s = Some c \<Longrightarrow>
     journal_step p (s, j) (t, j\<lparr>taken := taken j @ [(mClientFd c, response)]\<rparr>)"
| note_nothing: "closed_step p s t \<Longrightarrow> (\<forall>response. wpc s = W_Send response \<longrightarrow> wpc t = wpc s) \<Longrightarrow>
     journal_step p (s, j) (t, j)"

text \<open>Every step of the worker under its application is noted, and nothing else is.\<close>

lemma journal_sound: "journal_step p (s, j) (t, j') \<Longrightarrow> open_step p s t"
  by (cases rule: journal_step.cases) (auto intro: by_closed by_worker by_send by_app app_step.intros)

lemma keeps_sending:
  "main_step s t \<Longrightarrow> main_inv s \<Longrightarrow> wpc s = W_Send r \<Longrightarrow> wpc t = wpc s"
  "recv_step p s t \<Longrightarrow> wpc t = wpc s"
  by (auto simp: main_inv_def event_defs elim!: main_step.cases recv_step.cases)

lemma journal_closed:
  assumes "closed_step p s t" and "main_inv s" and "mContext s \<noteq> None"
  shows "\<exists>j'. journal_step p (s, j) (t, j')"
proof (cases "\<forall>response. wpc s = W_Send response \<longrightarrow> wpc t = wpc s")
  case True
  with assms(1) have "journal_step p (s, j) (t, j)" by (rule note_nothing)
  then show ?thesis ..
next
  case False
  then obtain r where r: "wpc s = W_Send r" "wpc t \<noteq> wpc s" by blast
  from assms(1) have "send_step p s t"
  proof (cases rule: closed_step.cases)
    case by_worker
    then show ?thesis using keeps_sending assms(2) r by (cases rule: worker_step.cases) auto
  qed (use r in auto)
  with r(1) assms(3) show ?thesis by (blast intro: note_taken)
qed

lemma journal_complete:
  assumes "open_step p s t" and "client_inv fd h0 s"
  shows "\<exists>j'. journal_step p (s, j) (t, j')"
proof -
  have i: "main_inv s" "mContext s \<noteq> None" using assms(2) by (auto simp: client_inv_def fd_inv_def)
  from assms(1) show ?thesis
  proof (cases rule: open_step.cases)
    case by_closed
    then show ?thesis using i by (rule journal_closed)
  next
    case by_app
    then show ?thesis
    proof (cases rule: app_step.cases)
      case app_enable_write
      then show ?thesis by (auto intro: note_enable)
    next
      case (app_response c bs)
      then show ?thesis by (auto intro: note_response)
    qed (use by_app in \<open>auto simp: event_defs intro!: exI[of _ j] note_app\<close>)
  qed
qed

subsection \<open>Which responses are sent\<close>

text \<open>\<open>picked rs st\<close>: the entries of \<open>rs\<close> are entries of \<open>st\<close>, in their order; some may be skipped or repeated.\<close>

fun picked :: "'a list \<Rightarrow> 'a list \<Rightarrow> bool" where
  "picked [] st \<longleftrightarrow> True"
| "picked (r # rs) [] \<longleftrightarrow> False"
| "picked (r # rs) (x # st) \<longleftrightarrow> r = x \<and> picked rs (x # st) \<or> picked (r # rs) st"

lemma picked_later: "picked rs st \<Longrightarrow> picked rs (st @ [x])"
  by (induction rs st rule: picked.induct) auto

lemma picked_last: "picked rs st \<Longrightarrow> st \<noteq> [] \<Longrightarrow> picked (rs @ [last st]) st"
proof (induction rs st rule: picked.induct)
  case (1 st)
  then show ?case by (induction st) auto
qed auto

lemma picked_mem: "picked rs st \<Longrightarrow> r \<in> set rs \<Longrightarrow> r \<in> set st"
  by (induction rs st rule: picked.induct) auto

fun copied :: "send_pc \<Rightarrow> byte list list" where
  "copied (W_Send response) = [response]"
| "copied _ = []"

definition order_inv :: "worker \<times> journal \<Rightarrow> bool" where
  "order_inv = (\<lambda>(s, j). stored j \<noteq> [] \<and> (\<forall>c. mContext s = Some c \<longrightarrow> mResponse c = last (stored j)) \<and>
     picked (map snd (taken j) @ copied (wpc s)) (stored j))"

lemma copied_other: "(\<forall>response. w \<noteq> W_Send response) \<Longrightarrow> copied w = []"
  by (cases w) simp_all

lemma closed_responses:
  assumes "closed_step p s t" and "\<forall>response. wpc s = W_Send response \<longrightarrow> wpc t = wpc s"
  shows "\<forall>c'. mContext t = Some c' \<longrightarrow> (\<exists>c. mContext s = Some c \<and> mResponse c' = mResponse c)" (is ?same)
    and "copied (wpc t) = copied (wpc s) \<or>
      (\<exists>c. mContext s = Some c \<and> copied (wpc s) = [] \<and> copied (wpc t) = [mResponse c])" (is ?copy)
proof -
  have "?same \<and> ?copy" using assms(1)
  proof (cases rule: closed_step.cases)
    case by_worker
    then show ?thesis
    proof (cases rule: worker_step.cases)
      case by_main
      then show ?thesis using assms(2) copied_other[of "wpc s"] by (cases rule: main_step.cases) auto
    next
      case by_recv
      then show ?thesis by (cases rule: recv_step.cases) (auto simp: event_defs)
    next
      case by_send
      then show ?thesis
      proof (cases rule: send_step.cases)
        case (send_return fd response tot res h)
        then have "copied (wpc t) = []" "copied (wpc s) = []" by (auto split: sum.splits)
        with send_return(1) show ?thesis by simp
      qed (use assms(2) in \<open>auto simp: event_defs\<close>)
    qed
  qed auto
  then show ?same ?copy by simp_all
qed

lemma order_inv_step:
  assumes "journal_step p sj tj" and "order_inv sj"
  shows "order_inv tj"
  using assms(1)
proof (cases rule: journal_step.cases)
  case (note_enable s j)
  with assms(2) show ?thesis by (simp add: order_inv_def event_defs)
next
  case (note_response s c j bs)
  with assms(2) show ?thesis by (simp add: order_inv_def picked_later)
next
  case (note_app s t j)
  have "wpc t = wpc s" using note_app(3) by (cases rule: app_step.cases) (simp_all add: event_defs)
  with note_app assms(2) show ?thesis by (simp add: order_inv_def)
next
  case (note_taken s t response c j)
  then have "wpc t = W_Sending (mClientFd c) response 0" "mContext t = mContext s"
    by (auto simp: send_step_iff send_next_def)
  with note_taken assms(2) show ?thesis by (simp add: order_inv_def)
next
  case (note_nothing s t j)
  note c = closed_responses[OF note_nothing(3,4)]
  have held: "stored j \<noteq> []" "\<forall>c. mContext s = Some c \<longrightarrow> mResponse c = last (stored j)"
    and pick: "picked (map snd (taken j) @ copied (wpc s)) (stored j)"
    using assms(2) note_nothing(1) by (simp_all add: order_inv_def)
  have "picked (map snd (taken j) @ copied (wpc t)) (stored j)"
    using c(2) pick picked_last[OF pick held(1)] held(2) by auto
  moreover have "\<forall>c. mContext t = Some c \<longrightarrow> mResponse c = last (stored j)" using c(1) held(2) by auto
  ultimately show ?thesis using held(1) by (simp add: order_inv_def note_nothing(2))
qed

subsection \<open>How many responses are sent\<close>

definition answers :: "int \<Rightarrow> journal \<Rightarrow> byte list list" where
  "answers fd j = map snd (filter (\<lambda>(fd', response). fd' = fd) (taken j))"

text \<open>The send thread has consumed the event for a response it has not handed on yet.\<close>

fun under_way :: "send_pc \<Rightarrow> nat" where
  "under_way W_Copy = 1"
| "under_way (W_Send response) = 1"
| "under_way _ = 0"

abbreviation due :: "worker \<Rightarrow> nat" where
  "due s \<equiv> of_bool (mIsWriteEnabled s) + under_way (wpc s)"

definition count_inv :: "int \<Rightarrow> worker \<times> journal \<Rightarrow> bool" where
  "count_inv fd = (\<lambda>(s, j). client_inv fd [] s \<and> length (answers fd j) \<le> asked j \<and>
     (recv_phase (rpc s) \<noteq> After \<longrightarrow> length (answers fd j) + due s \<le> asked j))"

lemma under_way_main: "main_step s t \<Longrightarrow> main_inv s \<Longrightarrow> under_way (wpc t) = under_way (wpc s)"
  by (cases rule: main_step.cases) (auto simp: main_inv_def)

lemma closed_due:
  assumes "closed_step p s t" and "main_inv s" and "recv_phase (rpc t) \<noteq> After"
  shows "recv_phase (rpc s) \<noteq> After \<and> due t \<le> due s"
  using assms(1)
proof (cases rule: closed_step.cases)
  case by_worker
  then show ?thesis
  proof (cases rule: worker_step.cases)
    case by_main
    have "main s = M_Recv \<Longrightarrow> rpc s = R_Unborn" using assms(2) by (simp add: main_inv_def)
    with under_way_main[OF by_main assms(2)] assms(3) show ?thesis by (cases rule: main_step.cases[OF by_main]) auto
  next
    case by_recv
    then show ?thesis using assms(3) by (cases rule: recv_step.cases) (simp_all add: event_defs)
  next
    case by_send
    then show ?thesis using assms(3)
      by (cases rule: send_step.cases) (auto simp: event_defs split: sum.splits)
  qed
qed (use assms(3) in auto)

lemma count_inv_step:
  assumes "journal_step p sj tj" and "count_inv fd sj"
  shows "count_inv fd tj"
proof -
  obtain s j t j' where sj: "sj = (s, j)" "tj = (t, j')" by (cases sj; cases tj)
  have inv: "client_inv fd [] s" "length (answers fd j) \<le> asked j"
    "recv_phase (rpc s) \<noteq> After \<Longrightarrow> length (answers fd j) + due s \<le> asked j"
    using assms(2) by (simp_all add: count_inv_def sj)
  have ct: "client_inv fd [] t" using client_inv_open[OF journal_sound[of p s j t j']] assms(1) inv(1) by (simp add: sj)
  from assms(1)[unfolded sj] show ?thesis
  proof (cases rule: journal_step.cases)
    case note_enable
    with inv ct show ?thesis by (auto simp: count_inv_def sj answers_def event_defs)
  next
    case (note_response c bs)
    with inv ct show ?thesis by (auto simp: count_inv_def sj answers_def)
  next
    case note_app
    have "wpc t = wpc s \<and> rpc t = rpc s" using note_app(2) by (cases rule: app_step.cases) (simp_all add: event_defs)
    with note_app(1,4) inv ct show ?thesis by (auto simp: count_inv_def sj)
  next
    case (note_taken response c)
    have t: "t = s\<lparr>wpc := W_Sending (mClientFd c) response 0\<rparr>"
      using note_taken(2-4) by (auto simp: send_step_iff send_next_def)
    have "mClientFd c \<noteq> fd" if "recv_phase (rpc s) = After"
      using inv(1) note_taken(4) that by (auto simp: client_inv_def fd_inv_def fd_ok_def)
    with note_taken(1,3) inv ct show ?thesis
      by (cases "recv_phase (rpc s) = After") (auto simp: count_inv_def sj answers_def t)
  next
    case note_nothing
    have "main_inv s" using inv(1) by (simp add: client_inv_def)
    from closed_due[OF note_nothing(2) this] inv ct note_nothing(1) show ?thesis by (auto simp: count_inv_def sj)
  qed
qed

subsection \<open>What reaches the client\<close>

text \<open>
  Documented behaviour of \<open>send\<close> on a connected stream socket, for one descriptor and as long as it
  is not closed: it takes at least one of the bytes it is offered, and no more than these.
\<close>

definition sends_while_live :: "platform \<Rightarrow> int \<Rightarrow> bool" where
  "sends_while_live p fd \<longleftrightarrow> (\<forall>h bs fl. live fd h \<longrightarrow>
     (\<exists>n. k_send p h fd bs fl = Done n \<and> 0 \<le> n \<and> n \<le> int (length bs) \<and> (bs \<noteq> [] \<longrightarrow> 0 < n)))"

text \<open>The same system with a \<open>send\<close> that makes progress everywhere.\<close>

definition elsewhere_fine :: "int \<Rightarrow> platform \<Rightarrow> platform" where
  "elsewhere_fine fd p = p\<lparr>k_send := (\<lambda>h fd' bs fl.
     if fd' = fd \<and> live fd h then k_send p h fd' bs fl else Done (int (length bs)))\<rparr>"

lemma elsewhere_fine_progresses:
  assumes "sends_while_live p fd"
  shows "send_progresses (elsewhere_fine fd p)"
proof -
  have k: "\<exists>n. k_send (elsewhere_fine fd p) h fd' bs fl = Done n \<and> 0 \<le> n \<and> n \<le> int (length bs) \<and> (bs \<noteq> [] \<longrightarrow> 0 < n)"
    for h fd' bs fl
    using assms unfolding sends_while_live_def elsewhere_fine_def by (cases "fd' = fd \<and> live fd h") simp_all
  show ?thesis unfolding send_progresses_def send_bounded_def using k by (metis sysres.inject(2))
qed

lemma live_turn:
  assumes "sends_while_live p fd" and "live fd h" and "int (length r) \<le> INT_MAX"
    and "sent_upto fd r (to_size_t (int (length r))) h1 (tot, h)"
  shows "(send_body p fd r (to_size_t (int (length r))) fl (tot, h) = Inl (Inr True, h) \<and> sent fd h = sent fd h1 @ r) \<or>
    (\<exists>tot' h'. send_body p fd r (to_size_t (int (length r))) fl (tot, h) = Inr (tot', h') \<and>
      sent_upto fd r (to_size_t (int (length r))) h1 (tot', h'))"
proof -
  let ?len = "to_size_t (int (length r))" and ?q = "elsewhere_fine fd p"
  have len: "unat ?len = length r" using assms(3) by (simp add: INT_MAX_def)
  have send: "sys_send ?q fd bs fl h = sys_send p fd bs fl h" for bs
    using assms(2) by (simp add: sys_send_def elsewhere_fine_def)
  have trace: "trace_enabled ?q = trace_enabled p" by (simp add: elsewhere_fine_def)
  have same: "send_body p fd r ?len fl (tot, h) = send_body ?q fd r ?len fl (tot, h)"
    unfolding body_defs prod.case send trace ..
  from send_progress_body[OF elsewhere_fine_progresses[OF assms(1)] _ assms(3,4), of fl] len
  show ?thesis unfolding same using assms(4) len by (auto simp: sent_upto_def)
qed

definition text_inv :: "int \<Rightarrow> worker \<times> journal \<Rightarrow> bool" where
  "text_inv fd = (\<lambda>(s, j).
     if \<exists>r tot. wpc s = W_Sending fd r tot
     then \<exists>r tot h1 earlier. wpc s = W_Sending fd r tot \<and> taken j = earlier @ [(fd, r)] \<and> r \<in> set (stored j) \<and>
       sent fd h1 = concat (answers fd (j\<lparr>taken := earlier\<rparr>)) \<and>
       sent_upto fd r (to_size_t (int (length r))) h1 (tot, whist s)
     else sent fd (whist s) = concat (answers fd j))"

abbreviation sending :: "int \<Rightarrow> send_pc \<Rightarrow> bool" where
  "sending fd w \<equiv> \<exists>r tot. w = W_Sending fd r tot"

lemma text_inv_same:
  assumes "text_inv fd (s, j)" and "sent fd (whist t) = sent fd (whist s)" and "taken j' = taken j"
    and "set (stored j) \<subseteq> set (stored j')" and "wpc t = wpc s \<or> \<not> sending fd (wpc s) \<and> \<not> sending fd (wpc t)"
  shows "text_inv fd (t, j')"
proof (cases "sending fd (wpc s)")
  case True
  with assms show ?thesis unfolding text_inv_def answers_def sent_upto_def by fastforce
next
  case False
  moreover from this assms(5) have "\<not> sending fd (wpc t)" by auto
  ultimately show ?thesis using assms(1-3) by (simp add: text_inv_def answers_def)
qed

lemma closed_sent:
  assumes "closed_step p s t" and "\<not> send_step p s t" and "main_inv s"
  shows "sent fd (whist t) = sent fd (whist s) \<and> (wpc t = wpc s \<or> \<not> sending fd (wpc s) \<and> \<not> sending fd (wpc t))"
  using assms(1)
proof (cases rule: closed_step.cases)
  case by_worker
  then show ?thesis
  proof (cases rule: worker_step.cases)
    case by_main
    then show ?thesis using assms(3) by (cases rule: main_step.cases) (auto simp: main_inv_def)
  next
    case by_recv
    then show ?thesis
    proof (cases rule: recv_step.cases)
      case (recv_call c r bs h)
      from sys_recv_event[OF recv_call(4)] recv_call(1) show ?thesis by simp
    qed (simp_all add: event_defs sys_close_def)
  qed (use assms(2) in simp)
qed auto

lemma send_keeps_text:
  assumes "send_step p s t" and "text_inv fd (s, j)" and "\<forall>response. wpc s = W_Send response \<longrightarrow> wpc t = wpc s"
    and "sends_while_live p fd" and "live fd (whist s)" and "\<forall>r\<in>set (stored j). int (length r) \<le> INT_MAX"
  shows "text_inv fd (t, j)"
proof -
  have at: "\<exists>h1 earlier. taken j = earlier @ [(fd, r)] \<and> r \<in> set (stored j) \<and>
      sent fd h1 = concat (answers fd (j\<lparr>taken := earlier\<rparr>)) \<and> sent_upto fd r (to_size_t (int (length r))) h1 (tot, whist s)"
    if "wpc s = W_Sending fd r tot" for r tot using assms(2) that by (auto simp: text_inv_def)
  have ans: "concat (answers fd j) = concat (answers fd (j\<lparr>taken := earlier\<rparr>)) @ r"
    if "taken j = earlier @ [(fd, r)]" for earlier r using that by (simp add: answers_def)
  from assms(1) show ?thesis
  proof (cases rule: send_step.cases)
    case (send_loop fd' r tot tot' h)
    show ?thesis
    proof (cases "fd' = fd")
      case True
      with at send_loop(2) obtain h1 earlier where o: "taken j = earlier @ [(fd, r)]" "r \<in> set (stored j)"
        "sent fd h1 = concat (answers fd (j\<lparr>taken := earlier\<rparr>))"
        "sent_upto fd r (to_size_t (int (length r))) h1 (tot, whist s)" by blast
      have "int (length r) \<le> INT_MAX" using assms(6) o(2) by blast
      from live_turn[OF assms(4,5) this o(4), of 0] send_loop(3) True
      have "sent_upto fd r (to_size_t (int (length r))) h1 (tot', h)" by auto
      with o(1-3) True send_loop(1) show ?thesis by (auto simp: text_inv_def)
    next
      case False
      from send_body_sent(1)[OF False send_loop(3)] send_loop(1,2) False
      show ?thesis by (intro text_inv_same[OF assms(2)]) auto
    qed
  next
    case (send_return fd' r tot res h)
    show ?thesis
    proof (cases "fd' = fd")
      case True
      with at send_return(2) obtain h1 earlier where o: "taken j = earlier @ [(fd, r)]" "r \<in> set (stored j)"
        "sent fd h1 = concat (answers fd (j\<lparr>taken := earlier\<rparr>))"
        "sent_upto fd r (to_size_t (int (length r))) h1 (tot, whist s)" by blast
      have "int (length r) \<le> INT_MAX" using assms(6) o(2) by blast
      from live_turn[OF assms(4,5) this o(4), of 0] send_return(3) True
      have "h = whist s" "sent fd h = sent fd h1 @ r" "res = Inr True" by auto
      with o(1,3) ans[OF o(1)] send_return(1) show ?thesis by (simp add: text_inv_def)
    next
      case False
      from send_body_sent(2)[OF False send_return(3)] send_return(1,2) False
      show ?thesis by (intro text_inv_same[OF assms(2)]) (auto split: sum.splits)
    qed
  next
    case (send_call response c)
    with assms(3) show ?thesis by auto
  qed (auto intro!: text_inv_same[OF assms(2)] simp: event_defs sys_close_def)
qed

lemma text_inv_step:
  assumes "journal_step p (s, j) (t, j')" and "text_inv fd (s, j)" and "main_inv s" and "order_inv (s, j)"
    and "sends_while_live p fd" and "live fd (whist s)" and "\<forall>r\<in>set (stored j). int (length r) \<le> INT_MAX"
  shows "text_inv fd (t, j')"
  using assms(1)
proof (cases rule: journal_step.cases)
  case note_enable
  then show ?thesis by (intro text_inv_same[OF assms(2)]) (auto simp: event_defs)
next
  case note_response
  then show ?thesis by (intro text_inv_same[OF assms(2)]) auto
next
  case note_app
  have "wpc t = wpc s \<and> whist t = whist s" using note_app(2) by (cases rule: app_step.cases) (simp_all add: event_defs)
  with note_app(1) show ?thesis by (intro text_inv_same[OF assms(2)]) auto
next
  case (note_taken response c)
  have t: "t = s\<lparr>wpc := W_Sending (mClientFd c) response 0\<rparr>"
    using note_taken(2-4) by (auto simp: send_step_iff send_next_def)
  have now: "sent fd (whist s) = concat (answers fd j)" using assms(2) note_taken(3) by (simp add: text_inv_def)
  have "response \<in> set (stored j)"
    using assms(4) picked_mem[of _ "stored j" response] note_taken(3) by (force simp: order_inv_def)
  then show ?thesis using note_taken(1) now
    by (auto simp: text_inv_def t answers_def sent_upto_def intro!: exI[of _ "whist s"])
next
  case note_nothing
  show ?thesis
  proof (cases "send_step p s t")
    case True
    from send_keeps_text[OF this assms(2) note_nothing(3) assms(5-7)] note_nothing(1) show ?thesis by simp
  next
    case False
    from closed_sent[OF note_nothing(2) this assms(3), of fd] note_nothing(1)
    show ?thesis by (intro text_inv_same[OF assms(2)]) auto
  qed
qed

subsection \<open>Runs of the journal\<close>

definition blank :: "worker \<Rightarrow> journal" where
  "blank s = \<lparr>asked = 0, stored = (case mContext s of None \<Rightarrow> [] | Some c \<Rightarrow> [mResponse c]), taken = []\<rparr>"

definition journal_start :: "int \<Rightarrow> worker \<times> journal \<Rightarrow> bool" where
  "journal_start fd = (\<lambda>(s, j). fresh_worker fd [] s \<and> j = blank s)"

definition journal_inv :: "platform \<Rightarrow> int \<Rightarrow> worker \<times> journal \<Rightarrow> bool" where
  "journal_inv p fd = (\<lambda>(s, j). client_inv fd [] s \<and> order_inv (s, j) \<and> count_inv fd (s, j) \<and>
     (sends_while_live p fd \<and> (\<forall>r\<in>set (stored j). int (length r) \<le> INT_MAX) \<and> live fd (whist s) \<longrightarrow> text_inv fd (s, j)))"

lemma journal_start_inv:
  assumes "journal_start fd sj"
  shows "journal_inv p fd sj"
proof -
  obtain s j where sj: "sj = (s, j)" "fresh_worker fd [] s" "j = blank s" using assms by (auto simp: journal_start_def)
  then obtain c where s: "s = ThreadsTcpBroWorker (Some c) []" by (auto simp: fresh_worker_def)
  have "client_inv fd [] s" using sj(2) by (rule client_inv_init)
  then show ?thesis
    by (simp add: journal_inv_def order_inv_def count_inv_def text_inv_def sj blank_def answers_def) (simp add: s ThreadsTcpBroWorker_def)
qed

lemma stored_grows: "journal_step p (s, j) (t, j') \<Longrightarrow> set (stored j) \<subseteq> set (stored j')"
  by (cases rule: journal_step.cases) auto

lemma send_step_extends: "send_step p s t \<Longrightarrow> live fd (whist t) \<Longrightarrow> live fd (whist s)"
  by (cases rule: send_step.cases)
    (auto simp: live_def event_defs sys_close_def send_body_closes split: if_splits)

lemma live_before:
  assumes "open_step p s t" and "live fd (whist t)"
  shows "live fd (whist s)"
  using assms(1)
proof (cases rule: open_step.cases)
  case by_closed
  then show ?thesis
  proof (cases rule: closed_step.cases)
    case by_worker
    then show ?thesis
    proof (cases rule: worker_step.cases)
      case by_main
      then show ?thesis using assms(2) by (cases rule: main_step.cases) simp_all
    next
      case by_recv
      then show ?thesis using assms(2)
      proof (cases rule: recv_step.cases)
        case (recv_call c r bs h)
        from sys_recv_event[OF recv_call(4)] recv_call(1) assms(2) show ?thesis by (simp add: live_def)
      qed (auto simp: live_def event_defs sys_close_def split: if_splits)
    next
      case by_send
      then show ?thesis using assms(2) by (rule send_step_extends)
    qed
  qed (use assms(2) in auto)
next
  case by_app
  then show ?thesis using assms(2) by (cases rule: app_step.cases) (simp_all add: event_defs)
qed

lemma journal_step_inv:
  assumes "journal_inv p fd sj" and "journal_step p sj tj"
  shows "journal_inv p fd tj"
proof -
  obtain s j t j' where sj: "sj = (s, j)" "tj = (t, j')" by (cases sj; cases tj)
  have st: "journal_step p (s, j) (t, j')" using assms(2) by (simp add: sj)
  have inv: "client_inv fd [] s" "order_inv (s, j)" "count_inv fd (s, j)" "main_inv s"
    using assms(1) by (simp_all add: journal_inv_def sj client_inv_def)
  have "text_inv fd (t, j')" if "sends_while_live p fd" "\<forall>r\<in>set (stored j'). int (length r) \<le> INT_MAX" "live fd (whist t)"
  proof -
    have small: "\<forall>r\<in>set (stored j). int (length r) \<le> INT_MAX" using stored_grows[OF st] that(2) by blast
    have l: "live fd (whist s)" using live_before[OF journal_sound[OF st] that(3)] .
    then have "text_inv fd (s, j)" using assms(1) that(1) small by (simp add: journal_inv_def sj)
    from text_inv_step[OF st this inv(4,2) that(1) l small] show ?thesis .
  qed
  then show ?thesis
    using client_inv_open[OF journal_sound[OF st] inv(1)] order_inv_step[OF st inv(2)] count_inv_step[OF st inv(3)]
    by (simp add: journal_inv_def sj)
qed

interpretation journal: invariant_system "journal_step p" "journal_start fd" "journal_inv p fd" for p fd
  by unfold_locales (fact journal_start_inv, fact journal_step_inv)




text \<open>A turn of a worker or of its application, with what is noted of it.\<close>

definition noted :: "app_actor \<Rightarrow> worker \<Rightarrow> journal \<Rightarrow> journal" where
  "noted a s j = (case a of
     Respond bs \<Rightarrow> j\<lparr>stored := stored j @ [bs]\<rparr>
   | Enable_write \<Rightarrow> j\<lparr>asked := Suc (asked j)\<rparr>
   | Thread Send \<Rightarrow> (case (wpc s, mContext s) of
       (W_Send response, Some c) \<Rightarrow> j\<lparr>taken := taken j @ [(mClientFd c, response)]\<rparr> | _ \<Rightarrow> j)
   | _ \<Rightarrow> j)"

definition journal_next :: "platform \<Rightarrow> app_actor \<Rightarrow> worker \<times> journal \<Rightarrow> (worker \<times> journal) option" where
  "journal_next p a = (\<lambda>(s, j). case app_next p a s of None \<Rightarrow> None | Some t \<Rightarrow>
     if a = Thread Main \<and> wpc t \<noteq> wpc s \<and> wpc s \<noteq> W_Unborn then None else Some (t, noted a s j))"

lemma thread_noted:
  assumes "actor_next p a s = Some t" and "a = Main \<Longrightarrow> wpc t = wpc s \<or> wpc s = W_Unborn"
  shows "journal_step p (s, j) (t, noted (Thread a) s j)"
proof -
  have c: "closed_step p s t" using actor_next_step[OF assms(1)] by (rule by_worker)
  show ?thesis
  proof (cases "a = Send \<and> (\<exists>r. wpc s = W_Send r)")
    case True
    then obtain r where r: "a = Send" "wpc s = W_Send r" by blast
    then have st: "send_step p s t" using assms(1) by (simp add: send_step_iff)
    then obtain ctx where "mContext s = Some ctx" using r(2) by (auto simp: send_step_iff send_next_def)
    from note_taken[OF st r(2) this] r \<open>mContext s = Some ctx\<close> show ?thesis by (simp add: noted_def)
  next
    case False
    have "\<forall>r. wpc s = W_Send r \<longrightarrow> wpc t = wpc s"
      using False assms keeps_sending(2)[of p s t] by (cases a) (auto simp: recv_step_iff)
    moreover have "noted (Thread a) s j = j" using False by (auto simp: noted_def split: actor.splits send_pc.splits)
    ultimately show ?thesis using note_nothing[OF c] by simp
  qed
qed

lemma journal_next_step:
  assumes "journal_next p a sj = Some tj"
  shows "journal_step p sj tj"
proof -
  obtain s j where sj: "sj = (s, j)" by (cases sj)
  obtain t where t: "app_next p a s = Some t" "tj = (t, noted a s j)"
      "a = Thread Main \<Longrightarrow> wpc t = wpc s \<or> wpc s = W_Unborn"
    using assms by (auto simp: sj journal_next_def split: option.splits if_splits)
  show ?thesis
  proof (cases a)
    case (Thread b)
    with t show ?thesis by (simp add: sj thread_noted)
  next
    case (Respond bs)
    with t show ?thesis by (auto simp: sj noted_def intro: note_response)
  next
    case Enable_write
    with t show ?thesis by (auto simp: sj noted_def intro: note_enable)
  qed (use t in \<open>auto simp: sj noted_def event_defs intro!: note_app app_step.intros[unfolded event_defs]\<close>)
qed

subsection \<open>Properties\<close>


text \<open>The application stores a response, asks for it, replaces it, and stores a third one.\<close>

definition chatty :: "app_actor list" where
  "chatty = map Thread start_worker @ [Respond [1, 2, 3], Enable_write] @ map Thread [Send, Send] @ [Respond [4]] @
     map Thread [Send, Send, Send, Send] @ [Respond [5, 6], Enable_write] @ map Thread [Send, Send, Send, Send, Send]"


lemma chatty_run:
  "\<exists>s j. sched (journal_next app_platform) chatty (ThreadsTcpBroWorker (Some sample_context) [],
      blank (ThreadsTcpBroWorker (Some sample_context) [])) = Some (s, j) \<and>
    stored j = [[], [1, 2, 3], [4], [5, 6]] \<and> taken j = [(4, [1, 2, 3]), (4, [5, 6])] \<and> asked j = 2 \<and> live 4 (whist s) \<and>
    (\<exists>tot. wpc s = W_Sending 4 [5, 6] tot)"
  by (simp add: chatty_def start_worker_def journal_next_def noted_def ThreadsTcpBroWorker_def step_fun_defs cast_ipv4_Some
      blank_def event_defs body_defs sys_simps Let_def app_platform_def busy_platform_def to_size_t_def live_def)

lemma journal_sched_reach: "sched (journal_next p) as sj = Some tj \<Longrightarrow> reach (journal_step p) sj tj"
  by (rule sched_reach) (rule journal_next_step)


text \<open>
  C16: The send thread sends nothing unasked: in every run, on every system, no more responses are handed to
  \<open>send_bytes\<close> for the client's descriptor than the application has enabled the write event; the
  event that the receive thread enables when it leaves never reaches that descriptor.
\<close>

theorem worker_answers_asked:
  assumes "fresh_worker fd [] s0" and "reach (journal_step p) (s0, blank s0) (s, j)"
  shows "length (answers fd j) \<le> asked j"
proof -
  have "journal_start fd (s0, blank s0)" using assms(1) by (simp add: journal_start_def)
  from journal.reach_inv[OF assms(2) this] show ?thesis by (simp add: journal_inv_def count_inv_def)
qed

theorem worker_answers_asked_witness:
  "\<exists>s j. reach (journal_step app_platform) (ThreadsTcpBroWorker (Some sample_context) [],
      blank (ThreadsTcpBroWorker (Some sample_context) [])) (s, j) \<and> answers 4 j = [[1, 2, 3], [5, 6]] \<and>
    asked j = 2 \<and> length (answers 4 j) \<le> 2"
proof -
  let ?s = "ThreadsTcpBroWorker (Some sample_context) []"
  obtain s j where r: "sched (journal_next app_platform) chatty (?s, blank ?s) = Some (s, j)"
    and j: "taken j = [(4, [1, 2, 3]), (4, [5, 6])]" "asked j = 2" using chatty_run by blast
  have a: "answers 4 j = [[1, 2, 3], [5, 6]]" by (simp add: answers_def j(1))
  from worker_answers_asked[OF sample_fresh(1) journal_sched_reach[OF r]] have "length (answers 4 j) \<le> 2" by (simp add: j(2))
  with journal_sched_reach[OF r] a j(2) show ?thesis by blast
qed

end
