(* ===== verification/Broker_Stop.thy ===== *)
theory Broker_Stop
  imports Broker_Properties
begin

text \<open>
  A broker server that another thread stops while it serves: the accept loop ends, the workers of
  the clients it has go on.
\<close>

subsection \<open>Stopping a server that has clients\<close>














end
