(* ===== verification/Broker_Shutdown.thy ===== *)
theory Broker_Shutdown
  imports Broker_Properties "HOL-Library.Multiset"
begin

text \<open>
  The end of a broker server: its queue goes with it, and a context that no worker holds any more
  is destroyed with the queue.
\<close>

subsection \<open>Destroying the queue\<close>

text \<open>The contexts that are destroyed, in the order in which their last reference goes.\<close>

definition destroy_queue :: "socket_context list \<Rightarrow> history \<Rightarrow> history" where
  "destroy_queue cs h = fold SocketContext_destroy cs h"

definition held_fds :: "socket_context list \<Rightarrow> int list" where
  "held_fds cs = filter (\<lambda>fd. fd \<noteq> INVALID_FD) (map mClientFd cs)"

text \<open>Destruction closes exactly the descriptors that are still in the contexts, each once.\<close>

lemma destroy_queue_closes:
  assumes "clean h" and "distinct (held_fds cs)" and "set (held_fds cs) \<subseteq> open_fds h"
  shows "clean (destroy_queue cs h) \<and> open_fds (destroy_queue cs h) = open_fds h - set (held_fds cs)"
  using assms
proof (induction cs arbitrary: h)
  case (Cons c cs)
  let ?h = "SocketContext_destroy c h"
  have "clean ?h" using Cons.prems by (auto simp: SocketContext_destroy_def sys_simps held_fds_def)
  moreover have "distinct (held_fds cs)" "set (held_fds cs) \<subseteq> open_fds ?h"
    using Cons.prems by (auto simp: SocketContext_destroy_def sys_simps held_fds_def image_iff split: if_splits)
  ultimately have "clean (destroy_queue cs ?h) \<and> open_fds (destroy_queue cs ?h) = open_fds ?h - set (held_fds cs)"
    by (rule Cons.IH)
  then show ?case by (auto simp: destroy_queue_def held_fds_def SocketContext_destroy_def sys_simps)
qed (simp add: destroy_queue_def held_fds_def)

text \<open>The contexts of workers: an IPv4 worker that is done has given its descriptor up.\<close>

definition contexts :: "worker list \<Rightarrow> socket_context list" where
  "contexts ss = map (\<lambda>s. the (mContext s)) ss"

lemma done_invalid:
  assumes "closed_inv p fd [] s" and "main s = M_Done"
  shows "mClientFd (the (mContext s)) = INVALID_FD"
proof -
  have "client_inv fd [] s" using assms(1) by (simp add: closed_inv_def)
  moreover from this have "recv_phase (rpc s) = After" using assms(2) by (simp add: client_inv_def main_inv_def)
  ultimately show ?thesis by (auto simp: client_inv_def fd_inv_def fd_ok_def)
qed

text \<open>
  When all workers are done, what their contexts still hold is what is still open of the clients.
\<close>

definition settled :: "history \<Rightarrow> history \<Rightarrow> socket_context list \<Rightarrow> bool" where
  "settled h H cs \<longleftrightarrow> clean H \<and> distinct (held_fds cs) \<and> open_fds H = open_fds h \<union> set (held_fds cs) \<and>
     open_fds h \<inter> set (held_fds cs) = {}"

lemma settled_broker4:
  assumes "recv_bounded p" and "accept_fresh p" and "clean h"
    and "reach (fleet_step (broker_design Bro4 p)) (open_shop (fresh_broker e h)) b"
    and "\<forall>s\<in>set (crew b). main s = M_Done"
  shows "settled h (all_calls (broker_design Bro4 p) b) (contexts (crew b))"
proof -
  let ?ts = "team server_clients b"
  note start = fresh_broker_facts[OF assms(1,2)]
  have c: "clean (calls (broker_design Bro4 p) (fresh_broker e h))" using assms(3) start(3) by simp
  have len: "length (crew b) = length (server_clients (acceptor b))"
    using broker4.reach_fleet[OF start(1,2) c assms(4)] by (simp add: fleet_inv_def)
  have dead: "\<not> live fd (whist s) \<and> mClientFd (the (mContext s)) = INVALID_FD" if "(fd, s) \<in> set ?ts" for fd s
  proof -
    have "main s = M_Done" using assms(5) set_zip_rightD[OF that[unfolded team_def]] by blast
    moreover have "closed_inv p fd [] s" using broker4.members[OF start(1,2) c assms(4) that] by blast
    ultimately show ?thesis using done_not_live done_invalid by simp
  qed
  then have "live_fds whist ?ts = []" by (auto simp: live_fds_def live_team_def filter_empty_conv)
  moreover have "\<forall>s\<in>set (crew b). mClientFd (the (mContext s)) = INVALID_FD"
    using dead by (metis in_set_impl_in_set_zip2 len team_def)
  then have "held_fds (contexts (crew b)) = []" by (simp add: held_fds_def contexts_def filter_empty_conv)
  ultimately show ?thesis using broker4.descriptors[OF start(1,2) c assms(4)] by (simp add: start(3) settled_def)
qed

lemma settled_broker6:
  assumes "recv_bounded p" and "accept_fresh p" and "clean h"
    and "reach (fleet_step (broker_design Bro6 p)) (open_shop (fresh_broker e h)) b"
  shows "settled h (all_calls (broker_design Bro6 p) b) (contexts (crew b))"
proof -
  let ?ts = "team server_clients b"
  note start = fresh_broker_facts[OF assms(1,2)]
  have c: "clean (calls (broker_design Bro6 p) (fresh_broker e h))" using assms(3) start(3) by simp
  have inv: "fleet_inv (broker_design Bro6 p) (broker_sound Bro6 p) server_clients ignoring False (open_fds h) b"
    using broker6.reach_fleet[OF start(1,2) c assms(4)] by (simp add: start(3))
  then have crew: "\<forall>(fd, s)\<in>set ?ts. crew_inv ignoring whist (open_fds h) (all_calls (broker_design Bro6 p) b) fd s"
    by (auto simp: fleet_inv_def team_inv_def)
  have mem: "whist s = [] \<and> mClientFd (the (mContext s)) = fd \<and> 0 \<le> fd \<and> fd \<notin> open_fds h"
    if "(fd, s) \<in> set ?ts" for fd s
    using crew that by (auto simp: crew_inv_def ignoring_def ignored_inv_def)
  have "live_team whist ?ts = ?ts" unfolding live_team_def by (rule filter_True) (auto dest: mem)
  then have live: "live_fds whist ?ts = map fst ?ts" by (simp add: live_fds_def)
  have "crew b = map snd ?ts" using inv by (simp add: fleet_inv_def team_def)
  then have "map mClientFd (contexts (crew b)) = map (\<lambda>x. mClientFd (the (mContext (snd x)))) ?ts"
    by (simp only: contexts_def list.map_comp comp_def)
  also have "\<dots> = map fst ?ts" by (rule map_cong[OF refl]) (auto dest: mem)
  finally have fds: "map mClientFd (contexts (crew b)) = map fst ?ts" .
  have "held_fds (contexts (crew b)) = map fst ?ts"
    unfolding held_fds_def fds by (rule filter_True) (auto simp: INVALID_FD_def dest: mem)
  moreover have "open_fds h \<inter> set (map fst ?ts) = {}" by (auto dest: mem)
  ultimately show ?thesis
    using broker6.descriptors[OF start(1,2) c assms(4)] by (simp add: start(3) settled_def live)
qed

text \<open>
  C26: Nothing is left when a broker server is gone: whichever of the two servers it is and however
  its threads interleaved, when all its workers are done and the server and its queue are destroyed,
  in any order of the contexts, every close has closed an open descriptor and the process has open
  exactly what it had before.  What the IPv6 server keeps for ever is kept by the queue.
\<close>

theorem broker_shutdown:
  assumes "recv_bounded p" and "accept_fresh p" and "clean h"
    and "reach (fleet_step (broker_design k p)) (open_shop (fresh_broker e h)) b"
    and "\<forall>s\<in>set (crew b). main s = M_Done" and "mset cs = mset (contexts (crew b))"
  defines "H \<equiv> destroy_queue cs (all_calls (broker_design k p) b)"
  shows "clean H \<and> open_fds H = open_fds h"
proof -
  have s: "settled h (all_calls (broker_design k p) b) (contexts (crew b))"
  proof (cases k)
    case Bro4
    from settled_broker4[OF assms(1-3) assms(4)[unfolded Bro4] assms(5)] show ?thesis by (simp add: Bro4)
  next
    case Bro6
    from settled_broker6[OF assms(1-3) assms(4)[unfolded Bro6]] show ?thesis by (simp add: Bro6)
  qed
  have held: "mset (held_fds cs) = mset (held_fds (contexts (crew b)))"
    unfolding held_fds_def mset_filter mset_map assms(6) ..
  have "distinct (held_fds cs)" "set (held_fds cs) = set (held_fds (contexts (crew b)))"
    using s mset_eq_imp_distinct_iff[OF held] mset_eq_setD[OF held] by (simp_all add: settled_def)
  with s destroy_queue_closes[of "all_calls (broker_design k p) b" cs] show ?thesis
    unfolding H_def settled_def by auto
qed

text \<open>The IPv6 server of the sample system: its client's worker is done, the queue closes the descriptor.\<close>

lemma six_done_run:
  "\<exists>b. sched (broker_next Bro6 busy_platform)
      [Accept, Client 0 Main, Client 0 Main, Client 0 Main, Client 0 Main, Client 0 Recv, Client 0 Send, Client 0 Main,
       Client 0 Main] sample_broker = Some b \<and>
    length (crew b) = 1 \<and> (\<forall>s\<in>set (crew b). main s = M_Done) \<and>
    open_fds (all_calls (broker_design Bro6 busy_platform) b) = {4}"
  by (simp add: broker_eval busy_platform_def)

theorem broker_shutdown_witness:
  "\<exists>b. reach (fleet_step (broker_design Bro6 busy_platform)) sample_broker b \<and> length (crew b) = 1 \<and>
    open_fds (all_calls (broker_design Bro6 busy_platform) b) = {4} \<and>
    open_fds (destroy_queue (contexts (crew b)) (all_calls (broker_design Bro6 busy_platform) b)) = {}"
proof -
  obtain b where r: "sched (broker_next Bro6 busy_platform)
      [Accept, Client 0 Main, Client 0 Main, Client 0 Main, Client 0 Main, Client 0 Recv, Client 0 Send, Client 0 Main,
       Client 0 Main] sample_broker = Some b"
    and b: "length (crew b) = 1" "\<forall>s\<in>set (crew b). main s = M_Done"
      "open_fds (all_calls (broker_design Bro6 busy_platform) b) = {4}" using six_done_run by blast
  have "clean []" by simp
  from broker_shutdown[OF busy_platform_laws this broker_sched_reach[OF r] b(2) refl] broker_sched_reach[OF r] b
  show ?thesis by auto
qed

end
