(* ===== verification/Tcp_Server.thy ===== *)
theory Tcp_Server
  imports Interfaces
begin

text \<open>
  The older servers: \<open>TcpServer\<close> (TcpServer.h/.cpp) with the listening sockets and accept loops
  of \<open>IPV4ThreadsTcpServer\<close> and \<open>IPV6ThreadsTcpServer\<close>.  The \<open>SocketContext.h\<close> these
  files include is not in the repository; of a client handed to a thread the model keeps what its
  context is constructed from, the peer's address and the descriptor.  Two fields carry the
  suffix \<open>_s\<close>, because the engine of the broker servers has fields of the same names.
\<close>

subsection \<open>State\<close>

text \<open>
  A callback is application code: what it does to the system and what it returns.  \<open>None\<close> is a
  null \<open>std::shared_ptr\<close>, for a callback and for a vector of them.
\<close>

type_synonym callback = "(int \<Rightarrow> history \<Rightarrow> bool \<times> history) option"

record tcp_server =
  mListenSockCBs :: "callback list option"
  mAcceptSockCBs :: "callback list option"
  mIp :: string
  mPort_s :: "16 word"
  mFd_s :: int

definition TcpServer_port :: "16 word \<Rightarrow> tcp_server" where
  "TcpServer_port port =
     \<lparr>mListenSockCBs = None, mAcceptSockCBs = None, mIp = [], mPort_s = port, mFd_s = INVALID_FD\<rparr>"

definition TcpServer_addr :: "string \<Rightarrow> 16 word \<Rightarrow> tcp_server" where
  "TcpServer_addr ip port =
     \<lparr>mListenSockCBs = None, mAcceptSockCBs = None, mIp = ip, mPort_s = port, mFd_s = INVALID_FD\<rparr>"

definition setListenSockCBs :: "callback list option \<Rightarrow> tcp_server \<Rightarrow> tcp_server" where
  "setListenSockCBs cbs s = s\<lparr>mListenSockCBs := cbs\<rparr>"

definition setAcceptSockCBs :: "callback list option \<Rightarrow> tcp_server \<Rightarrow> tcp_server" where
  "setAcceptSockCBs cbs s = s\<lparr>mAcceptSockCBs := cbs\<rparr>"

fun apply_cbs :: "callback list \<Rightarrow> int \<Rightarrow> history \<Rightarrow> ub + history" where
  "apply_cbs [] sock h = Inr h"
| "apply_cbs (None # cbs) sock h = Inl Null_deref"
| "apply_cbs (Some cb # cbs) sock h = apply_cbs cbs sock (snd (cb sock h))"

definition applyListenSockCBs :: "tcp_server \<Rightarrow> int \<Rightarrow> history \<Rightarrow> ub + history" where
  "applyListenSockCBs s listenSock h =
     (case mListenSockCBs s of None \<Rightarrow> Inl Null_deref | Some cbs \<Rightarrow> apply_cbs cbs listenSock h)"

definition applyAcceptSockCBs :: "tcp_server \<Rightarrow> int \<Rightarrow> history \<Rightarrow> ub + history" where
  "applyAcceptSockCBs s acceptSock h =
     (case mAcceptSockCBs s of None \<Rightarrow> Inl Null_deref | Some cbs \<Rightarrow> apply_cbs cbs acceptSock h)"

subsection \<open>Life cycle\<close>

text \<open>The server, the history, and the clients handed to threads, oldest first.\<close>

type_synonym 'a tcp_state = "tcp_server \<times> history \<times> ('a \<times> int) list"

definition TcpServer_start ::
  "(tcp_server \<Rightarrow> history \<Rightarrow> bool \<times> tcp_server \<times> history) \<Rightarrow>
   (nat \<Rightarrow> 'a tcp_state \<Rightarrow> (bool \<times> 'a tcp_state) option) \<Rightarrow> nat \<Rightarrow>
   'a tcp_state \<Rightarrow> (bool \<times> 'a tcp_state) option" where
  "TcpServer_start initSocket run fuel = (\<lambda>(s, h, cs).
     if mFd_s s \<noteq> INVALID_FD then Some (True, s, h, cs)
     else let (ok, s, h) = initSocket s h in
     if \<not> ok then Some (False, s, h, cs)
     else (case run fuel (s, h, cs) of
       None \<Rightarrow> None
     | Some (ok, st) \<Rightarrow> if \<not> ok then Some (False, st) else Some (True, st)))"

definition TcpServer_stop :: "'a tcp_state \<Rightarrow> bool \<times> 'a tcp_state" where
  "TcpServer_stop = (\<lambda>(s, h, cs). (True, s\<lparr>mFd_s := INVALID_FD\<rparr>, sys_close (mFd_s s) h, cs))"

subsection \<open>The listening sockets\<close>

definition BACK_LOG_s :: int where
  "BACK_LOG_s = 0xff"

definition IPV4_initSocket :: "platform \<Rightarrow> tcp_server \<Rightarrow> history \<Rightarrow> bool \<times> tcp_server \<times> history" where
  "IPV4_initSocket p s h =
     (let (svr_sock, h) = sys_socket p AF_INET h in
      if svr_sock < 0 then (False, s, h)
      else let (r, h) = sys_setsockopt p svr_sock SO_REUSEADDR h in
      if r < 0 then (False, s, h)
      else let server_addr = Sockaddr_in (if mIp s = [] then 0 else inet_addr p (mIp s)) (htons (mPort_s s));
               (r, h) = sys_bind p svr_sock server_addr h in
      if r < 0 then (False, s, h)
      else let (r, h) = sys_listen p svr_sock BACK_LOG_s h in
      if r < 0 then (False, s, h)
      else (True, s\<lparr>mFd_s := svr_sock\<rparr>, h))"

text \<open>The failure of \<open>inet_pton\<close> is answered by \<open>return -1\<close>, which is true as a \<open>bool\<close>.\<close>

definition IPV6_initSocket :: "platform \<Rightarrow> tcp_server \<Rightarrow> history \<Rightarrow> bool \<times> tcp_server \<times> history" where
  "IPV6_initSocket p s h =
     (let (svr_sock, h) = sys_socket p AF_INET6 h in
      if svr_sock < 0 then (False, s, h)
      else let (r, h) = sys_setsockopt p svr_sock SO_REUSEADDR h in
      if r < 0 then (False, s, h)
      else let (r, h) = sys_setsockopt p svr_sock IPV6_V6ONLY h in
      if r < 0 then (False, s, h)
      else (case (if mIp s = [] then Some 0 else inet_pton6 p (mIp s)) of
        None \<Rightarrow> ((- 1 :: int) \<noteq> 0, s, h)
      | Some addr \<Rightarrow>
          let (r, h) = sys_bind p svr_sock (Sockaddr_in6 addr (htons (mPort_s s))) h in
          if r < 0 then (False, s, h)
          else let (r, h) = sys_listen p svr_sock BACK_LOG_s h in
          if r < 0 then (False, s, h)
          else (True, s\<lparr>mFd_s := svr_sock\<rparr>, h)))"

subsection \<open>The accept loops\<close>

type_synonym addr4 = "32 word \<times> 16 word"
type_synonym addr6 = "128 word \<times> 16 word"

definition IPV4_body ::
  "platform \<Rightarrow> addr4 tcp_state \<Rightarrow> (bool \<times> addr4 tcp_state) + addr4 tcp_state" where
  [body_defs]: "IPV4_body p = (\<lambda>(s, h, cs).
     let (client_socket, cli_addr, h) = sys_accept4 p (mFd_s s) h in
     if client_socket < 0 then Inl (False, s, h, cs)
     else let (r, h) = sys_setsockopt p client_socket (SO_RCVTIMEO 10) h in
     if r < 0 then Inl (False, s, h, cs)
     else let (r, h) = sys_setsockopt p client_socket (SO_SNDTIMEO 10) h in
     if r < 0 then Inl (False, s, h, cs)
     else Inr (s, h, cs @ [(cli_addr, client_socket)]))"

definition IPV4_run ::
  "platform \<Rightarrow> nat \<Rightarrow> addr4 tcp_state \<Rightarrow> (bool \<times> addr4 tcp_state) option" where
  "IPV4_run p = forever (IPV4_body p)"

definition IPV6_body ::
  "platform \<Rightarrow> addr6 tcp_state \<Rightarrow> (bool \<times> addr6 tcp_state) + addr6 tcp_state" where
  [body_defs]: "IPV6_body p = (\<lambda>(s, h, cs).
     let (client_socket, cli_addr, h) = sys_accept6 p (mFd_s s) h in
     if client_socket < 0 then Inl (False, s, h, cs)
     else Inr (s, h, cs @ [(cli_addr, client_socket)]))"

definition IPV6_run ::
  "platform \<Rightarrow> nat \<Rightarrow> addr6 tcp_state \<Rightarrow> (bool \<times> addr6 tcp_state) option" where
  "IPV6_run p = forever (IPV6_body p)"

subsection \<open>The contracts\<close>

text \<open>
  The IPv4 socket function is a listener.  The IPv6 one only keeps the object and the open
  descriptors: its result true does not promise a socket.
\<close>

lemma IPV4_initSocket_cases:
  assumes "IPV4_initSocket p s h = (b, s', h')"
  shows "(\<not> b \<and> s' = s \<and> open_fds h \<subseteq> open_fds h') \<or>
    (b \<and> s' = s\<lparr>mFd_s := mFd_s s'\<rparr> \<and> listening (mFd_s s') h' \<and> open_fds h \<subseteq> open_fds h')"
  using assms
  by (auto simp: IPV4_initSocket_def sys_simps Let_def BACK_LOG_s_def listening_def split: if_splits)

lemma IPV6_initSocket_cases:
  assumes "IPV6_initSocket p s h = (b, s', h')"
  shows "open_fds h \<subseteq> open_fds h' \<and>
    ((\<not> b \<and> s' = s) \<or>
     (b \<and> s' = s \<and> mIp s \<noteq> [] \<and> inet_pton6 p (mIp s) = None) \<or>
     (b \<and> s' = s\<lparr>mFd_s := mFd_s s'\<rparr> \<and> listening (mFd_s s') h' \<and> (mIp s = [] \<or> inet_pton6 p (mIp s) \<noteq> None)))"
  using assms
  by (auto simp: IPV6_initSocket_def sys_simps Let_def BACK_LOG_s_def listening_def
      split: if_splits option.splits)

interpretation tcp4_init: listener "IPV4_initSocket p" mFd_s for p
  by unfold_locales (auto dest!: IPV4_initSocket_cases)

interpretation tcp6_init: listener_keeps "IPV6_initSocket p" mFd_s for p
  by unfold_locales (auto dest!: IPV6_initSocket_cases)

definition tcp_hist :: "'a tcp_state \<Rightarrow> history" where
  "tcp_hist = (\<lambda>(s, h, cs). h)"

definition tcp_clients :: "'a tcp_state \<Rightarrow> int list" where
  "tcp_clients = (\<lambda>(s, h, cs). map snd cs)"

definition tcp_fd :: "'a tcp_state \<Rightarrow> int" where
  "tcp_fd = (\<lambda>(s, h, cs). mFd_s s)"

lemmas tcp_views = tcp_hist_def tcp_clients_def tcp_fd_def

interpretation tcp4: accept_server "IPV4_body p" "\<lambda>s. True" tcp_hist tcp_clients tcp_fd for p
  by unfold_locales (auto simp: body_defs sys_simps tcp_views Let_def split: if_splits)

interpretation tcp6: accept_server_exact "IPV6_body p" "\<lambda>s. True" tcp_hist tcp_clients tcp_fd for p
  by unfold_locales (auto simp: body_defs sys_simps tcp_views Let_def split: if_splits)

subsection \<open>Properties of the older servers\<close>

lemma IPV4_body_exit:
  assumes "IPV4_body p t = Inl (b, t')"
  shows "\<exists>extra. accepted (tcp_hist t') = accepted (tcp_hist t) @ extra \<and>
    (extra = [] \<or> (\<exists>fd. extra = [fd] \<and> fd \<in> open_fds (tcp_hist t')))"
  using assms
  by (cases t) (auto simp: body_defs sys_simps tcp_views Let_def split: if_splits)

text \<open>
  When the accept loop of the older IPv4 server returns, the connections it accepted are those
  handed to client threads, in order, and at most one more: if setting a timeout fails, the loop
  ends with the connection just accepted still open and known to nobody.
\<close>

lemma tcp4_run_serves:
  assumes "IPV4_run p n (s, h, cs) = Some (b, s', h', cs')"
  shows "\<not> b \<and> (\<exists>fds extra. accepted h' = accepted h @ fds @ extra \<and>
    map snd cs' = map snd cs @ fds \<and> (extra = [] \<or> (\<exists>fd. extra = [fd] \<and> fd \<in> open_fds h')))"
proof -
  have run: "forever (IPV4_body p) n (s, h, cs) = Some (b, s', h', cs')"
    using assms by (simp add: IPV4_run_def)
  obtain k t fds where k: "turns (IPV4_body p) k (s, h, cs) = Some t" "IPV4_body p t = Inl (b, s', h', cs')"
    "tcp_clients (s', h', cs') = tcp_clients (s, h, cs) @ fds"
    "accepted (tcp_hist t) = accepted (tcp_hist (s, h, cs)) @ fds"
    using tcp4.run_clients[OF run TrueI] by blast
  with IPV4_body_exit[OF k(2)] tcp4.run_false[OF run TrueI] show ?thesis by (auto simp: tcp_views)
qed

text \<open>
  The older servers can be restarted: \<open>stop\<close> closes the socket and forgets it, so the next
  \<open>start\<close> of the IPv4 server creates a new one and runs its loop on it, listening, unless the
  creation fails, which leaves the server stopped.
\<close>

lemma tcp4_stop_start:
  assumes "TcpServer_start (IPV4_initSocket p) (IPV4_run p) n (snd (TcpServer_stop (s, h, cs))) = Some (b, st)"
  shows "(\<exists>h1. \<not> b \<and> st = (s\<lparr>mFd_s := INVALID_FD\<rparr>, h1, cs)) \<or>
    (\<exists>s1 h1. listening (mFd_s s1) h1 \<and> IPV4_run p n (s1, h1, cs) = Some (b, st))"
proof -
  let ?s = "s\<lparr>mFd_s := INVALID_FD\<rparr>" and ?h = "E_close (mFd_s s) # h"
  obtain ok s1 h1 where i: "IPV4_initSocket p ?s ?h = (ok, s1, h1)" by (metis surj_pair)
  with assms have *: "(if ok then (case IPV4_run p n (s1, h1, cs) of None \<Rightarrow> None
      | Some (ok, st) \<Rightarrow> Some (ok, st)) else Some (False, s1, h1, cs)) = Some (b, st)"
    by (auto simp: TcpServer_start_def TcpServer_stop_def sys_simps split: option.splits if_splits)
  show ?thesis
  proof (cases ok)
    case True
    with * have "IPV4_run p n (s1, h1, cs) = Some (b, st)" by (auto split: option.splits)
    moreover have "listening (mFd_s s1) h1" using i True by (auto intro: tcp4_init.init_true)
    ultimately show ?thesis by blast
  next
    case False
    with * tcp4_init.init_false[of p ?s ?h s1 h1] i show ?thesis by auto
  qed
qed

text \<open>
  An IPv6 address that \<open>inet_pton\<close> rejects is taken for success: \<open>initSocket\<close> returns
  true with no listening socket, \<open>start\<close> runs the accept loop on \<open>INVALID_FD\<close>, which fails
  at once, and the socket created stays open.
\<close>

lemma tcp6_bad_address:
  assumes "accept_ebadf p" and "mFd_s s = INVALID_FD" and "mIp s \<noteq> []" and "inet_pton6 p (mIp s) = None"
    and "k_socket p h AF_INET6 = Done fd" and "0 \<le> fd" and "\<And>h fd opt. k_setsockopt p h fd opt = Done 0"
  shows "\<exists>h1 er. IPV6_initSocket p s h = (True, s, h1) \<and> fd \<in> open_fds h1 \<and> mFd_s s \<notin> open_fds h1 \<and> accepted h1 = accepted h \<and>
    TcpServer_start (IPV6_initSocket p) (IPV6_run p) (Suc n) (s, h, cs) =
      Some (False, s, E_accept INVALID_FD (Fail er) # h1, cs)"
proof -
  let ?h1 = "[E_setsockopt fd IPV6_V6ONLY (Done 0), E_setsockopt fd SO_REUSEADDR (Done 0), E_socket AF_INET6 (Done fd)] @ h"
  have i: "IPV6_initSocket p s h = (True, s, ?h1)"
    using assms by (simp add: IPV6_initSocket_def sys_simps Let_def)
  obtain er where er: "k_accept6 p ?h1 INVALID_FD = Fail er"
    using assms(1) INVALID_not_open unfolding accept_ebadf_def by blast
  have "IPV6_run p (Suc n) (s, ?h1, cs) = Some (False, s, E_accept INVALID_FD (Fail er) # ?h1, cs)"
    using er assms(2) by (simp add: IPV6_run_def body_defs sys_simps Let_def)
  then have "TcpServer_start (IPV6_initSocket p) (IPV6_run p) (Suc n) (s, h, cs) =
      Some (False, s, E_accept INVALID_FD (Fail er) # ?h1, cs)"
    using assms(2) i by (simp add: TcpServer_start_def)
  with i assms(2,6) INVALID_not_open show ?thesis
    by (intro exI[of _ ?h1] exI[of _ er]) (simp, simp add: INVALID_FD_def)
qed

end
