(* ===== verification/Tcp_Fleet.thy ===== *)
theory Tcp_Fleet
  imports Fleet Client_Life Tcp_Server
begin

text \<open>
  The older servers with the threads of all their clients, as instances of \<open>fleet\<close>: the accept
  loops of \<open>IPV4ThreadsTcpServer\<close> and \<open>IPV6ThreadsTcpServer\<close> and, for each connection, the
  detached thread that runs \<open>handleClient\<close> with the reader and the writer of its handle.
\<close>

subsection \<open>Handing a connection to a thread\<close>

text \<open>The contexts the accept loops create, and the \<open>dynamic_pointer_cast\<close>s of \<open>handleClient\<close>.\<close>

datatype old_context = Context4 addr4 int | Context6 addr6 int

fun context_fd :: "old_context \<Rightarrow> int" where
  "context_fd (Context4 a fd) = fd"
| "context_fd (Context6 a fd) = fd"

fun as_context4 :: "old_context \<Rightarrow> old_context option" where
  "as_context4 (Context4 a fd) = Some (Context4 a fd)"
| "as_context4 (Context6 a fd) = None"

fun as_context6 :: "old_context \<Rightarrow> old_context option" where
  "as_context6 (Context4 a fd) = None"
| "as_context6 (Context6 a fd) = Some (Context6 a fd)"

text \<open>A handle without a context fails its threads' casts; it has no descriptor.\<close>

definition IPV4ThreadsClientHandle :: "old_context option \<Rightarrow> history \<Rightarrow> handle" where
  "IPV4ThreadsClientHandle context h =
     ThreadsClientHandle (context \<noteq> None) (case context of None \<Rightarrow> INVALID_FD | Some c \<Rightarrow> context_fd c) h"

definition IPV6ThreadsClientHandle :: "old_context option \<Rightarrow> history \<Rightarrow> handle" where
  "IPV6ThreadsClientHandle context h =
     ThreadsClientHandle (context \<noteq> None) (case context of None \<Rightarrow> INVALID_FD | Some c \<Rightarrow> context_fd c) h"

text \<open>\<open>handleClient\<close> up to its call of \<open>doWork\<close>, whose steps are those of the handle.\<close>

definition IPV4_handleClient :: "old_context \<Rightarrow> history \<Rightarrow> handle" where
  "IPV4_handleClient context h = IPV4ThreadsClientHandle (as_context4 context) h"

definition IPV6_handleClient :: "old_context \<Rightarrow> history \<Rightarrow> handle" where
  "IPV6_handleClient context h = IPV6ThreadsClientHandle (as_context6 context) h"

lemmas handleClient_defs = IPV4_handleClient_def IPV6_handleClient_def IPV4ThreadsClientHandle_def
  IPV6ThreadsClientHandle_def

subsection \<open>The systems\<close>

definition tcp4_design :: "platform \<Rightarrow> (addr4 tcp_state, handle) design" where
  "tcp4_design p =
     \<lparr>turn = IPV4_body p,
      calls = tcp_hist,
      log_calls = (\<lambda>evs (s, h, cs). (s, evs @ h, cs)),
      newest = (\<lambda>(s, h, cs). IPV4_handleClient (Context4 (fst (last cs)) (snd (last cs))) []),
      thread_step = (\<lambda>H s t. noisy_step V4 (localise p H (hhist s)) s t),
      own_calls = hhist,
      down = stopped\<rparr>"

definition tcp6_design :: "platform \<Rightarrow> (addr6 tcp_state, handle) design" where
  "tcp6_design p =
     \<lparr>turn = IPV6_body p,
      calls = tcp_hist,
      log_calls = (\<lambda>evs (s, h, cs). (s, evs @ h, cs)),
      newest = (\<lambda>(s, h, cs). IPV6_handleClient (Context6 (fst (last cs)) (snd (last cs))) []),
      thread_step = (\<lambda>H s t. noisy_step V6 (localise p H (hhist s)) s t),
      own_calls = hhist,
      down = stopped\<rparr>"

lemma tcp4_sel [simp]:
  "turn (tcp4_design p) = IPV4_body p" "calls (tcp4_design p) = tcp_hist"
  "log_calls (tcp4_design p) evs (s, h, cs) = (s, evs @ h, cs)"
  "newest (tcp4_design p) (s, h, cs) = IPV4_handleClient (Context4 (fst (last cs)) (snd (last cs))) []"
  "thread_step (tcp4_design p) H c t = noisy_step V4 (localise p H (hhist c)) c t"
  "own_calls (tcp4_design p) = hhist" "down (tcp4_design p) = stopped"
  by (simp_all add: tcp4_design_def)

lemma tcp6_sel [simp]:
  "turn (tcp6_design p) = IPV6_body p" "calls (tcp6_design p) = tcp_hist"
  "log_calls (tcp6_design p) evs (s, h, cs) = (s, evs @ h, cs)"
  "newest (tcp6_design p) (s, h, cs) = IPV6_handleClient (Context6 (fst (last cs)) (snd (last cs))) []"
  "thread_step (tcp6_design p) H c t = noisy_step V6 (localise p H (hhist c)) c t"
  "own_calls (tcp6_design p) = hhist" "down (tcp6_design p) = stopped"
  by (simp_all add: tcp6_design_def)

subsection \<open>A step of a client\<close>

lemma reader_calls:
  assumes "reader_next f p s = Some t" and "life_inv f p fd [] s"
  shows "\<exists>evs. client_calls fd (hhist s) evs \<and> hhist t = evs @ hhist s"
proof (cases "rd s")
  case Rd_Recv
  then have "hfd s = fd" "live fd (hhist s)" using assms(2) by (simp_all add: life_inv_def live_def)
  moreover obtain r bs where "sys_recv p (hfd s) MAX_MESSAGEBUFF_LEN_s 0 (hhist s) =
      (r, bs, E_recv (hfd s) (k_recv p (hhist s) (hfd s) MAX_MESSAGEBUFF_LEN_s 0) # hhist s)"
    by (simp add: sys_recv_def Let_def)
  then have "hhist t = E_recv (hfd s) (k_recv p (hhist s) (hfd s) MAX_MESSAGEBUFF_LEN_s 0) # hhist s"
    using assms(1) Rd_Recv by (auto simp: reader_next_eq)
  ultimately show ?thesis by (simp add: client_calls_def)
next
  case Rd_Close
  then have "hfd s = fd" "live fd (hhist s)" using assms(2) by (simp_all add: life_inv_def live_def)
  moreover from this(1) have "hhist t = E_close fd # hhist s"
    using assms(1) Rd_Close by (auto simp: reader_next_eq sys_simps)
  ultimately show ?thesis by (simp add: client_calls_def)
qed (use assms(1) in \<open>auto simp: reader_next_eq notify_one_def client_calls_def intro!: exI[of _ "[]"]\<close>)

lemma take_message_hist [simp]: "hhist (take_message f s) = hhist s"
  using take_message_cases[of s f] by auto

lemma woken_hist [simp]: "hhist (woken f s) = hhist s"
  by (cases f) simp_all

lemma writer_calls:
  assumes "writer_next f p s = Some t" and "life_inv f p fd [] s"
  shows "\<exists>evs. client_calls fd (hhist s) evs \<and> hhist t = evs @ hhist s"
proof (cases "wr s")
  case (Wr_Send m tot)
  then have t: "t = send_turn f p m tot s" using assms(1) by (simp add: writer_next_eq)
  obtain evs w where "send_turn f p m tot s = s\<lparr>hhist := evs @ hhist s, wr := w\<rparr>"
    "evs = [] \<or> (\<exists>bs fl r. evs = [E_send (hfd s) bs fl r])"
    using send_turn_event by blast
  then show ?thesis unfolding t by (intro exI[of _ evs]) (auto simp: client_calls_def)
next
  case Wr_Close
  then have "hfd s = INVALID_FD" using assms(2) by (simp add: life_inv_def)
  with assms(1) Wr_Close show ?thesis
    by (intro exI[of _ "[E_close INVALID_FD]"]) (auto simp: writer_next_eq sys_simps client_calls_def split: if_splits)
next
  case Wr_ErrClose
  then show ?thesis using assms(2) by (simp add: life_inv_def)
qed (use assms(1) in \<open>auto simp: writer_next_eq client_calls_def intro!: exI[of _ "[]"] split: if_splits\<close>)

lemma noisy_calls:
  assumes "noisy_step f p s t" and "life_inv f p fd [] s"
  shows "\<exists>evs. client_calls fd (hhist s) evs \<and> hhist t = evs @ hhist s"
  using assms(1)
proof (cases rule: noisy_step.cases)
  case by_handle
  then show ?thesis
  proof (cases rule: handle_step.cases)
    case by_doWork
    then have "hhist t = hhist s" by (auto simp: doWork_next_eq split: work_pc.splits if_splits)
    then show ?thesis by (intro exI[of _ "[]"]) (simp add: client_calls_def)
  qed (use assms(2) in \<open>auto intro: reader_calls writer_calls\<close>)
next
  case spurious
  then show ?thesis by (intro exI[of _ "[]"]) (simp add: client_calls_def)
qed

text \<open>A client of the system sees the kernel through the calls of all others.\<close>

lemma localise_progresses: "send_progresses p \<Longrightarrow> send_progresses (localise p H h0)"
  by (auto simp: send_progresses_def send_bounded_def localise_def)

lemma life_inv_platform: "life_inv f p fd h0 s \<Longrightarrow> (f = V4 \<Longrightarrow> send_never_zero q) \<Longrightarrow> life_inv f q fd h0 s"
  by (auto simp: life_inv_def)

lemma life_works:
  assumes "life_inv f p fd [] c" and "noisy_step f (localise p H (hhist c)) c t"
  shows "life_inv f p fd [] t \<and> (\<exists>evs. client_calls fd (hhist c) evs \<and> hhist t = evs @ hhist c)"
proof -
  let ?q = "localise p H (hhist c)"
  have z: "f = V4 \<Longrightarrow> send_never_zero p" using assms(1) by (simp add: life_inv_def)
  have q: "life_inv f ?q fd [] c" using assms(1) by (rule life_inv_platform) (rule localise_never_zero[OF z])
  have "life_inv f p fd [] t" using life_inv_step[OF assms(2) q] z by (rule life_inv_platform)
  with noisy_calls[OF assms(2) q] show ?thesis by blast
qed

lemma life_start:
  assumes "f = V4 \<Longrightarrow> send_never_zero p" and "0 \<le> fd"
  shows "life_inv f p fd [] (ThreadsClientHandle ok fd [])"
  using assms by (intro life.inv_start) (auto simp: fresh_life_def INVALID_FD_def)

subsection \<open>The accept loops\<close>

lemma IPV4_turn:
  assumes "accept_fresh p" and "IPV4_body p s = Inr s'"
  shows "\<exists>opts l r. list_all is_option opts \<and> tcp_hist s' = opts @ E_accept l r # tcp_hist s \<and>
    0 \<le> c_ret id r \<and> c_ret id r \<notin> open_fds (tcp_hist s) \<and> tcp_clients s' = tcp_clients s @ [c_ret id r] \<and>
    newest (tcp4_design p) s' = ThreadsClientHandle True (c_ret id r) []"
proof -
  obtain e h cs where s: "s = (e, h, cs)" by (cases s)
  let ?r = "conn_of (k_accept4 p h (mFd_s e))"
  let ?e1 = "E_setsockopt (c_ret id ?r) (SO_RCVTIMEO 10) (k_setsockopt p (E_accept (mFd_s e) ?r # h) (c_ret id ?r) (SO_RCVTIMEO 10))"
  let ?e2 = "E_setsockopt (c_ret id ?r) (SO_SNDTIMEO 10) (k_setsockopt p (?e1 # E_accept (mFd_s e) ?r # h) (c_ret id ?r) (SO_SNDTIMEO 10))"
  show ?thesis
    using assms(2) accept_freshD(1)[OF assms(1), of h "mFd_s e"]
    by (intro exI[of _ "[?e2, ?e1]"] exI[of _ "mFd_s e"] exI[of _ ?r])
      (auto simp: s body_defs sys_simps tcp_views Let_def handleClient_defs not_less split: if_splits)
qed

lemma IPV4_leave:
  assumes "accept_fresh p" and "IPV4_body p s = Inl (b, s')"
  shows "tcp_clients s' = tcp_clients s \<and> (\<exists>opts l r. list_all is_option opts \<and> tcp_hist s' = opts @ E_accept l r # tcp_hist s \<and>
    (0 \<le> c_ret id r \<longrightarrow> c_ret id r \<notin> open_fds (tcp_hist s)))"
proof -
  obtain e h cs where s: "s = (e, h, cs)" by (cases s)
  let ?r = "conn_of (k_accept4 p h (mFd_s e))"
  let ?e1 = "E_setsockopt (c_ret id ?r) (SO_RCVTIMEO 10) (k_setsockopt p (E_accept (mFd_s e) ?r # h) (c_ret id ?r) (SO_RCVTIMEO 10))"
  let ?e2 = "E_setsockopt (c_ret id ?r) (SO_SNDTIMEO 10) (k_setsockopt p (?e1 # E_accept (mFd_s e) ?r # h) (c_ret id ?r) (SO_SNDTIMEO 10))"
  have "list_all is_option opts \<Longrightarrow> tcp_hist s' = opts @ E_accept (mFd_s e) ?r # h \<Longrightarrow> ?thesis" for opts
    using assms(2) accept_freshD(1)[OF assms(1), of h "mFd_s e"]
    by (auto simp: s body_defs sys_simps tcp_views Let_def split: if_splits)
  moreover have "tcp_hist s' = [] @ E_accept (mFd_s e) ?r # h \<or> tcp_hist s' = [?e1] @ E_accept (mFd_s e) ?r # h \<or>
      tcp_hist s' = [?e2, ?e1] @ E_accept (mFd_s e) ?r # h"
    using assms(2) by (auto simp: s body_defs sys_simps tcp_views Let_def split: if_splits)
  moreover have "list_all is_option []" "list_all is_option [?e1]" "list_all is_option [?e2, ?e1]" by simp_all
  ultimately show ?thesis by blast
qed

lemma IPV6_turn:
  assumes "accept_fresh p" and "IPV6_body p s = Inr s'"
  shows "\<exists>l r. tcp_hist s' = E_accept l r # tcp_hist s \<and>
    0 \<le> c_ret id r \<and> c_ret id r \<notin> open_fds (tcp_hist s) \<and> tcp_clients s' = tcp_clients s @ [c_ret id r] \<and>
    newest (tcp6_design p) s' = ThreadsClientHandle True (c_ret id r) []"
proof -
  obtain e h cs where s: "s = (e, h, cs)" by (cases s)
  show ?thesis
    using assms(2) accept_freshD(2)[OF assms(1), of h "mFd_s e"]
    by (intro exI[of _ "mFd_s e"] exI[of _ "conn_of (k_accept6 p h (mFd_s e))"])
      (auto simp: s body_defs sys_simps tcp_views Let_def handleClient_defs not_less split: if_splits)
qed

lemma IPV6_leave:
  assumes "IPV6_body p s = Inl (b, s')"
  shows "tcp_clients s' = tcp_clients s \<and> (\<exists>l r. tcp_hist s' = E_accept l r # tcp_hist s \<and> c_ret id r < 0)"
  using assms by (cases s) (auto simp: body_defs sys_simps tcp_views Let_def split: if_splits)

lemma tcp_logs:
  "tcp_clients (log_calls (tcp4_design p) evs s) = tcp_clients s \<and>
    tcp_hist (log_calls (tcp4_design p) evs s) = evs @ tcp_hist s"
  "tcp_clients (log_calls (tcp6_design p) evs s') = tcp_clients s' \<and>
    tcp_hist (log_calls (tcp6_design p) evs s') = evs @ tcp_hist s'"
  by (cases s; cases s'; simp add: tcp_views)+

subsection \<open>The contracts\<close>

text \<open>
  The IPv4 server, whose loop may lose one connection when it ends; what makes a client good is
  that it keeps its descriptor, and for the second instance that it echoes as well.
\<close>

definition tcp4_sound :: "platform \<Rightarrow> addr4 tcp_state \<Rightarrow> bool" where
  "tcp4_sound p s \<longleftrightarrow> accept_fresh p \<and> send_never_zero p"

definition echo_sound :: "platform \<Rightarrow> addr4 tcp_state \<Rightarrow> bool" where
  "echo_sound p s \<longleftrightarrow> accept_fresh p \<and> send_never_zero p \<and> recv_bounded p \<and> send_progresses p"

definition tcp6_sound :: "platform \<Rightarrow> addr6 tcp_state \<Rightarrow> bool" where
  "tcp6_sound p s \<longleftrightarrow> accept_fresh p"

definition echoing :: "platform \<Rightarrow> int \<Rightarrow> handle \<Rightarrow> bool" where
  "echoing p fd c \<longleftrightarrow> life_inv V4 p fd [] c \<and> echo_ok p fd [] c"

lemma echo_works:
  assumes "echoing p fd c" and "noisy_step V4 (localise p H (hhist c)) c t"
  shows "echoing p fd t \<and> (\<exists>evs. client_calls fd (hhist c) evs \<and> hhist t = evs @ hhist c)"
proof -
  let ?q = "localise p H (hhist c)"
  have laws: "recv_bounded p" "send_progresses p" using assms(1) by (simp_all add: echoing_def echo_ok_def echo_inv_def)
  have "echo_ok ?q fd [] c"
    using assms(1) localise_bounded[of p H "hhist c"] localise_progresses[of p H "hhist c"] laws by (simp add: echoing_def echo_ok_def echo_inv_def)
  from echo_ok_step[OF assms(2) this] laws have "echo_ok p fd [] t" by (simp add: echo_ok_def echo_inv_def)
  with life_works[of V4 p fd c H t] assms show ?thesis by (auto simp: echoing_def)
qed

lemma echo_start:
  assumes "echo_sound p s" and "0 \<le> fd"
  shows "echoing p fd (ThreadsClientHandle ok fd [])"
proof -
  have "fresh_echo p fd [] (ThreadsClientHandle ok fd [])"
    using assms by (auto simp: echo_sound_def fresh_echo_def INVALID_FD_def)
  then have "echo_ok p fd [] (ThreadsClientHandle ok fd [])" by (rule echo4.inv_start)
  with life_start[of V4 p fd ok] assms show ?thesis by (simp add: echoing_def echo_sound_def)
qed

text \<open>The assumptions about the accept loop, for any notion of a good client that fresh handles meet.\<close>

lemma tcp4_accepts:
  assumes "accept_fresh p" and "IPV4_body p s = Inr s'" and "\<And>fd. 0 \<le> fd \<Longrightarrow> good fd (ThreadsClientHandle True fd [])"
  shows "\<exists>opts l r. list_all is_option opts \<and> tcp_hist s' = opts @ E_accept l r # tcp_hist s \<and>
    0 \<le> c_ret id r \<and> c_ret id r \<notin> open_fds (tcp_hist s) \<and> tcp_clients s' = tcp_clients s @ [c_ret id r] \<and>
    good (c_ret id r) (newest (tcp4_design p) s') \<and> hhist (newest (tcp4_design p) s') = []"
proof -
  obtain opts l r where t: "list_all is_option opts" "tcp_hist s' = opts @ E_accept l r # tcp_hist s"
    "0 \<le> c_ret id r" "c_ret id r \<notin> open_fds (tcp_hist s)" "tcp_clients s' = tcp_clients s @ [c_ret id r]"
    "newest (tcp4_design p) s' = ThreadsClientHandle True (c_ret id r) []"
    using IPV4_turn[OF assms(1,2)] by blast
  have "hhist (newest (tcp4_design p) s') = []" by (simp add: t(6) ThreadsClientHandle_def)
  moreover have "good (c_ret id r) (newest (tcp4_design p) s')" unfolding t(6) using t(3) by (rule assms(3))
  ultimately show ?thesis using t(1-5) by blast
qed

interpretation tcp4_fleet: fleet "tcp4_design p" "tcp4_sound p" tcp_clients "\<lambda>fd. life_inv V4 p fd []" True for p
proof
  show "tcp4_sound p s' \<and> (\<exists>opts l r. list_all is_option opts \<and>
      calls (tcp4_design p) s' = opts @ E_accept l r # calls (tcp4_design p) s \<and>
      0 \<le> c_ret id r \<and> c_ret id r \<notin> open_fds (calls (tcp4_design p) s) \<and> tcp_clients s' = tcp_clients s @ [c_ret id r] \<and>
      life_inv V4 p (c_ret id r) [] (newest (tcp4_design p) s') \<and> own_calls (tcp4_design p) (newest (tcp4_design p) s') = [])"
    if "tcp4_sound p s" "turn (tcp4_design p) s = Inr s'" for s s'
    using tcp4_accepts[of p s s' "\<lambda>fd. life_inv V4 p fd []"] life_start[of V4 p] that by (simp add: tcp4_sound_def)
  show "tcp4_sound p s' \<and> tcp_clients s' = tcp_clients s \<and> (\<exists>opts l r. list_all is_option opts \<and>
      calls (tcp4_design p) s' = opts @ E_accept l r # calls (tcp4_design p) s \<and>
      (0 \<le> c_ret id r \<longrightarrow> True \<and> c_ret id r \<notin> open_fds (calls (tcp4_design p) s)))"
    if "tcp4_sound p s" "turn (tcp4_design p) s = Inl (b, s')" for s b s'
    using IPV4_leave[of p s b s'] that by (simp add: tcp4_sound_def)
qed (use tcp_logs life_works in \<open>simp_all add: tcp4_sound_def\<close>)

interpretation tcp4_echoes: fleet "tcp4_design p" "echo_sound p" tcp_clients "echoing p" True for p
proof
  show "echo_sound p s' \<and> (\<exists>opts l r. list_all is_option opts \<and>
      calls (tcp4_design p) s' = opts @ E_accept l r # calls (tcp4_design p) s \<and>
      0 \<le> c_ret id r \<and> c_ret id r \<notin> open_fds (calls (tcp4_design p) s) \<and> tcp_clients s' = tcp_clients s @ [c_ret id r] \<and>
      echoing p (c_ret id r) (newest (tcp4_design p) s') \<and> own_calls (tcp4_design p) (newest (tcp4_design p) s') = [])"
    if "echo_sound p s" "turn (tcp4_design p) s = Inr s'" for s s'
    using tcp4_accepts[of p s s' "echoing p"] echo_start[OF that(1)] that by (simp add: echo_sound_def)
  show "echo_sound p s' \<and> tcp_clients s' = tcp_clients s \<and> (\<exists>opts l r. list_all is_option opts \<and>
      calls (tcp4_design p) s' = opts @ E_accept l r # calls (tcp4_design p) s \<and>
      (0 \<le> c_ret id r \<longrightarrow> True \<and> c_ret id r \<notin> open_fds (calls (tcp4_design p) s)))"
    if "echo_sound p s" "turn (tcp4_design p) s = Inl (b, s')" for s b s'
    using IPV4_leave[of p s b s'] that by (simp add: echo_sound_def)
qed (use tcp_logs echo_works in \<open>simp_all add: echo_sound_def\<close>)

interpretation tcp6_fleet: fleet "tcp6_design p" "tcp6_sound p" tcp_clients "\<lambda>fd. life_inv V6 p fd []" False for p
proof
  show "tcp6_sound p s' \<and> (\<exists>opts l r. list_all is_option opts \<and>
      calls (tcp6_design p) s' = opts @ E_accept l r # calls (tcp6_design p) s \<and>
      0 \<le> c_ret id r \<and> c_ret id r \<notin> open_fds (calls (tcp6_design p) s) \<and> tcp_clients s' = tcp_clients s @ [c_ret id r] \<and>
      life_inv V6 p (c_ret id r) [] (newest (tcp6_design p) s') \<and> own_calls (tcp6_design p) (newest (tcp6_design p) s') = [])"
    if "tcp6_sound p s" "turn (tcp6_design p) s = Inr s'" for s s'
    using IPV6_turn[of p s s'] life_start[of V6 p] that
    by (fastforce simp: tcp6_sound_def ThreadsClientHandle_def intro!: exI[of _ "[]"])
  show "tcp6_sound p s' \<and> tcp_clients s' = tcp_clients s \<and> (\<exists>opts l r. list_all is_option opts \<and>
      calls (tcp6_design p) s' = opts @ E_accept l r # calls (tcp6_design p) s \<and>
      (0 \<le> c_ret id r \<longrightarrow> False \<and> c_ret id r \<notin> open_fds (calls (tcp6_design p) s)))"
    if "tcp6_sound p s" "turn (tcp6_design p) s = Inl (b, s')" for s b s'
    using IPV6_leave[of p s b s'] that by (auto simp: tcp6_sound_def intro!: exI[of _ "[]"])
qed (use tcp_logs life_works in \<open>simp_all add: tcp6_sound_def\<close>)

end
