(* ===== verification/Tcp_System.thy ===== *)
theory Tcp_System
  imports Tcp_Fleet
begin

text \<open>
  Properties of the older servers together with all their clients: descriptors are neither shared
  nor closed twice, every connection is echoed, the whole implements a table of connections; but a
  reply can be delivered to a connection it does not belong to.
\<close>

subsection \<open>Runs\<close>

definition tcp4_next ::
  "platform \<Rightarrow> role move \<Rightarrow> (addr4 tcp_state, handle) fleet_state \<Rightarrow> (addr4 tcp_state, handle) fleet_state option" where
  "tcp4_next p = fleet_next (tcp4_design p) (\<lambda>H a s. role_next V4 (localise p H (hhist s)) a s)"

lemma tcp4_sched_reach:
  "sched (tcp4_next p) as b = Some b' \<Longrightarrow> reach (fleet_step (tcp4_design p)) b b'"
  unfolding tcp4_next_def
  by (erule fleet_sched_reach[rotated]) (auto intro: noisy_step.by_handle role_next_step)

text \<open>
  A system that accepts as descriptor 4 whenever 4 is free, whose clients send \<open>hi\<close> once and hang
  up, and whose \<open>send\<close> takes two bytes at a time.
\<close>

definition echo_platform :: platform where
  "echo_platform = sample_platform\<lparr>
     k_accept4 := \<lambda>h fd. if 4 \<notin> open_fds h then Done (4, 0x0100007F, htons 5000) else Fail (EOther 24),
     k_accept6 := \<lambda>h fd. if 4 \<notin> open_fds h then Done (4, 1, htons 5000) else Fail (EOther 24),
     k_recv := \<lambda>h fd n fl. if conn_stream fd h = [] then Done (take n [104, 105]) else Done [],
     k_send := \<lambda>h fd bs fl. Done (min 2 (int (length bs)))\<rparr>"

lemma echo_platform_laws: "recv_bounded echo_platform" "accept_fresh echo_platform" "send_never_zero echo_platform"
  "send_progresses echo_platform"
  by (auto simp: echo_platform_def recv_bounded_def accept_fresh_def send_never_zero_def send_progresses_def
      send_bounded_def split: if_splits)

abbreviation tcp_shop :: "('a tcp_state, handle) fleet_state" where
  "tcp_shop \<equiv> open_shop ((TcpServer_port 80)\<lparr>mFd_s := 3\<rparr>, [], [])"

text \<open>
  The first client's writer holds its message while its reader closes the descriptor; the number is
  given to a second connection before the writer sends.
\<close>

definition crossed :: "role move list" where
  "crossed = [Accept, Client 0 Work, Client 0 Work, Client 0 Reader, Client 0 Reader, Client 0 Reader,
     Client 0 Reader, Client 0 Writer, Client 0 Writer, Client 0 Reader, Client 0 Reader, Accept, Client 0 Writer]"

lemmas tcp_eval = body_defs tcp_views running_def work_at_def open_shop_def localise_def news_def all_calls_def
  handleClient_defs TcpServer_port_def

lemma crossed_run:
  "\<exists>b. sched (tcp4_next echo_platform) crossed tcp_shop = Some b \<and> tcp_clients (acceptor b) = [4, 4] \<and>
    length (crew b) = 2 \<and> live 4 (hhist (crew b ! 1)) \<and> sent 4 (hhist (crew b ! 1)) = [] \<and>
    conn_sent 4 (all_calls (tcp4_design echo_platform) b) = [104, 105] \<and>
    conn_stream 4 (all_calls (tcp4_design echo_platform) b) = []"
  by (simp add: crossed_def tcp4_next_def tcp_eval handle_eval live_def echo_platform_def)

subsection \<open>Properties of the systems\<close>

text \<open>
  In every interleaving of the older IPv4 server and all its clients, when no \<open>send\<close> answers
  \<open>0\<close>, every close of a real descriptor closes one that is open, live clients never share a
  descriptor, and the open descriptors are those from before and those of the live clients, plus at
  most one that the accept loop drops when it ends.
\<close>

lemma tcp4_descriptors:
  assumes "accept_fresh p" and "send_never_zero p" and "clean h"
    and "reach (fleet_step (tcp4_design p)) (open_shop (s, h, [])) b"
  defines "H \<equiv> all_calls (tcp4_design p) b" and "fds \<equiv> live_fds hhist (team tcp_clients b)"
  shows "clean H \<and> distinct fds \<and> (\<exists>lost. open_fds H = open_fds h \<union> set fds \<union> lost \<and>
    (serving b \<longrightarrow> lost = {}) \<and> (\<exists>fd. lost \<subseteq> {fd}))"
  using tcp4_fleet.descriptors[of p "(s, h, [])" b] assms by (auto simp: tcp4_sound_def tcp_views)

text \<open>
  The same for the older IPv6 server, for every behaviour of \<open>send\<close> and without an exception:
  the open descriptors are those from before and those of the live clients.
\<close>

lemma tcp6_descriptors:
  assumes "accept_fresh p" and "clean h"
    and "reach (fleet_step (tcp6_design p)) (open_shop (s, h, [])) b"
  defines "H \<equiv> all_calls (tcp6_design p) b" and "fds \<equiv> live_fds hhist (team tcp_clients b)"
  shows "clean H \<and> distinct fds \<and> open_fds H = open_fds h \<union> set fds"
  using tcp6_fleet.descriptors[of p "(s, h, [])" b] assms by (auto simp: tcp6_sound_def tcp_views)

text \<open>
  Every connection of the older IPv4 server is echoed, whatever the other clients do and even
  when its number served earlier clients: what a live client's writer has sent is a prefix of what
  arrived on the connection since it was accepted, and the rest is what its threads and its queue
  still hold.
\<close>

lemma tcp4_system_echoes:
  assumes "accept_fresh p" and "send_never_zero p" and "recv_bounded p" and "send_progresses p" and "clean h"
    and "reach (fleet_step (tcp4_design p)) (open_shop (s, h, [])) b"
    and "(fd, c) \<in> set (team tcp_clients b)" and "live fd (hhist c)" and "hfd c = fd"
  shows "conn_stream fd (all_calls (tcp4_design p) b) =
    sent fd (hhist c) @ held_wr (wr c) @ concat (mMessageQueue c) @ held_rd (rd c)"
proof -
  have "echo_sound p (s, h, [])" "tcp_clients (s, h, []) = []" "clean (calls (tcp4_design p) (s, h, []))"
    using assms(1-5) by (simp_all add: echo_sound_def tcp_views)
  from tcp4_echoes.members[OF this assms(6,7)] assms(8) have "echoing p fd c"
    "conn_stream fd (all_calls (tcp4_design p) b) = received fd (hhist c)" by simp_all
  with assms(9) show ?thesis by (auto simp: echoing_def echo_ok_def echo_inv_def)
qed

text \<open>
  The older servers are a table of connections to the outside: every step of any thread of the
  system leaves the table alone, adds an empty connection under an unused number, appends to one, or
  removes one.
\<close>

lemma tcp4_implements_table:
  assumes "accept_fresh p" and "send_never_zero p" and "clean h"
    and "reach (fleet_step (tcp4_design p)) (open_shop (s, h, [])) b"
  shows "reach table_step Map.empty (fleet_table (tcp4_design p) tcp_clients b)"
  by (rule tcp4_fleet.implements_table[OF _ _ _ assms(4)]) (use assms(1-3) in \<open>simp_all add: tcp4_sound_def tcp_views\<close>)

text \<open>
  C23: Replies can reach the wrong peer: although all the laws hold, there is a run of the older
  IPv4 server in which a client's reader has closed the descriptor, the system has given the number
  to a new connection, and the first client's writer, which does not look again before \<open>send\<close>,
  sends its message there: a live connection is sent bytes before it has sent any itself.
\<close>

theorem tcp4_cross_talk:
  "\<exists>p b c. recv_bounded p \<and> accept_fresh p \<and> send_never_zero p \<and> send_progresses p \<and>
    reach (fleet_step (tcp4_design p)) tcp_shop b \<and> (4, c) \<in> set (team tcp_clients b) \<and> live 4 (hhist c) \<and>
    sent 4 (hhist c) = [] \<and> conn_stream 4 (all_calls (tcp4_design p) b) = [] \<and>
    conn_sent 4 (all_calls (tcp4_design p) b) = [104, 105]"
proof -
  obtain b where r: "sched (tcp4_next echo_platform) crossed tcp_shop = Some b"
    and b: "tcp_clients (acceptor b) = [4, 4]" "length (crew b) = 2" "live 4 (hhist (crew b ! 1))"
      "sent 4 (hhist (crew b ! 1)) = []" "conn_sent 4 (all_calls (tcp4_design echo_platform) b) = [104, 105]"
      "conn_stream 4 (all_calls (tcp4_design echo_platform) b) = []" using crossed_run by blast
  obtain c d where "crew b = [c, d]" using b(2) by (auto simp: numeral_2_eq_2 length_Suc_conv)
  then have t: "(4, crew b ! 1) \<in> set (team tcp_clients b)" using b(1) by (simp add: team_def)
  show ?thesis
    by (intro exI[of _ echo_platform] exI[of _ b] exI[of _ "crew b ! 1"])
      (use echo_platform_laws tcp4_sched_reach[OF r] t b(3-6) in simp)
qed


end
