(* ===== verification/Client_Runs.thy ===== *)
theory Client_Runs
  imports Client_Life
begin


















end
