(* ===== verification/Process.thy ===== *)
theory Process
  imports Fleet
begin

text \<open>
  Programs with several parts in one process.  The parts share the history of the process and
  nothing else; what one part relies on is that the others touch no descriptor of its own.  The
  locale \<open>party\<close> states what a part promises under that condition, and two parties side by side
  are a party again, so a program is put together from parts that were verified alone.
\<close>

subsection \<open>Who owns which descriptor\<close>

text \<open>The descriptors a thread has after these calls, if it had \<open>S\<close> before.\<close>

fun owns :: "int set \<Rightarrow> history \<Rightarrow> int set" where
  "owns S [] = S"
| "owns S (E_socket d r # evs) = (if 0 \<le> c_ret id r then insert (c_ret id r) (owns S evs) else owns S evs)"
| "owns S (E_accept l r # evs) = (if 0 \<le> c_ret id r then insert (c_ret id r) (owns S evs) else owns S evs)"
| "owns S (E_close fd # evs) = owns S evs - {fd}"
| "owns S (_ # evs) = owns S evs"

lemma open_fds_nonneg: "fd \<in> open_fds h \<Longrightarrow> 0 \<le> fd"
  by (induction h rule: open_fds.induct) (auto split: if_splits)

text \<open>
  Calls that respect the rest of the process: a new descriptor is one that was not open, and only
  the thread's own descriptors are read or closed.  Sending is not restricted.
\<close>

fun fair_call :: "int set \<Rightarrow> history \<Rightarrow> event \<Rightarrow> bool" where
  "fair_call S h (E_socket d r) \<longleftrightarrow> (0 \<le> c_ret id r \<longrightarrow> c_ret id r \<notin> open_fds h)"
| "fair_call S h (E_accept l r) \<longleftrightarrow> (0 \<le> c_ret id r \<longrightarrow> c_ret id r \<notin> open_fds h)"
| "fair_call S h (E_recv fd r) \<longleftrightarrow> fd \<in> S"
| "fair_call S h (E_close fd) \<longleftrightarrow> fd \<in> S \<or> fd = INVALID_FD"
| "fair_call S h _ \<longleftrightarrow> True"

fun fair :: "int set \<Rightarrow> history \<Rightarrow> history \<Rightarrow> bool" where
  "fair S h [] \<longleftrightarrow> True"
| "fair S h (e # evs) \<longleftrightarrow> fair S h evs \<and> fair_call (owns S evs) (evs @ h) e"

lemma open_fds_append: "open_fds (evs @ h) = owns (open_fds h) evs"
proof (induction evs)
  case (Cons e evs)
  then show ?case by (cases e) auto
qed simp

lemma owns_append: "owns S (evs' @ evs) = owns (owns S evs) evs'"
proof (induction evs')
  case (Cons e evs')
  then show ?case by (cases e) auto
qed simp

lemma fair_append: "fair S h (evs' @ evs) \<longleftrightarrow> fair S h evs \<and> fair (owns S evs) (evs @ h) evs'"
  by (induction evs') (auto simp: owns_append)

lemma fair_options: "list_all is_option opts \<Longrightarrow> fair S h opts \<and> owns S opts = S"
proof (induction opts)
  case (Cons e opts)
  then show ?case by (cases e) auto
qed simp

text \<open>The frame: descriptors of others stay open and apart, and every close is of an open descriptor.\<close>

lemma fair_frame:
  assumes "fair S h evs" and "S \<subseteq> open_fds h" and "Q \<subseteq> open_fds h" and "S \<inter> Q = {}"
  shows "owns (S \<union> Q) evs = owns S evs \<union> Q \<and> owns S evs \<inter> Q = {} \<and> owns S evs \<subseteq> open_fds (evs @ h) \<and>
    Q \<subseteq> open_fds (evs @ h)"
  using assms(1)
proof (induction evs)
  case (Cons e evs)
  then have IH: "owns (S \<union> Q) evs = owns S evs \<union> Q" "owns S evs \<inter> Q = {}" "owns S evs \<subseteq> open_fds (evs @ h)"
    "Q \<subseteq> open_fds (evs @ h)" by simp_all
  have "fair_call (owns S evs) (evs @ h) e" using Cons.prems by simp
  with IH INVALID_not_open[of "evs @ h"] show ?case by (cases e) auto
qed (use assms in simp)

lemma fair_widen: "fair S h evs \<Longrightarrow> S \<subseteq> T \<Longrightarrow> fair T h evs \<and> owns S evs \<subseteq> owns T evs"
proof (induction evs)
  case (Cons e evs)
  then show ?case by (cases e) auto
qed simp

lemma fair_clean:
  assumes "fair S h evs" and "S \<subseteq> open_fds h" and "clean h"
  shows "clean (evs @ h)"
  using assms(1)
proof (induction evs)
  case (Cons e evs)
  moreover from Cons.prems have "owns S evs \<subseteq> open_fds (evs @ h)"
    using fair_frame[of S h evs "{}"] assms(2) by simp
  ultimately show ?case by (cases e) auto
qed (use assms in simp)

text \<open>Nor do the calls change what has arrived on the connections of others.\<close>

lemma fair_stream:
  assumes "fair S h evs" and "S \<subseteq> open_fds h" and "fd \<in> open_fds h" and "fd \<notin> S"
  shows "conn_stream fd (evs @ h) = conn_stream fd h"
  using assms(1)
proof (induction evs)
  case (Cons e evs)
  then have IH: "conn_stream fd (evs @ h) = conn_stream fd h" and f: "fair S h evs" by simp_all
  have fd: "fd \<notin> owns S evs" "fd \<in> open_fds (evs @ h)" using fair_frame[OF f assms(2), of "{fd}"] assms(3,4) by auto
  have "0 \<le> fd" using fd(2) by (rule open_fds_nonneg)
  moreover have "fair_call (owns S evs) (evs @ h) e" using Cons.prems by simp
  ultimately show ?case using IH fd by (cases e) (auto simp: conn_stream_recv)
qed simp

subsection \<open>Parts of a program\<close>

text \<open>
  A part: its steps, the history of the process as it knows it, how it takes notice of calls that
  others make, whether it has run into undefined behaviour, and the calls of its client threads.
\<close>

record 's part =
  moves :: "'s \<Rightarrow> 's \<Rightarrow> bool"
  past :: "'s \<Rightarrow> history"
  told :: "history \<Rightarrow> 's \<Rightarrow> 's"
  healthy :: "'s \<Rightarrow> bool"
  share :: "'s \<Rightarrow> event set"

fun is_send :: "event \<Rightarrow> bool" where
  "is_send (E_send fd bs fl r) = True"
| "is_send _ = False"

locale party =
  fixes M :: "'s part" and inv :: "int set \<Rightarrow> 's \<Rightarrow> bool"
  assumes owned: "inv S s \<Longrightarrow> S \<subseteq> open_fds (past M s) \<and> clean (past M s)"
    and acts: "inv S s \<Longrightarrow> moves M s t \<Longrightarrow>
      (\<exists>evs. past M t = evs @ past M s \<and> fair S (past M s) evs \<and> inv (owns S evs) t \<and>
        share M s \<subseteq> share M t \<and> (\<forall>e\<in>set evs. is_send e \<longrightarrow> e \<in> share M t))"
    and tolerates: "inv S s \<Longrightarrow> fair P (past M s) evs \<Longrightarrow> P \<subseteq> open_fds (past M s) \<Longrightarrow> P \<inter> S = {} \<Longrightarrow>
      inv S (told M evs s) \<and> past M (told M evs s) = evs @ past M s \<and> share M (told M evs s) = share M s"

text \<open>
  The whole process around a part: \<open>R\<close> are the descriptors that are not the part's, and every
  \<open>send\<close> is one of its clients' or from before.
\<close>

definition whole :: "'s part \<Rightarrow> (int set \<Rightarrow> 's \<Rightarrow> bool) \<Rightarrow> int set \<Rightarrow> event set \<Rightarrow> 's \<Rightarrow> bool" where
  "whole M I R E s \<longleftrightarrow> (\<exists>S. I S s \<and> open_fds (past M s) = R \<union> S \<and> R \<inter> S = {} \<and>
     (\<forall>e\<in>set (past M s). is_send e \<longrightarrow> e \<in> share M s \<or> e \<in> E))"

context party
begin

lemma whole_step:
  assumes "whole M inv R E s" and "moves M s t"
  shows "whole M inv R E t"
proof -
  obtain S where i: "inv S s" and o: "open_fds (past M s) = R \<union> S" "R \<inter> S = {}"
    and E: "\<forall>e\<in>set (past M s). is_send e \<longrightarrow> e \<in> share M s \<or> e \<in> E" using assms(1) by (auto simp: whole_def)
  obtain evs where e: "past M t = evs @ past M s" "fair S (past M s) evs" "inv (owns S evs) t"
    "share M s \<subseteq> share M t" "\<forall>e\<in>set evs. is_send e \<longrightarrow> e \<in> share M t" using acts[OF i assms(2)] by blast
  have "owns (S \<union> R) evs = owns S evs \<union> R \<and> owns S evs \<inter> R = {}"
    using fair_frame[OF e(2), of R] o by auto
  moreover have "open_fds (past M t) = owns (S \<union> R) evs" using o(1) by (simp add: e(1) open_fds_append Un_commute)
  ultimately show ?thesis unfolding whole_def using e(1,3,4,5) E by (intro exI[of _ "owns S evs"]) auto
qed

end

sublocale party \<subseteq> all: invariant_system "moves M" "whole M inv R E" "whole M inv R E" for R E
  by unfold_locales (auto intro: whole_step)

text \<open>Two parts in one process: each takes a step, the other takes notice of its calls.\<close>

inductive beside :: "'s part \<Rightarrow> 't part \<Rightarrow> 's \<times> 't \<Rightarrow> 's \<times> 't \<Rightarrow> bool" for M N where
  left: "healthy M a \<Longrightarrow> healthy N b \<Longrightarrow> moves M a a' \<Longrightarrow>
     beside M N (a, b) (a', told N (news (past M a) (past M a')) b)"
| right: "healthy M a \<Longrightarrow> healthy N b \<Longrightarrow> moves N b b' \<Longrightarrow>
     beside M N (a, b) (told M (news (past N b) (past N b')) a, b')"

definition side_by_side :: "'s part \<Rightarrow> 't part \<Rightarrow> ('s \<times> 't) part" where
  "side_by_side M N =
     \<lparr>moves = beside M N,
      past = (\<lambda>(a, b). past M a),
      told = (\<lambda>evs (a, b). (told M evs a, told N evs b)),
      healthy = (\<lambda>(a, b). healthy M a \<and> healthy N b),
      share = (\<lambda>(a, b). share M a \<union> share N b)\<rparr>"

lemma side_sel [simp]:
  "moves (side_by_side M N) = beside M N" "past (side_by_side M N) (a, b) = past M a"
  "told (side_by_side M N) evs (a, b) = (told M evs a, told N evs b)"
  "healthy (side_by_side M N) (a, b) = (healthy M a \<and> healthy N b)"
  "share (side_by_side M N) (a, b) = share M a \<union> share N b"
  by (simp_all add: side_by_side_def)

text \<open>The descriptors are divided between the two.\<close>

fun both :: "'s part \<Rightarrow> 't part \<Rightarrow> (int set \<Rightarrow> 's \<Rightarrow> bool) \<Rightarrow> (int set \<Rightarrow> 't \<Rightarrow> bool) \<Rightarrow> int set \<Rightarrow> 's \<times> 't \<Rightarrow> bool" where
  "both M N I J S (a, b) \<longleftrightarrow>
     (\<exists>A B. S = A \<union> B \<and> A \<inter> B = {} \<and> I A a \<and> J B b \<and> past M a = past N b)"

lemma both_left:
  assumes "party M I" and "party N J" and "both M N I J S (a, b)" and "moves M a a'"
  shows "\<exists>evs. past M a' = evs @ past M a \<and> fair S (past M a) evs \<and>
    both M N I J (owns S evs) (a', told N evs b) \<and>
    share M a \<union> share N b \<subseteq> share M a' \<union> share N (told N evs b) \<and>
    (\<forall>e\<in>set evs. is_send e \<longrightarrow> e \<in> share M a' \<union> share N (told N evs b))"
proof -
  obtain A B where S: "S = A \<union> B" "A \<inter> B = {}" and i: "I A a" "J B b" and h: "past M a = past N b"
    using assms(3) by auto
  obtain evs where e: "past M a' = evs @ past M a" "fair A (past M a) evs" "I (owns A evs) a'"
    "share M a \<subseteq> share M a'" "\<forall>e\<in>set evs. is_send e \<longrightarrow> e \<in> share M a'"
    using party.acts[OF assms(1) i(1) assms(4)] by blast
  have A: "A \<subseteq> open_fds (past M a)" "B \<subseteq> open_fds (past M a)"
    using party.owned[OF assms(1) i(1)] party.owned[OF assms(2) i(2)] h by auto
  from party.tolerates[OF assms(2) i(2) e(2)[unfolded h] A(1)[unfolded h] S(2)]
  have b: "J B (told N evs b)" "past N (told N evs b) = evs @ past M a" "share N (told N evs b) = share N b"
    using h by simp_all
  have o: "owns S evs = owns A evs \<union> B" "owns A evs \<inter> B = {}"
    using fair_frame[OF e(2) A S(2)] S(1) by simp_all
  then have "both M N I J (owns S evs) (a', told N evs b)" using e(1,3) b(1,2) by auto
  moreover have "fair S (past M a) evs" using fair_widen[OF e(2)] S(1) by blast
  ultimately show ?thesis using e b(3) by blast
qed

lemma both_swap: "both M N I J S (a, b) = both N M J I S (b, a)"
  by (simp, metis Un_commute Int_commute)

declare both.simps [simp del]

lemma both_owned:
  assumes "party M I" and "party N J" and "both M N I J S (a, b)"
  shows "S \<subseteq> open_fds (past M a) \<and> clean (past M a)"
  using assms(3) party.owned[OF assms(1)] party.owned[OF assms(2)] by (force simp: both.simps)

lemma both_tolerates:
  assumes "party M I" and "party N J" and "both M N I J S (a, b)"
    and "fair P (past M a) evs" and "P \<subseteq> open_fds (past M a)" and "P \<inter> S = {}"
  shows "both M N I J S (told M evs a, told N evs b) \<and> past M (told M evs a) = evs @ past M a \<and>
    share M (told M evs a) \<union> share N (told N evs b) = share M a \<union> share N b"
proof -
  obtain A B where S: "S = A \<union> B" "A \<inter> B = {}" and i: "I A a" "J B b" and h: "past M a = past N b"
    using assms(3) by (auto simp: both.simps)
  have "P \<inter> A = {}" "P \<inter> B = {}" using assms(6) S(1) by auto
  with party.tolerates[OF assms(1) i(1) assms(4,5)] party.tolerates[OF assms(2) i(2)] assms(4,5) S h
  show ?thesis by (auto simp: both.simps)
qed

locale two_parties = one: party M I + two: party N J
  for M :: "'s part" and I and N :: "'t part" and J

sublocale two_parties \<subseteq> joint: party "side_by_side M N" "both M N I J"
proof
  note ps = one.party_axioms two.party_axioms
  show "S \<subseteq> open_fds (past (side_by_side M N) s) \<and> clean (past (side_by_side M N) s)"
    if "both M N I J S s" for S s
    using both_owned[OF ps] that by (cases s) simp
  show "both M N I J S (told (side_by_side M N) evs s) \<and>
      past (side_by_side M N) (told (side_by_side M N) evs s) = evs @ past (side_by_side M N) s \<and>
      share (side_by_side M N) (told (side_by_side M N) evs s) = share (side_by_side M N) s"
    if "both M N I J S s" "fair P (past (side_by_side M N) s) evs" "P \<subseteq> open_fds (past (side_by_side M N) s)"
      "P \<inter> S = {}" for S s P evs
    using both_tolerates[OF ps] that by (cases s) simp
  show "\<exists>evs. past (side_by_side M N) t = evs @ past (side_by_side M N) s \<and>
      fair S (past (side_by_side M N) s) evs \<and> both M N I J (owns S evs) t \<and>
      share (side_by_side M N) s \<subseteq> share (side_by_side M N) t \<and>
      (\<forall>e\<in>set evs. is_send e \<longrightarrow> e \<in> share (side_by_side M N) t)"
    if b: "both M N I J S s" and m: "moves (side_by_side M N) s t" for S s t
    using m[unfolded side_sel]
  proof (cases rule: beside.cases)
    case (left a b' a')
    with both_left[OF ps, of S a b' a'] b show ?thesis by auto
  next
    case (right a b' b'')
    have h: "past M a = past N b'" using b right(1) by (auto simp: both.simps)
    have "both N M J I S (b', a)" using b right(1) both_swap[of M N I J S a b'] by simp
    from both_left[OF ps(2) ps(1) this right(5)] obtain evs where e: "past N b'' = evs @ past N b'"
      "fair S (past N b') evs" "both N M J I (owns S evs) (b'', told M evs a)"
      "share N b' \<union> share M a \<subseteq> share N b'' \<union> share M (told M evs a)"
      "\<forall>e\<in>set evs. is_send e \<longrightarrow> e \<in> share N b'' \<union> share M (told M evs a)" by blast
    have t: "t = (told M evs a, b'')" using right(2) e(1) by simp
    have "both M N I J (owns S evs) t" using e(3) unfolding t by (subst both_swap)
    moreover from this have "past M (told M evs a) = past N b''" by (auto simp: t both.simps)
    ultimately show ?thesis using e right(1) t h by (intro exI[of _ evs]) auto
  qed
qed

subsection \<open>A broken pipe ends the process\<close>

text \<open>
  Documented behaviour of \<open>send\<close>: on a connection the peer has closed it fails with \<open>EPIPE\<close>, and
  unless \<open>MSG_NOSIGNAL\<close> is among the flags the process gets \<open>SIGPIPE\<close>, which ends it, as no
  program of the repository changes what that signal does.
\<close>

definition EPIPE :: errno where
  "EPIPE = EOther 32"

definition MSG_NOSIGNAL :: int where
  "MSG_NOSIGNAL = 0x4000"

fun sigpipe :: "event \<Rightarrow> bool" where
  "sigpipe (E_send fd bs fl (Fail e)) \<longleftrightarrow> e = EPIPE \<and> fl AND MSG_NOSIGNAL = 0"
| "sigpipe _ \<longleftrightarrow> False"

definition killed :: "history \<Rightarrow> bool" where
  "killed H \<longleftrightarrow> list_ex sigpipe H"

lemma killed_simps [simp]: "\<not> killed []" "killed (e # h) \<longleftrightarrow> sigpipe e \<or> killed h"
  "killed (h @ h') \<longleftrightarrow> killed h \<or> killed h'"
  by (simp_all add: killed_def)

lemma killed_iff: "killed H \<longleftrightarrow> (\<exists>e\<in>set H. sigpipe e)"
  by (simp add: killed_def list_ex_iff)

lemma sigpipe_send: "sigpipe e \<Longrightarrow> is_send e"
  by (cases e rule: sigpipe.cases) auto

text \<open>A program made of parts runs until then.\<close>

definition program_step :: "'s part \<Rightarrow> 's \<Rightarrow> 's \<Rightarrow> bool" where
  "program_step M s t \<longleftrightarrow> \<not> killed (past M s) \<and> moves M s t"

lemma program_moves: "reach (program_step M) s t \<Longrightarrow> reach (moves M) s t"
  by (erule reach_mono) (simp add: program_step_def)

lemma killed_stuck: "killed (past M s) \<Longrightarrow> \<not> program_step M s t"
  by (simp add: program_step_def)

end
