(* ===== verification/Service.thy ===== *)
theory Service
  imports Process
begin

text \<open>
  The life of a server in a program: an object that is started, serves in its accept loop, leaves
  it, and is destroyed, while the threads of its clients go on.  Every server that keeps the
  contract of a \<open>fleet\<close> and starts without touching foreign descriptors is a \<open>party\<close>.
\<close>

subsection \<open>The life cycle\<close>

text \<open>
  \<open>shop\<close> is the server with its clients; \<open>gone\<close> says that the object has been destroyed.  The
  parameters are what \<open>start\<close> does before the accept loop, and the destruction of what a finished
  client has left behind once the server no longer holds it.
\<close>

record ('s, 'c) service =
  started :: bool
  gone :: bool
  shop :: "('s, 'c) fleet_state"

definition new_service :: "'s \<Rightarrow> ('s, 'c) service" where
  "new_service s = \<lparr>started = False, gone = False, shop = \<lparr>acceptor = s, crew = [], serving = False\<rparr>\<rparr>"

inductive service_step ::
  "('s, 'c) design \<Rightarrow> ('s \<Rightarrow> bool \<times> 's) \<Rightarrow> ('c \<Rightarrow> 'c \<Rightarrow> bool) \<Rightarrow> ('s, 'c) service \<Rightarrow> ('s, 'c) service \<Rightarrow> bool"
  for D :: "('s, 'c) design" and begin_with :: "'s \<Rightarrow> bool \<times> 's" and release :: "'c \<Rightarrow> 'c \<Rightarrow> bool" where
  starts: "\<not> started v \<Longrightarrow> begin_with (acceptor (shop v)) = (ok, s) \<Longrightarrow>
     service_step D begin_with release v
       (v\<lparr>started := True, shop := \<lparr>acceptor = s, crew = [], serving = ok\<rparr>\<rparr>)"
| serves: "started v \<Longrightarrow> fleet_step D (shop v) b \<Longrightarrow> service_step D begin_with release v (v\<lparr>shop := b\<rparr>)"
| destroyed: "started v \<Longrightarrow> \<not> serving (shop v) \<Longrightarrow> service_step D begin_with release v (v\<lparr>gone := True\<rparr>)"
| releases: "gone v \<Longrightarrow> i < length (crew (shop v)) \<Longrightarrow> release (crew (shop v) ! i) t \<Longrightarrow>
     service_step D begin_with release v (v\<lparr>shop := work_at D i t (shop v)\<rparr>)"

definition service_part ::
  "('s, 'c) design \<Rightarrow> ('s \<Rightarrow> bool \<times> 's) \<Rightarrow> ('c \<Rightarrow> 'c \<Rightarrow> bool) \<Rightarrow> ('s, 'c) service part" where
  "service_part D begin_with release =
     \<lparr>moves = service_step D begin_with release,
      past = (\<lambda>v. all_calls D (shop v)),
      told = (\<lambda>evs v. v\<lparr>shop := (shop v)\<lparr>acceptor := log_calls D evs (acceptor (shop v))\<rparr>\<rparr>),
      healthy = (\<lambda>v. running D (shop v)),
      share = (\<lambda>v. \<Union>c\<in>set (crew (shop v)). set (own_calls D c))\<rparr>"

lemma service_sel [simp]:
  "moves (service_part D begin_with release) = service_step D begin_with release"
  "past (service_part D begin_with release) v = all_calls D (shop v)"
  "told (service_part D begin_with release) evs v = v\<lparr>shop := (shop v)\<lparr>acceptor := log_calls D evs (acceptor (shop v))\<rparr>\<rparr>"
  "healthy (service_part D begin_with release) v = running D (shop v)"
  "share (service_part D begin_with release) v = (\<Union>c\<in>set (crew (shop v)). set (own_calls D c))"
  by (simp_all add: service_part_def)

text \<open>Executable steps.\<close>

datatype 'a service_move = Start | Run "'a move" | Destroy | Release nat

fun service_next ::
  "('s, 'c) design \<Rightarrow> ('s \<Rightarrow> bool \<times> 's) \<Rightarrow> ('c \<Rightarrow> 'c option) \<Rightarrow> (history \<Rightarrow> 'a \<Rightarrow> 'c \<Rightarrow> 'c option) \<Rightarrow>
   'a service_move \<Rightarrow> ('s, 'c) service \<Rightarrow> ('s, 'c) service option" where
  "service_next D begin_with release next Start v =
     (if started v then None
      else (case begin_with (acceptor (shop v)) of
        (ok, s) \<Rightarrow> Some (v\<lparr>started := True, shop := \<lparr>acceptor = s, crew = [], serving = ok\<rparr>\<rparr>)))"
| "service_next D begin_with release next (Run a) v =
     (if started v then map_option (\<lambda>b. v\<lparr>shop := b\<rparr>) (fleet_next D next a (shop v)) else None)"
| "service_next D begin_with release next Destroy v =
     (if started v \<and> \<not> serving (shop v) then Some (v\<lparr>gone := True\<rparr>) else None)"
| "service_next D begin_with release next (Release i) v =
     (if gone v \<and> i < length (crew (shop v))
      then map_option (\<lambda>t. v\<lparr>shop := work_at D i t (shop v)\<rparr>) (release (crew (shop v) ! i)) else None)"

lemma service_next_step:
  assumes "\<And>H a c t. next H a c = Some t \<Longrightarrow> thread_step D H c t" and "\<And>c t. release c = Some t \<Longrightarrow> rel c t"
    and "service_next D begin_with release next m v = Some w"
  shows "service_step D begin_with rel v w"
proof (cases m)
  case (Run a)
  then obtain b where "started v" "fleet_next D next a (shop v) = Some b" "w = v\<lparr>shop := b\<rparr>"
    using assms(3) by (auto split: if_splits)
  with fleet_next_step[of "next" D a "shop v" b, OF assms(1)] show ?thesis by (auto intro: service_step.serves)
qed (use assms in \<open>auto split: if_splits prod.splits intro: service_step.intros\<close>)

subsection \<open>A service owns its sockets and its live connections\<close>

text \<open>\<open>B\<close> are the sockets \<open>start\<close> has made, the rest of \<open>S\<close> the connections.\<close>

definition holding ::
  "('s, 'c) design \<Rightarrow> ('s \<Rightarrow> bool) \<Rightarrow> ('s \<Rightarrow> int list) \<Rightarrow> (int \<Rightarrow> 'c \<Rightarrow> bool) \<Rightarrow> bool \<Rightarrow> int set \<Rightarrow> int set \<Rightarrow>
   ('s, 'c) fleet_state \<Rightarrow> bool" where
  "holding D sound conns good leaky B S b \<longleftrightarrow>
     (\<exists>open0. fleet_inv D sound conns good leaky open0 b \<and> B \<subseteq> open0 \<and> open0 \<subseteq> open_fds (all_calls D b) \<and>
       S = B \<union> (open_fds (all_calls D b) - open0))"

definition service_inv ::
  "('s, 'c) design \<Rightarrow> ('s \<Rightarrow> bool) \<Rightarrow> ('s \<Rightarrow> int list) \<Rightarrow> (int \<Rightarrow> 'c \<Rightarrow> bool) \<Rightarrow> bool \<Rightarrow> int set \<Rightarrow>
   ('s, 'c) service \<Rightarrow> bool" where
  "service_inv D sound conns good leaky S v \<longleftrightarrow>
     (\<exists>B L. holding D sound conns good leaky B S (shop v) \<and> B \<subseteq> {L}) \<and>
     (\<not> started v \<longrightarrow> S = {} \<and> crew (shop v) = [] \<and> \<not> serving (shop v)) \<and> (gone v \<longrightarrow> started v \<and> \<not> serving (shop v))"

lemma fair_accept:
  assumes "list_all is_option opts" and "0 \<le> c_ret id r \<longrightarrow> c_ret id r \<notin> open_fds h"
  shows "fair S h (opts @ [E_accept l r]) \<and> (\<forall>e\<in>set (opts @ [E_accept l r]). \<not> is_send e)"
proof -
  have "\<forall>e\<in>set opts. \<not> is_send e" using assms(1) by (fastforce simp: list_all_iff elim: is_option.elims)
  then show ?thesis using assms fair_options[OF assms(1)] by (auto simp: fair_append)
qed

lemma shares_update:
  assumes "i < length cs" and "set (own (cs ! i)) \<subseteq> set (own t)"
  shows "(\<Union>c\<in>set cs. set (own c)) \<subseteq> (\<Union>c\<in>set (cs[i := t]). set (own c)) \<and>
    set (own t) \<subseteq> (\<Union>c\<in>set (cs[i := t]). set (own c))"
proof -
  have "cs = take i cs @ cs ! i # drop (Suc i) cs" using assms(1) by (rule id_take_nth_drop)
  then have "set cs = insert (cs ! i) (set (take i cs) \<union> set (drop (Suc i) cs))"
    by (metis Un_insert_right list.simps(15) set_append)
  moreover have "set (cs[i := t]) = insert t (set (take i cs) \<union> set (drop (Suc i) cs))"
    using assms(1) by (simp add: upd_conv_take_nth_drop)
  ultimately show ?thesis using assms(2) by auto
qed

lemma fair_client:
  assumes "client_calls fd h evs" and "live fd h \<Longrightarrow> fd \<in> P"
  shows "fair P H evs"
  using assms by (auto simp: client_calls_def)

lemma fleet_step_serving: "fleet_step D b b' \<Longrightarrow> serving b' \<Longrightarrow> serving b"
  by (cases rule: fleet_step.cases) (auto simp: work_at_def)

context fleet
begin

lemma deed_calls:
  assumes "fleet_inv D sound conns good leaky open0 b" and "i < length (crew b)"
    and "deed (conns (acceptor b) ! i) (crew b ! i) t evs"
  shows "all_calls D (work_at D i t b) = evs @ all_calls D b \<and>
    fair (open_fds (all_calls D b) - open0) (all_calls D b) evs \<and>
    (\<Union>c\<in>set (crew b). set (own_calls D c)) \<subseteq> (\<Union>c\<in>set (crew (work_at D i t b)). set (own_calls D c)) \<and>
    (\<forall>e\<in>set evs. is_send e \<longrightarrow> e \<in> (\<Union>c\<in>set (crew (work_at D i t b)). set (own_calls D c)))"
proof -
  note at = client_at[OF assms(1,2)] and new = work_at_sel[OF assms]
  have d: "client_calls (conns (acceptor b) ! i) (own_calls D (crew b ! i)) evs"
    "own_calls D t = evs @ own_calls D (crew b ! i)" using assms(3) by (simp_all add: deed_def)
  have "set (own_calls D (crew b ! i)) \<subseteq> set (own_calls D t)" using d(2) by auto
  from shares_update[OF assms(2), of "own_calls D" t, OF this] fair_client[OF d(1) at(4)] new(2,6) d(2)
  show ?thesis by auto
qed

lemma fleet_step_calls:
  assumes "fleet_inv D sound conns good leaky open0 b" and "fleet_step D b b'"
  shows "\<exists>evs. all_calls D b' = evs @ all_calls D b \<and> fair (open_fds (all_calls D b) - open0) (all_calls D b) evs \<and>
    (\<Union>c\<in>set (crew b). set (own_calls D c)) \<subseteq> (\<Union>c\<in>set (crew b'). set (own_calls D c)) \<and>
    (\<forall>e\<in>set evs. is_send e \<longrightarrow> e \<in> (\<Union>c\<in>set (crew b'). set (own_calls D c)))"
proof -
  have s: "sound (acceptor b)" using assms(1) by (simp add: fleet_inv_def)
  from assms(2) show ?thesis
  proof (cases rule: fleet_step.cases)
    case (accept_client s')
    obtain opts l r where o: "list_all is_option opts" "calls D s' = opts @ E_accept l r # calls D (acceptor b)"
      "c_ret id r \<notin> open_fds (calls D (acceptor b))" using turn_accepts[OF s accept_client(4)] by blast
    then have "0 \<le> c_ret id r \<longrightarrow> c_ret id r \<notin> open_fds (all_calls D b)" by (simp add: all_calls_def)
    from fair_accept[OF o(1) this, of "open_fds (all_calls D b) - open0" l] o(2) accept_client(1) show ?thesis
      by (intro exI[of _ "opts @ [E_accept l r]"]) (simp add: all_calls_def)
  next
    case (leave_loop ok s')
    obtain opts l r where o: "list_all is_option opts" "calls D s' = opts @ E_accept l r # calls D (acceptor b)"
      "0 \<le> c_ret id r \<longrightarrow> c_ret id r \<notin> open_fds (all_calls D b)"
      using turn_leaves[OF s leave_loop(4)] unfolding all_calls_def by blast
    from fair_accept[OF o(1,3), of "open_fds (all_calls D b) - open0" l] o(2) leave_loop(1) show ?thesis
      by (intro exI[of _ "opts @ [E_accept l r]"]) (simp add: all_calls_def)
  next
    case (client_works i t)
    obtain evs where "deed (conns (acceptor b) ! i) (crew b ! i) t evs"
      using works_deed[OF assms(1) client_works(3,4)] .
    from deed_calls[OF assms(1) client_works(3) this] client_works(1) show ?thesis by blast
  qed
qed

lemma holding_step:
  assumes "fleet_inv D sound conns good leaky open0 b'" and "fleet_inv D sound conns good leaky open0 b"
    and "all_calls D b' = evs @ all_calls D b" and "fair (open_fds (all_calls D b) - open0) (all_calls D b) evs"
    and "B \<subseteq> open0" and "open0 \<subseteq> open_fds (all_calls D b)" and "S = B \<union> (open_fds (all_calls D b) - open0)"
  shows "fair S (all_calls D b) evs \<and> holding D sound conns good leaky B (owns S evs) b'"
proof -
  let ?H = "all_calls D b" and ?P = "open_fds (all_calls D b) - open0"
  have P: "?P \<subseteq> open_fds ?H" "B \<subseteq> open_fds ?H" "?P \<inter> open0 = {}" "?P \<inter> B = {}" using assms(5,6) by auto
  have o: "owns (?P \<union> open0) evs = owns ?P evs \<union> open0" "owns ?P evs \<inter> open0 = {}" "open0 \<subseteq> open_fds (evs @ ?H)"
    using fair_frame[OF assms(4) P(1) assms(6) P(3)] by auto
  have "open_fds (evs @ ?H) = owns (?P \<union> open0) evs" using assms(6) by (simp add: open_fds_append Un_absorb2)
  with o have "owns ?P evs = open_fds (evs @ ?H) - open0" by auto
  moreover have "owns S evs = owns ?P evs \<union> B"
    using fair_frame[OF assms(4) P(1,2,4)] by (simp add: assms(7) Un_commute)
  ultimately have "holding D sound conns good leaky B (owns S evs) b'"
    unfolding holding_def using assms(1,3,5) o(3) by auto
  moreover have "fair S ?H evs" using fair_widen[OF assms(4)] assms(7) by blast
  ultimately show ?thesis by blast
qed

lemma holding_told:
  assumes "holding D sound conns good leaky B S b" and "fair P (all_calls D b) evs"
    and "P \<subseteq> open_fds (all_calls D b)" and "P \<inter> S = {}"
  defines "b' \<equiv> b\<lparr>acceptor := log_calls D evs (acceptor b)\<rparr>"
  shows "holding D sound conns good leaky B S b' \<and> all_calls D b' = evs @ all_calls D b"
proof -
  let ?H = "all_calls D b" and ?own = "own_calls D" and ?ts = "team conns b"
  obtain open0 where f: "fleet_inv D sound conns good leaky open0 b" and B: "B \<subseteq> open0" "open0 \<subseteq> open_fds ?H"
    and S: "S = B \<union> (open_fds ?H - open0)" using assms(1) by (auto simp: holding_def)
  obtain lost where t: "team_inv good ?own open0 lost ?H ?ts" and lost: "serving b \<or> \<not> leaky \<longrightarrow> lost = {}"
    "\<exists>fd. lost \<subseteq> {fd}" using f by (auto simp: fleet_inv_def)
  have s: "sound (acceptor b)" using f by (simp add: fleet_inv_def)
  note keeps = logs[OF s, of evs]
  have b': "acceptor b' = log_calls D evs (acceptor b)" "crew b' = crew b" "serving b' = serving b"
    by (simp_all add: b'_def)
  have all: "all_calls D b' = evs @ ?H" "team conns b' = ?ts" using keeps by (simp_all add: all_calls_def b' team_def)
  let ?L = "open_fds ?H - open0" and ?open1 = "open_fds (evs @ ?H) - (open_fds ?H - open0)"
  have L: "set (live_fds ?own ?ts) \<union> lost = ?L" using t by (auto simp: team_inv_def crew_inv_def live_fds_def live_team_def)
  have keep: "S \<subseteq> open_fds (evs @ ?H)" using fair_frame[OF assms(2,3), of S] assms(4) S B by auto
  have crew: "crew_inv good ?own ?open1 (evs @ ?H) fd c" if "(fd, c) \<in> set ?ts" for fd c
  proof -
    have i: "crew_inv good ?own open0 ?H fd c" using t that by (auto simp: team_inv_def)
    show ?thesis
    proof (cases "live fd (?own c)")
      case True
      then have "fd \<in> ?L" using L live_fds_mem[OF that, of ?own] True by blast
      then have "fd \<notin> P" "fd \<in> open_fds ?H" using assms(4) S by auto
      from fair_stream[OF assms(2,3) this(2,1)] i \<open>fd \<in> ?L\<close> True show ?thesis by (simp add: crew_inv_def)
    qed (use i in \<open>simp add: crew_inv_def\<close>)
  qed
  have "clean (evs @ ?H)" using fair_clean[OF assms(2,3)] t by (simp add: team_inv_def)
  moreover have "open_fds (evs @ ?H) = ?open1 \<union> set (live_fds ?own ?ts) \<union> lost" using L keep S by auto
  moreover have "lost \<inter> (?open1 \<union> set (live_fds ?own ?ts)) = {}" using L t by (auto simp: team_inv_def)
  ultimately have "team_inv good ?own ?open1 lost (evs @ ?H) ?ts"
    using t crew unfolding team_inv_def by blast
  then have "fleet_inv D sound conns good leaky ?open1 b'"
    using f keeps lost by (auto simp: fleet_inv_def all b')
  moreover have "B \<subseteq> ?open1" using keep S B by auto
  moreover have "S = B \<union> (open_fds (evs @ ?H) - ?open1)" using keep S B by auto
  ultimately show ?thesis unfolding holding_def all by blast
qed

lemma holding_owned: "holding D sound conns good leaky B S b \<Longrightarrow> S \<subseteq> open_fds (all_calls D b) \<and> clean (all_calls D b)"
  by (auto simp: holding_def fleet_inv_def team_inv_def)

lemma holding_acts:
  assumes "holding D sound conns good leaky B S b" and "fleet_step D b b'"
  shows "\<exists>evs. all_calls D b' = evs @ all_calls D b \<and> fair S (all_calls D b) evs \<and>
    holding D sound conns good leaky B (owns S evs) b' \<and>
    (\<Union>c\<in>set (crew b). set (own_calls D c)) \<subseteq> (\<Union>c\<in>set (crew b'). set (own_calls D c)) \<and>
    (\<forall>e\<in>set evs. is_send e \<longrightarrow> e \<in> (\<Union>c\<in>set (crew b'). set (own_calls D c)))"
proof -
  obtain open0 where f: "fleet_inv D sound conns good leaky open0 b" and B: "B \<subseteq> open0" "open0 \<subseteq> open_fds (all_calls D b)"
    "S = B \<union> (open_fds (all_calls D b) - open0)" using assms(1) by (auto simp: holding_def)
  from fleet_step_calls[OF f assms(2)] obtain evs where e: "all_calls D b' = evs @ all_calls D b"
    "fair (open_fds (all_calls D b) - open0) (all_calls D b) evs"
    "(\<Union>c\<in>set (crew b). set (own_calls D c)) \<subseteq> (\<Union>c\<in>set (crew b'). set (own_calls D c))"
    "\<forall>e\<in>set evs. is_send e \<longrightarrow> e \<in> (\<Union>c\<in>set (crew b'). set (own_calls D c))" by blast
  have "fleet_inv D sound conns good leaky open0 b'" using fleet_inv_step[OF f assms(2)] by blast
  from holding_step[OF this f e(1,2) B] e show ?thesis by blast
qed

lemma holding_deed:
  assumes "holding D sound conns good leaky B S b" and "i < length (crew b)"
    and "\<And>fd. good fd (crew b ! i) \<Longrightarrow> \<exists>evs. deed fd (crew b ! i) t evs"
  shows "\<exists>evs. all_calls D (work_at D i t b) = evs @ all_calls D b \<and> fair S (all_calls D b) evs \<and>
    holding D sound conns good leaky B (owns S evs) (work_at D i t b) \<and>
    (\<Union>c\<in>set (crew b). set (own_calls D c)) \<subseteq> (\<Union>c\<in>set (crew (work_at D i t b)). set (own_calls D c)) \<and>
    (\<forall>e\<in>set evs. is_send e \<longrightarrow> e \<in> (\<Union>c\<in>set (crew (work_at D i t b)). set (own_calls D c)))"
proof -
  obtain open0 where f: "fleet_inv D sound conns good leaky open0 b" and B: "B \<subseteq> open0" "open0 \<subseteq> open_fds (all_calls D b)"
    "S = B \<union> (open_fds (all_calls D b) - open0)" using assms(1) by (auto simp: holding_def)
  obtain evs where d: "deed (conns (acceptor b) ! i) (crew b ! i) t evs" using assms(3)[OF client_at(2)[OF f assms(2)]] ..
  note c = deed_calls[OF f assms(2) d]
  have "fleet_inv D sound conns good leaky open0 (work_at D i t b)" using fleet_inv_deed[OF f assms(2) d] by blast
  from holding_step[OF this f _ _ B, of evs] c show ?thesis by blast
qed

end


subsection \<open>The contract\<close>

text \<open>
  Documented behaviour of \<open>socket\<close>: the descriptor it returns is not one the process has open.
\<close>

definition socket_fresh :: "platform \<Rightarrow> bool" where
  "socket_fresh p \<longleftrightarrow> (\<forall>h d n. k_socket p h d = Done n \<longrightarrow> n \<notin> open_fds h)"

text \<open>Calls that at most open one socket and prepare it.\<close>

definition socket_calls :: "history \<Rightarrow> history \<Rightarrow> bool" where
  "socket_calls h h' \<longleftrightarrow> (\<exists>evs L. h' = evs @ h \<and> fair {} h evs \<and> (\<forall>e\<in>set evs. \<not> is_send e) \<and> owns {} evs \<subseteq> {L})"

lemma socket_calls_refl: "socket_calls h h"
  by (simp add: socket_calls_def)

lemma socket_calls_first:
  assumes "socket_fresh p"
  shows "socket_calls h (E_socket d (k_socket p h d) # h)"
proof -
  have "0 \<le> c_ret id (k_socket p h d) \<Longrightarrow> c_ret id (k_socket p h d) \<notin> open_fds h"
    using assms by (cases "k_socket p h d") (auto simp: socket_fresh_def)
  then show ?thesis unfolding socket_calls_def by (intro exI[of _ "[E_socket d (k_socket p h d)]"]) auto
qed

lemma socket_calls_event:
  assumes "socket_calls h h'" and "\<And>S. fair_call S h' e \<and> owns S [e] = S" and "\<not> is_send e"
  shows "socket_calls h (e # h')"
proof -
  obtain evs L where evs: "h' = evs @ h" "fair {} h evs" "\<forall>e\<in>set evs. \<not> is_send e" "owns {} evs \<subseteq> {L}"
    using assms(1) by (auto simp: socket_calls_def)
  then have "fair {} h (e # evs) \<and> owns {} (e # evs) \<subseteq> {L}"
    using assms(2) owns_append[of "{}" "[e]" evs] by auto
  with evs assms(3) show ?thesis unfolding socket_calls_def by (intro exI[of _ "e # evs"]) auto
qed

lemma socket_calls_more:
  "socket_calls h h' \<Longrightarrow> socket_calls h (E_setsockopt fd opt r # h')"
  "socket_calls h h' \<Longrightarrow> socket_calls h (E_bind fd a r # h')"
  "socket_calls h h' \<Longrightarrow> socket_calls h (E_listen fd n r # h')"
  by (erule socket_calls_event; simp)+

text \<open>
  The contract: \<open>start\<close> takes only new descriptors, and releasing what a client has left behind is
  a step the client itself might have taken.
\<close>

locale service = fleet D sound conns good leaky
  for D :: "('s, 'c) design" and sound :: "'s \<Rightarrow> bool" and conns :: "'s \<Rightarrow> int list"
    and good :: "int \<Rightarrow> 'c \<Rightarrow> bool" and leaky :: bool +
  fixes begin_with :: "'s \<Rightarrow> bool \<times> 's" and release :: "'c \<Rightarrow> 'c \<Rightarrow> bool"
  assumes begins: "sound s \<Longrightarrow> conns s = [] \<Longrightarrow> begin_with s = (ok, s') \<Longrightarrow> sound s' \<and> conns s' = [] \<and>
      socket_calls (calls D s) (calls D s')"
    and lets_go: "good fd c \<Longrightarrow> release c t \<Longrightarrow> good fd t \<and>
      (\<exists>evs. client_calls fd (own_calls D c) evs \<and> own_calls D t = evs @ own_calls D c)"
begin

lemma begin_acts:
  assumes "service_inv D sound conns good leaky S v" and "\<not> started v"
    and "begin_with (acceptor (shop v)) = (ok, s)"
  defines "v' \<equiv> v\<lparr>started := True, shop := \<lparr>acceptor = s, crew = [], serving = ok\<rparr>\<rparr>"
  shows "\<exists>evs. all_calls D (shop v') = evs @ all_calls D (shop v) \<and> fair S (all_calls D (shop v)) evs \<and>
    service_inv D sound conns good leaky (owns S evs) v' \<and> (\<forall>e\<in>set evs. \<not> is_send e)"
proof -
  let ?H = "all_calls D (shop v)"
  have S: "S = {}" and crew: "crew (shop v) = []" and "\<not> gone v" using assms(1,2) by (auto simp: service_inv_def)
  obtain open0 where f: "fleet_inv D sound conns good leaky open0 (shop v)" using assms(1)
    by (auto simp: service_inv_def holding_def)
  then have "sound (acceptor (shop v))" "conns (acceptor (shop v)) = []" "clean ?H"
    using crew by (auto simp: fleet_inv_def team_inv_def)
  from begins[OF this(1,2) assms(3)] obtain evs L where e: "sound s" "conns s = []"
    "calls D s = evs @ ?H" "fair {} ?H evs" "\<forall>e\<in>set evs. \<not> is_send e" "owns {} evs \<subseteq> {L}" by (auto simp: all_calls_def socket_calls_def)
  let ?b = "\<lparr>acceptor = s, crew = [], serving = ok\<rparr>"
  have h: "all_calls D ?b = evs @ ?H" using e(3) by (simp add: all_calls_def)
  have "clean (evs @ ?H)" using fair_clean[OF e(4)] \<open>clean ?H\<close> by simp
  then have "fleet_inv D sound conns good leaky (open_fds (evs @ ?H)) ?b"
    using e(1,2) h by (auto simp: fleet_inv_def team_inv_def team_def intro!: exI[of _ "{}"])
  moreover have "owns {} evs \<subseteq> open_fds (evs @ ?H)" using fair_frame[OF e(4), of "{}"] by simp
  ultimately have "holding D sound conns good leaky (owns {} evs) (owns {} evs) ?b" by (auto simp: holding_def h)
  then have "service_inv D sound conns good leaky (owns S evs) v'"
    using \<open>\<not> gone v\<close> e(6) by (auto simp: service_inv_def v'_def S)
  with e h S show ?thesis by (auto simp: v'_def)
qed

end

sublocale service \<subseteq> life: party "service_part D begin_with release" "service_inv D sound conns good leaky"
proof
  show "S \<subseteq> open_fds (past (service_part D begin_with release) v) \<and> clean (past (service_part D begin_with release) v)"
    if "service_inv D sound conns good leaky S v" for S v
    using that holding_owned by (auto simp: service_inv_def)
  show "service_inv D sound conns good leaky S (told (service_part D begin_with release) evs v) \<and>
      past (service_part D begin_with release) (told (service_part D begin_with release) evs v) =
        evs @ past (service_part D begin_with release) v \<and>
      share (service_part D begin_with release) (told (service_part D begin_with release) evs v) =
        share (service_part D begin_with release) v"
    if "service_inv D sound conns good leaky S v" "fair P (past (service_part D begin_with release) v) evs"
      "P \<subseteq> open_fds (past (service_part D begin_with release) v)" "P \<inter> S = {}" for S v P evs
    using that holding_told[of _ S "shop v" P evs] by (auto simp: service_inv_def)
  show "\<exists>evs. past (service_part D begin_with release) t = evs @ past (service_part D begin_with release) v \<and>
      fair S (past (service_part D begin_with release) v) evs \<and> service_inv D sound conns good leaky (owns S evs) t \<and>
      share (service_part D begin_with release) v \<subseteq> share (service_part D begin_with release) t \<and>
      (\<forall>e\<in>set evs. is_send e \<longrightarrow> e \<in> share (service_part D begin_with release) t)"
    if i: "service_inv D sound conns good leaky S v" and m: "moves (service_part D begin_with release) v t" for S v t
    using m[unfolded service_sel]
  proof (cases rule: service_step.cases)
    case (starts ok s)
    from begin_acts[OF i starts(2,3)] starts(1) i show ?thesis by (auto simp: service_inv_def starts(2))
  next
    case (serves b)
    obtain B L where h: "holding D sound conns good leaky B S (shop v)" "B \<subseteq> {L}" using i by (auto simp: service_inv_def)
    from holding_acts[OF h(1) serves(3)] obtain evs where e: "all_calls D b = evs @ all_calls D (shop v)"
      "fair S (all_calls D (shop v)) evs" "holding D sound conns good leaky B (owns S evs) b"
      "(\<Union>c\<in>set (crew (shop v)). set (own_calls D c)) \<subseteq> (\<Union>c\<in>set (crew b). set (own_calls D c))"
      "\<forall>e\<in>set evs. is_send e \<longrightarrow> e \<in> (\<Union>c\<in>set (crew b). set (own_calls D c))" by blast
    have "service_inv D sound conns good leaky (owns S evs) t"
      using e(3) h(2) i serves fleet_step_serving[OF serves(3)] by (auto simp: service_inv_def)
    then show ?thesis unfolding service_sel using e(1,2,4,5) serves(1) by (intro exI[of _ evs]) simp
  next
    case destroyed
    with i show ?thesis by (intro exI[of _ "[]"]) (auto simp: service_inv_def)
  next
    case (releases j c)
    obtain B L where h: "holding D sound conns good leaky B S (shop v)" "B \<subseteq> {L}" using i by (auto simp: service_inv_def)
    have d: "\<exists>evs. deed fd (crew (shop v) ! j) c evs" if "good fd (crew (shop v) ! j)" for fd
      using lets_go[OF that releases(4)] by (auto simp: deed_def)
    from holding_deed[OF h(1) releases(3) d] obtain evs where e: "all_calls D (work_at D j c (shop v)) = evs @ all_calls D (shop v)"
      "fair S (all_calls D (shop v)) evs" "holding D sound conns good leaky B (owns S evs) (work_at D j c (shop v))"
      "(\<Union>c\<in>set (crew (shop v)). set (own_calls D c)) \<subseteq> (\<Union>c\<in>set (crew (work_at D j c (shop v))). set (own_calls D c))"
      "\<forall>e\<in>set evs. is_send e \<longrightarrow> e \<in> (\<Union>c\<in>set (crew (work_at D j c (shop v))). set (own_calls D c))"
      by blast
    have "service_inv D sound conns good leaky (owns S evs) t"
      using e(3) h(2) i releases(1,2) by (auto simp: service_inv_def work_at_def)
    then show ?thesis unfolding service_sel using e(1,2,4,5) releases(1) by (intro exI[of _ evs]) simp
  qed
qed

context service
begin

lemma service_start:
  assumes "sound s" and "conns s = []" and "clean (calls D s)"
  shows "service_inv D sound conns good leaky {} (new_service s)"
proof -
  have "fleet_inv D sound conns good leaky (open_fds (calls D s)) (shop (new_service s))"
    using assms by (auto simp: new_service_def fleet_inv_def team_inv_def team_def all_calls_def intro!: exI[of _ "{}"])
  then show ?thesis by (auto simp: service_inv_def holding_def new_service_def all_calls_def)
qed

text \<open>What a service holds, and what its clients are like.\<close>

lemma service_descriptors:
  assumes "service_inv D sound conns good leaky S v"
  shows "clean (all_calls D (shop v)) \<and> distinct (live_fds (own_calls D) (team conns (shop v))) \<and>
    (\<exists>sock lost L L'. S = sock \<union> set (live_fds (own_calls D) (team conns (shop v))) \<union> lost \<and> sock \<subseteq> {L} \<and> lost \<subseteq> {L'} \<and>
      sock \<inter> (set (live_fds (own_calls D) (team conns (shop v))) \<union> lost) = {} \<and>
      lost \<inter> set (live_fds (own_calls D) (team conns (shop v))) = {} \<and>
      (serving (shop v) \<or> \<not> leaky \<longrightarrow> lost = {}))"
proof -
  obtain B L open0 where f: "fleet_inv D sound conns good leaky open0 (shop v)" and B: "B \<subseteq> {L}" "B \<subseteq> open0"
    "open0 \<subseteq> open_fds (all_calls D (shop v))" "S = B \<union> (open_fds (all_calls D (shop v)) - open0)"
    using assms by (auto simp: service_inv_def holding_def)
  let ?live = "set (live_fds (own_calls D) (team conns (shop v)))"
  obtain lost L' where l: "open_fds (all_calls D (shop v)) = open0 \<union> ?live \<union> lost" "lost \<inter> (open0 \<union> ?live) = {}"
    "serving (shop v) \<or> \<not> leaky \<longrightarrow> lost = {}" "lost \<subseteq> {L'}" using inv_descriptors[OF f] by blast
  have "?live \<inter> open0 = {}" using inv_members[OF f] by (auto simp: live_fds_def live_team_def)
  with l(1,2) B(2,4) have "S = B \<union> ?live \<union> lost" "B \<inter> (?live \<union> lost) = {}" by auto
  moreover have "lost \<inter> ?live = {}" using l(2) by auto
  ultimately show ?thesis using inv_descriptors[OF f] B(1) l(3,4)
    by (intro conjI exI[of _ B] exI[of _ lost] exI[of _ L] exI[of _ L']) simp_all
qed

lemma service_members:
  assumes "service_inv D sound conns good leaky S v" and "(fd, c) \<in> set (team conns (shop v))"
  shows "good fd c \<and> 0 \<le> fd \<and> (live fd (own_calls D c) \<longrightarrow> fd \<in> S \<and>
    conn_stream fd (all_calls D (shop v)) = received fd (own_calls D c))"
proof -
  obtain B open0 where f: "fleet_inv D sound conns good leaky open0 (shop v)"
    "S = B \<union> (open_fds (all_calls D (shop v)) - open0)" using assms(1) by (auto simp: service_inv_def holding_def)
  from inv_members[OF f(1) assms(2)] f(2) show ?thesis by auto
qed

lemma crew_in_team:
  assumes "service_inv D sound conns good leaky S v" and "c \<in> set (crew (shop v))"
  shows "\<exists>fd. (fd, c) \<in> set (team conns (shop v))"
proof -
  have "length (crew (shop v)) = length (conns (acceptor (shop v)))"
    using assms(1) by (auto simp: service_inv_def holding_def fleet_inv_def)
  then show ?thesis using assms(2) in_set_impl_in_set_zip2 unfolding team_def by metis
qed

text \<open>The connections as a table, which a server's start and end leave alone.\<close>

lemma service_table_dom:
  assumes "service_inv D sound conns good leaky S v"
  shows "dom (fleet_table D conns (shop v)) \<subseteq> S"
proof
  fix fd
  assume "fd \<in> dom (fleet_table D conns (shop v))"
  then have "fd \<in> set (live_fds (own_calls D) (team conns (shop v)))"
    using table_of_None[of fd "own_calls D" "team conns (shop v)"] by (cases "fd \<in> set (live_fds (own_calls D) (team conns (shop v)))") (auto simp: fleet_table_def)
  then show "fd \<in> S" using service_descriptors[OF assms] by auto
qed

lemma service_table_step:
  assumes "service_inv D sound conns good leaky S v" and "service_step D begin_with release v t"
  shows "fleet_table D conns (shop t) = fleet_table D conns (shop v) \<or>
    table_step (fleet_table D conns (shop v)) (fleet_table D conns (shop t))"
proof -
  obtain open0 where f: "fleet_inv D sound conns good leaky open0 (shop v)"
    using assms(1) by (auto simp: service_inv_def holding_def)
  from assms(2) show ?thesis
  proof (cases rule: service_step.cases)
    case (starts ok s)
    with assms(1) show ?thesis by (simp add: service_inv_def fleet_table_def team_def)
  next
    case (serves b)
    with fleet_inv_step[OF f] show ?thesis by simp
  next
    case destroyed
    then show ?thesis by simp
  next
    case (releases i c)
    obtain evs where "deed (conns (acceptor (shop v)) ! i) (crew (shop v) ! i) c evs"
      using lets_go[OF client_at(2)[OF f releases(3)] releases(4)] by (auto simp: deed_def)
    from fleet_inv_deed[OF f releases(3) this] releases(1) show ?thesis by simp
  qed
qed

lemma service_table_told:
  assumes "service_inv D sound conns good leaky S v"
  shows "fleet_table D conns ((shop v)\<lparr>acceptor := log_calls D evs (acceptor (shop v))\<rparr>) = fleet_table D conns (shop v)"
proof -
  have "sound (acceptor (shop v))" using assms by (auto simp: service_inv_def holding_def fleet_inv_def)
  from logs[OF this, of evs] show ?thesis by (simp add: fleet_table_def team_def)
qed

end

end
