(* ===== verification/Two_Services.thy ===== *)
theory Two_Services
  imports Service
begin

text \<open>
  A program that runs two servers, each with its clients, in one process: from the contracts of the
  two follows that the descriptors are divided between them, and that all connections together are
  one table.
\<close>

subsection \<open>One table\<close>

text \<open>The connections of both servers in one table.\<close>

definition program_table ::
  "('s, 'c) design \<Rightarrow> ('s \<Rightarrow> int list) \<Rightarrow> ('t, 'd) design \<Rightarrow> ('t \<Rightarrow> int list) \<Rightarrow>
   ('s, 'c) service \<times> ('t, 'd) service \<Rightarrow> (int \<rightharpoonup> byte list)" where
  "program_table D conns D' conns' = (\<lambda>(v, v'). fleet_table D conns (shop v) ++ fleet_table D' conns' (shop v'))"

lemma table_step_union:
  assumes "table_step T T'" and "dom T \<inter> dom U = {}" and "dom T' \<inter> dom U = {}"
  shows "table_step (T ++ U) (T' ++ U)"
  using assms(1)
proof (cases rule: table_step.cases)
  case (connect fd)
  with assms(3) have "U fd = None" by auto
  moreover from this have "T' ++ U = (T ++ U)(fd \<mapsto> [])" using connect by (auto simp: map_add_def fun_eq_iff split: option.splits)
  ultimately show ?thesis using connect by (auto simp: map_add_def intro: table_step.connect)
next
  case (arrive fd xs ys)
  with assms(2) have "U fd = None" by auto
  moreover from this have "T' ++ U = (T ++ U)(fd \<mapsto> xs @ ys)" using arrive by (auto simp: map_add_def fun_eq_iff split: option.splits)
  ultimately show ?thesis using arrive by (auto simp: map_add_def intro: table_step.arrive)
next
  case (gone fd xs)
  with assms(2) have "U fd = None" by auto
  moreover from this have "T' ++ U = (T ++ U)(fd := None)" using gone by (auto simp: map_add_def fun_eq_iff split: option.splits)
  ultimately show ?thesis using gone by (auto simp: map_add_def intro: table_step.gone)
qed

lemma tables_beside:
  "T' = T \<or> table_step T T' \<Longrightarrow> dom T \<inter> dom U = {} \<Longrightarrow> dom T' \<inter> dom U = {} \<Longrightarrow>
    T' ++ U = T ++ U \<or> table_step (T ++ U) (T' ++ U)"
  "U' = U \<or> table_step U U' \<Longrightarrow> dom T \<inter> dom U = {} \<Longrightarrow> dom T \<inter> dom U' = {} \<Longrightarrow>
    T ++ U' = T ++ U \<or> table_step (T ++ U) (T ++ U')"
  using table_step_union[of T T' U] table_step_union[of U U' T] map_add_comm[of T U] map_add_comm[of T U']
  by (auto simp: Int_commute)

subsection \<open>The program\<close>

locale two_services = first: service D sound conns good leaky start release +
    second: service D' sound' conns' good' leaky' start' release'
  for D :: "('s, 'c) design" and sound conns good leaky start release
    and D' :: "('t, 'd) design" and sound' conns' good' leaky' start' release'

sublocale two_services \<subseteq> pair: two_parties "service_part D start release" "service_inv D sound conns good leaky"
    "service_part D' start' release'" "service_inv D' sound' conns' good' leaky'"
  by unfold_locales

context two_services
begin

abbreviation program :: "(('s, 'c) service \<times> ('t, 'd) service) part" where
  "program \<equiv> side_by_side (service_part D start release) (service_part D' start' release')"

abbreviation program_inv :: "int set \<Rightarrow> ('s, 'c) service \<times> ('t, 'd) service \<Rightarrow> bool" where
  "program_inv \<equiv> both (service_part D start release) (service_part D' start' release')
     (service_inv D sound conns good leaky) (service_inv D' sound' conns' good' leaky')"

lemma program_start:
  assumes "sound s" and "conns s = []" and "sound' s'" and "conns' s' = []" and "calls D s = h" and "calls D' s' = h"
    and "clean h"
  shows "whole program program_inv (open_fds h) (set h) (new_service s, new_service s')"
proof -
  have "program_inv {} (new_service s, new_service s')"
    using first.service_start[OF assms(1,2)] second.service_start[OF assms(3,4)] assms(5-7)
    by (simp add: both.simps new_service_def all_calls_def)
  then show ?thesis unfolding whole_def using assms(5) by (intro exI[of _ "{}"]) (simp add: new_service_def all_calls_def)
qed

lemma program_divides:
  assumes "whole program program_inv R E (v, v')"
  obtains A B where "service_inv D sound conns good leaky A v" "service_inv D' sound' conns' good' leaky' B v'"
    "A \<inter> B = {}" "R \<inter> (A \<union> B) = {}" "open_fds (all_calls D (shop v)) = R \<union> A \<union> B"
    "all_calls D' (shop v') = all_calls D (shop v)"
proof -
  obtain S where S: "program_inv S (v, v')" "open_fds (all_calls D (shop v)) = R \<union> S" "R \<inter> S = {}"
    using assms by (auto simp: whole_def)
  from S(1) obtain A B where AB: "S = A \<union> B" "A \<inter> B = {}" "service_inv D sound conns good leaky A v"
    "service_inv D' sound' conns' good' leaky' B v'" "all_calls D' (shop v') = all_calls D (shop v)"
    by (auto simp: both.simps)
  from AB(3,4,2) _ _ AB(5) show ?thesis by (rule that) (use S(2,3) AB(1) in auto)
qed

lemma program_doms:
  assumes "whole program program_inv R E (v, v')"
  shows "dom (fleet_table D conns (shop v)) \<inter> dom (fleet_table D' conns' (shop v')) = {}"
proof -
  obtain A B where "service_inv D sound conns good leaky A v" "service_inv D' sound' conns' good' leaky' B v'" "A \<inter> B = {}"
    using program_divides[OF assms] by metis
  with first.service_table_dom[of A v] second.service_table_dom[of B v'] show ?thesis by fast
qed

lemma table_move:
  assumes "whole program program_inv R E s" and "moves program s t"
  shows "program_table D conns D' conns' t = program_table D conns D' conns' s \<or>
    table_step (program_table D conns D' conns' s) (program_table D conns D' conns' t)"
proof -
  have w: "whole program program_inv R E t" using pair.joint.whole_step[OF assms] .
  obtain v v' where s: "s = (v, v')" by (cases s)
  obtain A B where i: "service_inv D sound conns good leaky A v" "service_inv D' sound' conns' good' leaky' B v'"
    using program_divides[OF assms(1)[unfolded s]] by metis
  from assms(2)[unfolded side_sel s] show ?thesis
  proof (cases rule: beside.cases)
    case (left u)
    with first.service_table_step[OF i(1), of u] tables_beside(1)[OF _ program_doms[OF assms(1)[unfolded s]]]
      program_doms[OF w[unfolded left(1)]] second.service_table_told[OF i(2)]
    show ?thesis by (simp add: program_table_def s)
  next
    case (right u)
    with second.service_table_step[OF i(2), of u] tables_beside(2)[OF _ program_doms[OF assms(1)[unfolded s]]]
      program_doms[OF w[unfolded right(1)]] first.service_table_told[OF i(1)]
    show ?thesis by (simp add: program_table_def s)
  qed
qed

end

sublocale two_services \<subseteq> sys: refinement "moves program" "whole program program_inv R E" "whole program program_inv R E"
    table_step "program_table D conns D' conns'" for R E
  by unfold_locales (auto intro: pair.joint.whole_step dest: table_move)

subsection \<open>Runs\<close>

text \<open>A step of the first or the second server, executable, until the process is killed.\<close>

fun program_next ::
  "'s part \<Rightarrow> ('a \<Rightarrow> 's \<Rightarrow> 's option) \<Rightarrow> 't part \<Rightarrow> ('b \<Rightarrow> 't \<Rightarrow> 't option) \<Rightarrow> 'a + 'b \<Rightarrow> 's \<times> 't \<Rightarrow> ('s \<times> 't) option" where
  "program_next M f N g (Inl m) (a, b) =
     (if healthy M a \<and> healthy N b \<and> \<not> killed (past M a)
      then map_option (\<lambda>a'. (a', told N (news (past M a) (past M a')) b)) (f m a) else None)"
| "program_next M f N g (Inr m) (a, b) =
     (if healthy M a \<and> healthy N b \<and> \<not> killed (past M a)
      then map_option (\<lambda>b'. (told M (news (past N b) (past N b')) a, b')) (g m b) else None)"

lemma program_next_step:
  assumes "\<And>m a a'. f m a = Some a' \<Longrightarrow> moves M a a'" and "\<And>m b b'. g m b = Some b' \<Longrightarrow> moves N b b'"
    and "program_next M f N g m s = Some t"
  shows "program_step (side_by_side M N) s t"
  using assms(3)
  by (cases s; cases m) (auto simp: program_step_def split: if_splits intro: beside.intros assms(1,2))

lemma program_sched_reach:
  assumes "\<And>m a a'. f m a = Some a' \<Longrightarrow> moves M a a'" and "\<And>m b b'. g m b = Some b' \<Longrightarrow> moves N b b'"
  shows "sched (program_next M f N g) ms s = Some t \<Longrightarrow> reach (program_step (side_by_side M N)) s t"
  by (rule sched_reach) (rule program_next_step[OF assms])

subsection \<open>The main thread\<close>

text \<open>
  A \<open>main\<close> that starts two servers in threads of their own, joins the threads, which end when
  their \<open>start\<close> has returned and the server they hold is destroyed, and returns 0; the end of
  \<open>main\<close> is the end of all threads.
\<close>

record ('v, 'w) main_thread =
  threads :: "'v \<times> 'w"
  exit_code :: "int option"

inductive joining_step ::
  "('s, 'c) service part \<Rightarrow> ('t, 'd) service part \<Rightarrow> (('s, 'c) service, ('t, 'd) service) main_thread \<Rightarrow>
   (('s, 'c) service, ('t, 'd) service) main_thread \<Rightarrow> bool" for M N where
  threads_run: "exit_code m = None \<Longrightarrow> program_step (side_by_side M N) (threads m) s \<Longrightarrow>
     joining_step M N m (m\<lparr>threads := s\<rparr>)"
| main_returns: "exit_code m = None \<Longrightarrow> \<not> killed (past (side_by_side M N) (threads m)) \<Longrightarrow>
     gone (fst (threads m)) \<Longrightarrow> gone (snd (threads m)) \<Longrightarrow> joining_step M N m (m\<lparr>exit_code := Some 0\<rparr>)"

lemma joining_threads:
  "reach (joining_step M N) m m' \<Longrightarrow> reach (program_step (side_by_side M N)) (threads m) (threads m')"
  by (induction rule: reach.induct) (auto elim!: joining_step.cases intro: reach.intros)

lemma joining_inv:
  assumes "reach (joining_step M N) m m'" and "exit_code m = None" and "I (threads m)"
    and "\<And>s t. I s \<Longrightarrow> beside M N s t \<Longrightarrow> I t"
  shows "I (threads m') \<and> (\<forall>c. exit_code m' = Some c \<longrightarrow> c = 0 \<and> gone (fst (threads m')) \<and> gone (snd (threads m')))"
  using assms(1)
proof (induction rule: reach.induct)
  case reach_start
  then show ?case using assms(2,3) by simp
next
  case (reach_step m' n)
  from reach_step(2) show ?case
  proof (cases rule: joining_step.cases)
    case (threads_run s)
    with assms(4)[of "threads m'" s] reach_step(3) show ?thesis by (simp add: program_step_def)
  next
    case main_returns
    with reach_step(3) show ?thesis by simp
  qed
qed

lemma joining_sched:
  assumes "\<And>a v v'. f a v = Some v' \<Longrightarrow> moves M v v'" and "\<And>b w w'. g b w = Some w' \<Longrightarrow> moves N w w'"
    and "sched (program_next M f N g) as (threads m) = Some s" and "exit_code m = None"
  shows "reach (joining_step M N) m (m\<lparr>threads := s\<rparr>)"
proof -
  have "reach (program_step (side_by_side M N)) (threads m) s"
    using assms(1-3) by (rule program_sched_reach)
  then show ?thesis
  proof (induction rule: reach.induct)
    case reach_start
    then show ?case by (simp add: reach.reach_start)
  next
    case (reach_step s t)
    have "joining_step M N (m\<lparr>threads := s\<rparr>) ((m\<lparr>threads := s\<rparr>)\<lparr>threads := t\<rparr>)"
      by (rule threads_run) (use assms(4) reach_step(2) in simp_all)
    with reach_step(3) show ?case by (auto intro: reach.reach_step)
  qed
qed

subsection \<open>A system for runs\<close>

text \<open>
  A system that gives out the lowest numbers from 3, accepts at most two connections, and whose
  clients send \<open>hi\<close> once, take two bytes at a time, and hang up.
\<close>

definition next_fd :: "history \<Rightarrow> int" where
  "next_fd h = (if 3 \<notin> open_fds h then 3 else if 4 \<notin> open_fds h then 4 else if 5 \<notin> open_fds h then 5
     else if 6 \<notin> open_fds h then 6 else 7)"

definition duo_platform :: platform where
  "duo_platform = sample_platform\<lparr>
     k_socket := \<lambda>h d. if next_fd h < 7 then Done (next_fd h) else Fail (EOther 24),
     k_accept4 := \<lambda>h fd. if fd \<in> open_fds h \<and> next_fd h < 7 \<and> length (accepted h) < 2 then Done (next_fd h, 0x0100007F, htons 5000) else Fail (EOther 24),
     k_accept6 := \<lambda>h fd. if fd \<in> open_fds h \<and> next_fd h < 7 \<and> length (accepted h) < 2 then Done (next_fd h, 1, htons 5000) else Fail (EOther 24),
     k_recv := \<lambda>h fd n fl. if conn_stream fd h = [] then Done (take n [104, 105]) else Done [],
     k_send := \<lambda>h fd bs fl. Done (min 2 (int (length bs)))\<rparr>"

end
