(* ===== verification/Broker_Service.thy ===== *)
theory Broker_Service
  imports Broker_Shutdown Two_Services
begin

text \<open>
  The broker servers as services of a program: the thread that calls \<open>start\<close>, the accept loop, the
  workers, and the destruction of the server object, which destroys the contexts of its queue as
  soon as no worker holds them.
\<close>

subsection \<open>Start and end\<close>

text \<open>\<open>ITcpBrokerServerEngine::start\<close> up to its call of \<open>run\<close>.\<close>

definition engine_begin :: "platform \<Rightarrow> server_state \<Rightarrow> bool \<times> server_state" where
  "engine_begin p = (\<lambda>(e, w).
     let (ok, e1, h1) = (if mFd e = INVALID_FD then initListeningSocket p e (hist w) else (True, e, hist w))
     in (ok, e1, w\<lparr>hist := h1\<rparr>))"

lemma engine_start_begin:
  "engine_start p run n s = (case engine_begin p s of (ok, s') \<Rightarrow> if ok then run n s' else Some (False, s'))"
  by (cases s) (auto simp: engine_start_def engine_begin_def Let_def split: prod.splits option.splits)

text \<open>
  The detached thread ends after \<open>doWork\<close> and gives up the worker and with it the context; the
  context is destroyed when the server's queue is gone, too.
\<close>

definition release_context :: "worker \<Rightarrow> worker \<Rightarrow> bool" where
  "release_context s t \<longleftrightarrow> main s = M_Done \<and>
     (\<exists>c. mContext s = Some c \<and> t = s\<lparr>mContext := None, whist := SocketContext_destroy c (whist s)\<rparr>)"

abbreviation broker_part :: "server_kind \<Rightarrow> platform \<Rightarrow> (server_state, worker) service part" where
  "broker_part k p \<equiv> service_part (broker_design k p) (engine_begin p) release_context"

lemma engine_begin_calls:
  assumes "socket_fresh p" and "engine_begin p (e, w) = (ok, e', w')"
  shows "socket_calls (hist w) (hist w') \<and> heap w' = heap w \<and> spawned w' = spawned w \<and>
    mSocketContextQueue e' = mSocketContextQueue e"
  using assms(2)
  by (auto simp: engine_begin_def initListeningSocket_eq initIPV4Socket_def initIPV6Socket_def sys_simps Let_def
      split: if_splits PROTOCOL_TYPE.splits option.splits prod.splits
      intro!: socket_calls_more socket_calls_first[OF assms(1)] socket_calls_refl)

subsection \<open>A worker whose context is gone\<close>

definition retired :: "int \<Rightarrow> worker \<Rightarrow> bool" where
  "retired fd s \<longleftrightarrow> mContext s = None \<and> main s = M_Done \<and> rpc s = R_Done \<and> wpc s = W_Done \<and> \<not> live fd (whist s)"

lemma retired_stuck: "retired fd s \<Longrightarrow> \<not> closed_step p s t"
  by (auto simp: retired_def elim!: closed_step.cases worker_step.cases main_step.cases recv_step.cases send_step.cases)

definition unsent :: "history \<Rightarrow> bool" where
  "unsent h \<longleftrightarrow> (\<forall>e\<in>set h. \<not> is_send e)"

lemma unsent_simps [simp]: "unsent []" "unsent (e # h) \<longleftrightarrow> \<not> is_send e \<and> unsent h" "unsent (h @ h') \<longleftrightarrow> unsent h \<and> unsent h'"
  by (auto simp: unsent_def)

lemma closed_step_unsent:
  assumes "closed_step p s t" and "closed_inv p fd [] s" and "unsent (whist s)"
  shows "unsent (whist t)"
proof -
  have inv: "quiet_inv fd [] s" using assms(2) by (simp_all add: closed_inv_def)
  have same: "whist t = whist s \<Longrightarrow> ?thesis" using assms(3) by simp
  from assms(1) show ?thesis
  proof (cases rule: closed_step.cases)
    case by_worker
    then show ?thesis
    proof (cases rule: worker_step.cases)
      case by_main
      then have "whist t = whist s" by (cases rule: main_step.cases) auto
      then show ?thesis by (rule same)
    next
      case by_recv
      then show ?thesis
        by (cases rule: recv_step.cases) (use assms(3) in \<open>auto simp: event_defs sys_simps Let_def\<close>)
    next
      case by_send
      then show ?thesis
      proof (cases rule: send_step.cases)
        case (send_loop fd' response tot tot' h)
        then have "response = []" using inv by (simp add: quiet_inv_def)
        with send_loop show ?thesis by simp
      next
        case (send_return fd' response tot res h)
        then have "response = []" using inv by (simp add: quiet_inv_def)
        with send_return show ?thesis by (intro same) simp
      qed (use assms(3) in \<open>auto simp: event_defs sys_simps\<close>)
    qed
  qed (use assms(3) in auto)
qed

text \<open>What makes a client good in the whole life of a server of either kind.\<close>

definition served :: "platform \<Rightarrow> int \<Rightarrow> worker \<Rightarrow> bool" where
  "served p fd s \<longleftrightarrow> unsent (whist s) \<and> (closed_inv p fd [] s \<or> recv_bounded p \<and> retired fd s)"

definition unserved :: "int \<Rightarrow> worker \<Rightarrow> bool" where
  "unserved fd s \<longleftrightarrow> 0 \<le> fd \<and> unsent (whist s) \<and> (ignoring fd s \<or> retired fd s)"

lemma served_works:
  assumes "served p fd s" and "closed_step (localise p H (whist s)) s t"
  shows "served p fd t \<and> (\<exists>evs. client_calls fd (whist s) evs \<and> whist t = evs @ whist s)"
proof -
  let ?q = "localise p H (whist s)"
  have c: "closed_inv p fd [] s" using assms retired_stuck by (auto simp: served_def)
  then have b: "recv_bounded p" by (simp add: closed_inv_def)
  have q: "closed_inv ?q fd [] s" using c localise_bounded[OF b] by (rule closed_inv_platform)
  have "unsent (whist t)" using closed_step_unsent[OF assms(2) q] assms(1) by (simp add: served_def)
  with closed_step_calls[OF assms(2) q] closed_inv_platform[OF closed_inv_step[OF assms(2) q] b]
  show ?thesis by (simp add: served_def)
qed

lemma served_released:
  assumes "served p fd s" and "release_context s t"
  shows "served p fd t \<and> (\<exists>evs. client_calls fd (whist s) evs \<and> whist t = evs @ whist s)"
proof -
  obtain c where m: "main s = M_Done" "mContext s = Some c"
    and t: "t = s\<lparr>mContext := None, whist := SocketContext_destroy c (whist s)\<rparr>"
    using assms(2) by (auto simp: release_context_def)
  then have i: "closed_inv p fd [] s" using assms(1) by (auto simp: served_def retired_def)
  then have "mClientFd c = INVALID_FD" using done_invalid[OF i m(1)] m(2) by simp
  then have t': "t = s\<lparr>mContext := None\<rparr>" using t by (simp add: SocketContext_destroy_def)
  have "main_inv s" using i by (simp add: closed_inv_def client_inv_def)
  then have "retired fd t" using m(1) done_not_live[OF i m(1)] by (simp add: retired_def t' main_inv_def)
  then show ?thesis using assms(1) i by (simp add: served_def t' closed_inv_def client_calls_def)
qed

lemma unserved_works:
  assumes "unserved fd s" and "closed_step q s t"
  shows "unserved fd t \<and> (\<exists>evs. client_calls fd (whist s) evs \<and> whist t = evs @ whist s)"
proof -
  obtain ctx where i: "mClientFd ctx = fd" "ignored_inv (Some ctx) [] s"
    using assms retired_stuck by (auto simp: unserved_def ignoring_def)
  have "ignored_inv (Some ctx) [] t" using assms(2) i(2) by (rule ignored_inv_step)
  then show ?thesis using assms(1) i by (auto simp: unserved_def ignoring_def ignored_inv_def client_calls_def)
qed

lemma unserved_released:
  assumes "unserved fd s" and "release_context s t"
  shows "unserved fd t \<and> (\<exists>evs. client_calls fd (whist s) evs \<and> whist t = evs @ whist s)"
proof -
  obtain c where m: "main s = M_Done" "mContext s = Some c"
    and t: "t = s\<lparr>mContext := None, whist := SocketContext_destroy c (whist s)\<rparr>"
    using assms(2) by (auto simp: release_context_def)
  then have i: "mClientFd c = fd" "whist s = []" "main_inv s" and fd: "0 \<le> fd"
    using assms(1) by (auto simp: unserved_def retired_def ignoring_def ignored_inv_def)
  then have "whist t = [E_close fd]" using t by (auto simp: SocketContext_destroy_def sys_simps INVALID_FD_def)
  with i fd t m(1) show ?thesis by (auto simp: unserved_def retired_def client_calls_def live_def main_inv_def)
qed

subsection \<open>Both servers are services\<close>

definition service_sound :: "server_kind \<Rightarrow> platform \<Rightarrow> server_state \<Rightarrow> bool" where
  "service_sound k p s \<longleftrightarrow> broker_sound k p s \<and> socket_fresh p"

lemma service_begins:
  assumes "service_sound k p s" and "server_clients s = []" and "engine_begin p s = (ok, s')"
  shows "service_sound k p s' \<and> server_clients s' = [] \<and> socket_calls (calls (broker_design k p) s) (calls (broker_design k p) s')"
proof -
  obtain e w e' w' where s: "s = (e, w)" "s' = (e', w')" by (cases s; cases s')
  have "socket_fresh p" using assms(1) by (simp add: service_sound_def)
  from engine_begin_calls[OF this assms(3)[unfolded s]] assms(1,2) s show ?thesis
    by (auto simp: service_sound_def broker_sound_def client_contexts_def server_wf_def server_clients_def)
qed

lemma service_accepts:
  assumes "service_sound k p s" and "turn (broker_design k p) s = Inr s'"
    and "\<And>c. client_context k c \<Longrightarrow> good (mClientFd c) (ThreadsTcpBroWorker (Some c) [])"
  shows "service_sound k p s' \<and> (\<exists>opts l r. list_all is_option opts \<and>
      calls (broker_design k p) s' = opts @ E_accept l r # calls (broker_design k p) s \<and>
      0 \<le> c_ret id r \<and> c_ret id r \<notin> open_fds (calls (broker_design k p) s) \<and> server_clients s' = server_clients s @ [c_ret id r] \<and>
      good (c_ret id r) (newest (broker_design k p) s') \<and> own_calls (broker_design k p) (newest (broker_design k p) s') = [])"
proof -
  have b: "broker_sound k p s" "socket_fresh p" using assms(1) by (simp_all add: service_sound_def)
  from broker_accepts[OF b(1) assms(2)[unfolded broker_sel]] obtain l r c where a: "broker_sound k p s'"
    "calls (broker_design k p) s' = E_accept l r # calls (broker_design k p) s" "0 \<le> c_ret id r"
    "c_ret id r \<notin> open_fds (calls (broker_design k p) s)" "server_clients s' = server_clients s @ [c_ret id r]"
    "client_context k c" "mClientFd c = c_ret id r" "newest (broker_design k p) s' = ThreadsTcpBroWorker (Some c) []" by blast
  from assms(3)[OF a(6)] a b(2) show ?thesis
    by (intro conjI exI[of _ "[]"] exI[of _ l] exI[of _ r]) (simp_all add: service_sound_def ThreadsTcpBroWorker_def)
qed

lemma service_leaves:
  assumes "service_sound k p s" and "turn (broker_design k p) s = Inl (b, s')"
  shows "service_sound k p s' \<and> server_clients s' = server_clients s \<and> (\<exists>opts l r. list_all is_option opts \<and>
      calls (broker_design k p) s' = opts @ E_accept l r # calls (broker_design k p) s \<and>
      (0 \<le> c_ret id r \<longrightarrow> False \<and> c_ret id r \<notin> open_fds (calls (broker_design k p) s)))"
  using broker_leaves[of k p s b s'] assms by (auto simp: service_sound_def intro!: exI[of _ "[]"])

lemma service_logs:
  assumes "service_sound k p s"
  shows "service_sound k p (log_calls (broker_design k p) evs s) \<and>
    server_clients (log_calls (broker_design k p) evs s) = server_clients s \<and>
    calls (broker_design k p) (log_calls (broker_design k p) evs s) = evs @ calls (broker_design k p) s"
  using broker_logs[of k p s evs] assms by (simp add: service_sound_def)

interpretation service4: service "broker_design Bro4 p" "service_sound Bro4 p" server_clients "served p" False
    "engine_begin p" release_context for p
proof
  let ?D = "broker_design Bro4 p"
  show "service_sound Bro4 p s' \<and> (\<exists>opts l r. list_all is_option opts \<and> calls ?D s' = opts @ E_accept l r # calls ?D s \<and>
      0 \<le> c_ret id r \<and> c_ret id r \<notin> open_fds (calls ?D s) \<and> server_clients s' = server_clients s @ [c_ret id r] \<and>
      served p (c_ret id r) (newest ?D s') \<and> own_calls ?D (newest ?D s') = [])"
    if "service_sound Bro4 p s" "turn ?D s = Inr s'" for s s'
    by (rule service_accepts[OF that])
      (use that(1) fresh_good[of p] in \<open>simp add: served_def service_sound_def broker_sound_def ThreadsTcpBroWorker_def\<close>)
qed ((rule service_leaves service_logs service_begins; assumption) |
    (simp only: broker_sel; rule served_works served_released; assumption))+

interpretation service6: service "broker_design Bro6 p" "service_sound Bro6 p" server_clients unserved False
    "engine_begin p" release_context for p
proof
  let ?D = "broker_design Bro6 p"
  show "service_sound Bro6 p s' \<and> (\<exists>opts l r. list_all is_option opts \<and> calls ?D s' = opts @ E_accept l r # calls ?D s \<and>
      0 \<le> c_ret id r \<and> c_ret id r \<notin> open_fds (calls ?D s) \<and> server_clients s' = server_clients s @ [c_ret id r] \<and>
      unserved (c_ret id r) (newest ?D s') \<and> own_calls ?D (newest ?D s') = [])"
    if "service_sound Bro6 p s" "turn ?D s = Inr s'" for s s'
    by (rule service_accepts[OF that])
      (use fresh_ignoring in \<open>auto simp: unserved_def client_context_def ThreadsTcpBroWorker_def\<close>)
qed ((rule service_leaves service_logs service_begins; assumption) |
    (simp only: broker_sel; rule unserved_works unserved_released; assumption))+

end
