(* ===== verification/Engine_Program.thy ===== *)
theory Engine_Program
  imports Broker_Service
begin

text \<open>
  The echo program of the broker servers, ThreadsEchoEngine.cpp: one process in which a thread
  builds and starts the IPv4 server and another one the IPv6 server, until both threads have ended.
\<close>

subsection \<open>The program\<close>

text \<open>The two servers that \<open>main\<close> builds and starts, one per thread.\<close>

fun echo_server :: "server_kind \<Rightarrow> 32 word \<Rightarrow> engine" where
  "echo_server Bro4 junk = ThreadsTcpBroServer ''echo_engine'' ''127.0.0.1'' 9001 junk"
| "echo_server Bro6 junk = ThreadsTcp6BroServer ''echo_engine'' ''::1'' 9001 junk"

lemma echo_server_sel [simp]:
  "mSocketContextQueue (echo_server k junk) = []" "mFd (echo_server k junk) = INVALID_FD"
  by (cases k; simp add: ThreadsTcpBroServer_def ThreadsTcp6BroServer_def engine_addr_def)+

interpretation engines: two_services
  "broker_design Bro4 p" "service_sound Bro4 p" server_clients "served p" False "engine_begin p" release_context
  "broker_design Bro6 p" "service_sound Bro6 p" server_clients unserved False "engine_begin p" release_context
  for p
  by unfold_locales

abbreviation engine_parts ::
  "platform \<Rightarrow> ((server_state, worker) service \<times> (server_state, worker) service) part" where
  "engine_parts p \<equiv> side_by_side (broker_part Bro4 p) (broker_part Bro6 p)"

text \<open>\<open>main\<close>: it starts the threads, and then joins them.\<close>

type_synonym engine_main = "((server_state, worker) service, (server_state, worker) service) main_thread"

definition ThreadsEchoEngine_main :: "history \<Rightarrow> 32 word \<Rightarrow> 32 word \<Rightarrow> engine_main" where
  "ThreadsEchoEngine_main h junk4 junk6 =
     \<lparr>threads = (new_service (echo_server Bro4 junk4, empty_world\<lparr>hist := h\<rparr>),
        new_service (echo_server Bro6 junk6, empty_world\<lparr>hist := h\<rparr>)),
      exit_code = None\<rparr>"

definition engine_main_step :: "platform \<Rightarrow> engine_main \<Rightarrow> engine_main \<Rightarrow> bool" where
  "engine_main_step p = joining_step (broker_part Bro4 p) (broker_part Bro6 p)"

definition engine_calls :: "platform \<Rightarrow> engine_main \<Rightarrow> history" where
  "engine_calls p m = all_calls (broker_design Bro4 p) (shop (fst (threads m)))"

text \<open>The connections of the clients of one of the servers that are still open.\<close>

definition live_conns :: "(server_state, worker) service \<Rightarrow> int list" where
  "live_conns v = live_fds whist (team server_clients (shop v))"

subsection \<open>What holds at every moment\<close>

definition engine_laws :: "platform \<Rightarrow> bool" where
  "engine_laws p \<longleftrightarrow> recv_bounded p \<and> accept_fresh p \<and> socket_fresh p"

lemma engine_start_state:
  assumes "engine_laws p" and "clean h"
  shows "whole (engines.program p) (engines.program_inv p) (open_fds h) (set h) (threads (ThreadsEchoEngine_main h j4 j6))"
proof -
  have s: "service_sound k p (echo_server k j, empty_world\<lparr>hist := h\<rparr>)" for k j
    using assms(1) by (simp add: engine_laws_def service_sound_def broker_sound_def client_contexts_def server_wf_def empty_world_def)
  show ?thesis unfolding ThreadsEchoEngine_main_def main_thread.simps
    by (rule engines.program_start[OF s _ s]) (simp_all add: server_clients_def empty_world_def assms(2))
qed

lemma engine_whole:
  assumes "engine_laws p" and "clean h" and "reach (engine_main_step p) (ThreadsEchoEngine_main h j4 j6) m"
  shows "whole (engines.program p) (engines.program_inv p) (open_fds h) (set h) (threads m)"
  using engines.pair.joint.all.reach_inv[OF program_moves[OF joining_threads[OF assms(3)[unfolded engine_main_step_def]]] engine_start_state[OF assms(1,2)]] .

lemma engine_divides:
  assumes "engine_laws p" and "clean h" and "reach (engine_main_step p) (ThreadsEchoEngine_main h j4 j6) m"
  obtains A B where "service_inv (broker_design Bro4 p) (service_sound Bro4 p) server_clients (served p) False A (fst (threads m))"
    "service_inv (broker_design Bro6 p) (service_sound Bro6 p) server_clients unserved False B (snd (threads m))"
    "A \<inter> B = {}" "open_fds h \<inter> (A \<union> B) = {}" "open_fds (engine_calls p m) = open_fds h \<union> A \<union> B"
    "all_calls (broker_design Bro6 p) (shop (snd (threads m))) = engine_calls p m"
  using engine_whole[OF assms] engines.program_divides[of p "open_fds h" "set h" "fst (threads m)" "snd (threads m)"]
  unfolding engine_calls_def by (metis prod.collapse)

lemma no_context_not_live:
  "served p fd s \<Longrightarrow> mContext s = None \<Longrightarrow> \<not> live fd (whist s)"
  "unserved fd s \<Longrightarrow> mContext s = None \<Longrightarrow> \<not> live fd (whist s)"
  by (auto simp: served_def unserved_def retired_def closed_inv_def client_inv_def fd_inv_def ignoring_def ignored_inv_def)

lemma no_contexts_no_conns:
  assumes "\<And>fd s. (fd, s) \<in> set (team server_clients b) \<Longrightarrow> mContext s = None \<Longrightarrow> \<not> live fd (whist s)"
    and "\<forall>s\<in>set (crew b). mContext s = None"
  shows "live_fds whist (team server_clients b) = []"
proof -
  have "\<not> live fd (whist s)" if "(fd, s) \<in> set (team server_clients b)" for fd s
    using assms(1)[OF that] assms(2) set_zip_rightD[OF that[unfolded team_def]] by auto
  then show ?thesis by (auto simp: live_fds_def live_team_def filter_empty_conv)
qed

subsection \<open>A run of the program\<close>

lemma duo_platform_laws: "engine_laws duo_platform"
  by (auto simp: engine_laws_def duo_platform_def recv_bounded_def accept_fresh_def socket_fresh_def next_fd_def
      split: if_splits)

definition release_next :: "worker \<Rightarrow> worker option" where
  "release_next s = (if main s = M_Done
     then map_option (\<lambda>c. s\<lparr>mContext := None, whist := SocketContext_destroy c (whist s)\<rparr>) (mContext s) else None)"

definition broker_service_next ::
  "server_kind \<Rightarrow> platform \<Rightarrow> actor service_move \<Rightarrow> (server_state, worker) service \<Rightarrow> (server_state, worker) service option" where
  "broker_service_next k p = service_next (broker_design k p) (engine_begin p) release_next
     (\<lambda>H a s. actor_next (localise p H (whist s)) a s)"

lemma broker_service_next_step:
  "broker_service_next k p a v = Some w \<Longrightarrow> moves (broker_part k p) v w"
  unfolding broker_service_next_def service_sel
  by (erule service_next_step[rotated 2])
    (auto simp: release_next_def release_context_def intro: closed_step.by_worker actor_next_step split: if_splits)

definition engine_next where
  "engine_next p = program_next (broker_part Bro4 p) (broker_service_next Bro4 p) (broker_part Bro6 p) (broker_service_next Bro6 p)"

lemma engine_sched_reach:
  assumes "sched (engine_next p) ms (threads m) = Some s" and "exit_code m = None"
  shows "reach (engine_main_step p) m (m\<lparr>threads := s\<rparr>)"
  unfolding engine_main_step_def
  by (rule joining_sched[OF broker_service_next_step broker_service_next_step assms(1)[unfolded engine_next_def] assms(2)])

text \<open>Both servers start, an IPv4 client is read, and an IPv6 client is accepted.\<close>

definition opening_hours where
  "opening_hours = [Inl Start, Inr Start, Inl (Run Accept), Inr (Run Accept),
     Inl (Run (Client 0 Main)), Inl (Run (Client 0 Recv)), Inl (Run (Client 0 Recv)), Inl (Run (Client 0 Recv)),
     Inl (Run (Client 0 Recv))]"

lemmas engine_eval = engine_next_def broker_service_next_def release_next_def engine_begin_def
  ThreadsEchoEngine_main_def new_service_def initListeningSocket_eq initIPV4Socket_def initIPV6Socket_def BACK_LOG_def
  ThreadsTcpBroServer_def ThreadsTcp6BroServer_def engine_addr_def

lemma opening_hours_run:
  "\<exists>v4 v6. sched (engine_next duo_platform) opening_hours (threads (ThreadsEchoEngine_main [] 0 0)) = Some (v4, v6) \<and>
     server_clients (acceptor (shop v4)) = [5] \<and> server_clients (acceptor (shop v6)) = [6] \<and> length (crew (shop v4)) = 1 \<and>
     live 5 (whist (crew (shop v4) ! 0)) \<and> conn_stream 5 (all_calls (broker_design Bro4 duo_platform) (shop v4)) = [104, 105]"
  by (simp add: opening_hours_def engine_eval broker_eval duo_platform_def next_fd_def server_clients_def live_def)

text \<open>The client hangs up, both loops end, the servers are destroyed, and \<open>main\<close> returns.\<close>

definition closing_time where
  "closing_time = map (\<lambda>a. Inl (Run (Client 0 a)))
       [Main, Main, Main, Recv, Recv, Recv, Recv, Recv, Recv, Recv, Recv, Recv, Send, Send, Send, Send, Send, Send, Send, Main, Main] @
     map (\<lambda>a. Inr (Run (Client 0 a))) [Main, Main, Main, Main, Recv, Send, Main, Main] @
     [Inl (Run Accept), Inl Destroy, Inl (Release 0), Inr (Run Accept), Inr Destroy, Inr (Release 0)]"

lemma closing_time_run:
  "\<exists>v4 v6. sched (engine_next duo_platform) (opening_hours @ closing_time) (threads (ThreadsEchoEngine_main [] 0 0)) = Some (v4, v6) \<and>
     gone v4 \<and> gone v6 \<and> \<not> killed (all_calls (broker_design Bro4 duo_platform) (shop v4)) \<and>
     (\<forall>s\<in>set (crew (shop v4) @ crew (shop v6)). mContext s = None) \<and>
     open_fds (all_calls (broker_design Bro4 duo_platform) (shop v4)) = {3, 4}"
  by (simp add: opening_hours_def closing_time_def engine_eval broker_eval event_defs duo_platform_def next_fd_def
      SocketContext_destroy_def insert_commute) (auto simp: INVALID_FD_def)

lemma open_program:
  "\<exists>m s. reach (engine_main_step duo_platform) (ThreadsEchoEngine_main [] 0 0) m \<and>
    (5, s) \<in> set (team server_clients (shop (fst (threads m)))) \<and> live 5 (whist s) \<and>
    server_clients (acceptor (shop (snd (threads m)))) = [6] \<and> conn_stream 5 (engine_calls duo_platform m) = [104, 105]"
proof -
  let ?m = "ThreadsEchoEngine_main [] 0 0"
  obtain v4 v6 where r: "sched (engine_next duo_platform) opening_hours (threads ?m) = Some (v4, v6)"
    and v: "server_clients (acceptor (shop v4)) = [5]" "server_clients (acceptor (shop v6)) = [6]" "length (crew (shop v4)) = 1"
      "live 5 (whist (crew (shop v4) ! 0))" "conn_stream 5 (all_calls (broker_design Bro4 duo_platform) (shop v4)) = [104, 105]"
    using opening_hours_run by blast
  have "exit_code ?m = None" by (simp add: ThreadsEchoEngine_main_def)
  from engine_sched_reach[OF r this] v show ?thesis
    by (intro exI[of _ "?m\<lparr>threads := (v4, v6)\<rparr>"] exI[of _ "crew (shop v4) ! 0"])
      (auto simp: team_def engine_calls_def length_Suc_conv)
qed

lemma closed_program:
  "\<exists>m. reach (engine_main_step duo_platform) (ThreadsEchoEngine_main [] 0 0) m \<and> exit_code m = Some 0 \<and>
    (\<forall>s\<in>set (crew (shop (fst (threads m))) @ crew (shop (snd (threads m)))). mContext s = None) \<and>
    open_fds (engine_calls duo_platform m) = {3, 4}"
proof -
  let ?m = "ThreadsEchoEngine_main [] 0 0"
  obtain v4 v6 where r: "sched (engine_next duo_platform) (opening_hours @ closing_time) (threads ?m) = Some (v4, v6)"
    and v: "gone v4" "gone v6" "\<not> killed (all_calls (broker_design Bro4 duo_platform) (shop v4))"
      "\<forall>s\<in>set (crew (shop v4) @ crew (shop v6)). mContext s = None"
      "open_fds (all_calls (broker_design Bro4 duo_platform) (shop v4)) = {3, 4}" using closing_time_run by blast
  have e: "exit_code ?m = None" by (simp add: ThreadsEchoEngine_main_def)
  let ?m' = "?m\<lparr>threads := (v4, v6)\<rparr>"
  have "engine_main_step duo_platform ?m' (?m'\<lparr>exit_code := Some 0\<rparr>)" unfolding engine_main_step_def by (rule main_returns) (use e v in simp_all)
  with engine_sched_reach[OF r e] v(4,5) show ?thesis
    by (intro exI[of _ "?m'\<lparr>exit_code := Some 0\<rparr>"]) (auto simp: engine_calls_def intro: reach_step)
qed

subsection \<open>When it ends\<close>

text \<open>The answers to the calls of a starting or accepting server that make it give up.\<close>

fun call_failed :: "event \<Rightarrow> bool" where
  "call_failed (E_socket d r) \<longleftrightarrow> c_ret id r < 0"
| "call_failed (E_setsockopt fd opt r) \<longleftrightarrow> c_ret id r < 0"
| "call_failed (E_bind fd a r) \<longleftrightarrow> c_ret id r < 0"
| "call_failed (E_listen fd n r) \<longleftrightarrow> c_ret id r < 0"
| "call_failed (E_accept l r) \<longleftrightarrow> c_ret id r < 0"
| "call_failed _ \<longleftrightarrow> False"

text \<open>A server of the program that has left its loop, or not entered it, has met such an answer.\<close>

definition gives_up :: "server_kind \<Rightarrow> (server_state, worker) service \<Rightarrow> bool" where
  "gives_up k v \<longleftrightarrow> (gone v \<longrightarrow> started v \<and> \<not> serving (shop v)) \<and>
     (\<not> started v \<longrightarrow> (\<exists>junk. fst (acceptor (shop v)) = echo_server k junk)) \<and>
     (started v \<and> \<not> serving (shop v) \<longrightarrow> (\<exists>e\<in>set (hist (snd (acceptor (shop v)))). call_failed e))"

lemma log_calls_broker [simp]:
  "fst (log_calls (broker_design k p) evs s) = fst s"
  "hist (snd (log_calls (broker_design k p) evs s)) = evs @ hist (snd s)"
  by (cases s; simp)+

lemma echo_begin_fails:
  assumes "engine_begin p (echo_server k junk, w) = (False, s')" and "inet_pton6 p ''::1'' \<noteq> None"
  shows "\<exists>e\<in>set (hist (snd s')). call_failed e"
  using assms
  by (cases k) (auto simp: engine_begin_def initListeningSocket_eq initIPV4Socket_def initIPV6Socket_def sys_simps Let_def
      ThreadsTcpBroServer_def ThreadsTcp6BroServer_def engine_addr_def split: if_splits)

lemma gives_up_step:
  assumes "gives_up k v" and "moves (broker_part k p) v t" and "inet_pton6 p ''::1'' \<noteq> None"
  shows "gives_up k t"
  using assms(2)[unfolded service_sel]
proof (cases rule: service_step.cases)
  case (starts ok s)
  obtain junk w where a: "acceptor (shop v) = (echo_server k junk, w)"
    using assms(1) starts(2) by (cases "acceptor (shop v)") (auto simp: gives_up_def)
  have "ok \<or> (\<exists>e\<in>set (hist (snd s)). call_failed e)"
    using echo_begin_fails[of p k junk w s, OF _ assms(3)] starts(3)[unfolded a] by (cases ok) auto
  with starts assms(1) show ?thesis by (auto simp: gives_up_def)
next
  case (serves b)
  obtain e w where a: "acceptor (shop v) = (e, w)" by (cases "acceptor (shop v)")
  from serves(3) show ?thesis
  proof (cases rule: fleet_step.cases)
    case (leave_loop ok s)
    then obtain r where "c_ret id r < 0" "s = (e, w\<lparr>hist := E_accept (mFd e) r # hist w\<rparr>)"
      using server_body_exit[of k p e w "(ok, s)"] a by auto
    with leave_loop serves(1,2) assms(1) show ?thesis by (auto simp: gives_up_def)
  qed (use serves(1,2) assms(1) in \<open>auto simp: gives_up_def work_at_def a\<close>)
qed (use assms(1) in \<open>auto simp: gives_up_def work_at_def split: prod.split\<close>)

lemma gives_up_told: "gives_up k v \<Longrightarrow> gives_up k (told (broker_part k p) evs v)"
  by (cases "acceptor (shop v)") (auto simp: gives_up_def)

definition both_give_up :: "(server_state, worker) service \<times> (server_state, worker) service \<Rightarrow> bool" where
  "both_give_up s \<longleftrightarrow> gives_up Bro4 (fst s) \<and> gives_up Bro6 (snd s)"

lemma both_give_up_step:
  assumes "both_give_up s" and "beside (broker_part Bro4 p) (broker_part Bro6 p) s t" and "inet_pton6 p ''::1'' \<noteq> None"
  shows "both_give_up t"
  using assms(2)
  by (cases rule: beside.cases)
    (use assms(1) gives_up_step[OF _ _ assms(3)] gives_up_told in \<open>auto simp: both_give_up_def simp del: service_sel\<close>)

subsection \<open>Properties of the program\<close>

text \<open>
  C1: In every interleaving of the program, with both servers at any stage of their lives, no
  descriptor is closed that is not open, no two connections of the whole process share one, and what
  is open is what was open before, at most two listening sockets, and the live connections of the
  two servers; once every context is destroyed, no connection is open.
\<close>

theorem engine_program_descriptors:
  assumes "engine_laws p" and "clean h" and "reach (engine_main_step p) (ThreadsEchoEngine_main h j4 j6) m"
  defines "H \<equiv> engine_calls p m" and "v4 \<equiv> fst (threads m)" and "v6 \<equiv> snd (threads m)"
  shows "clean H \<and> distinct (live_conns v4 @ live_conns v6) \<and>
    (\<exists>socks L4 L6. socks \<subseteq> {L4, L6} \<and> open_fds H = open_fds h \<union> socks \<union> set (live_conns v4 @ live_conns v6) \<and>
      (open_fds h \<union> socks) \<inter> set (live_conns v4 @ live_conns v6) = {} \<and>
      ((\<forall>s\<in>set (crew (shop v4) @ crew (shop v6)). mContext s = None) \<longrightarrow> open_fds H = open_fds h \<union> socks))"
proof -
  obtain A B where i: "service_inv (broker_design Bro4 p) (service_sound Bro4 p) server_clients (served p) False A v4"
    "service_inv (broker_design Bro6 p) (service_sound Bro6 p) server_clients unserved False B v6"
    and AB: "A \<inter> B = {}" "open_fds h \<inter> (A \<union> B) = {}" "open_fds H = open_fds h \<union> A \<union> B"
    using engine_divides[OF assms(1-3)] unfolding H_def v4_def v6_def by metis
  from service4.service_descriptors[OF i(1)] obtain s4 L4 where 4: "clean (all_calls (broker_design Bro4 p) (shop v4))"
    "distinct (live_conns v4)" "A = s4 \<union> set (live_conns v4)" "s4 \<subseteq> {L4}" "s4 \<inter> set (live_conns v4) = {}"
    by (auto simp: live_conns_def)
  from service6.service_descriptors[OF i(2)] obtain s6 L6 where 6: "distinct (live_conns v6)"
    "B = s6 \<union> set (live_conns v6)" "s6 \<subseteq> {L6}" "s6 \<inter> set (live_conns v6) = {}"
    by (auto simp: live_conns_def)
  have "live_conns v4 = []" if "\<forall>s\<in>set (crew (shop v4)). mContext s = None"
    unfolding live_conns_def
    using no_contexts_no_conns[OF _ that] service4.service_members[OF i(1)] no_context_not_live(1)[of p] by metis
  moreover have "live_conns v6 = []" if "\<forall>s\<in>set (crew (shop v6)). mContext s = None"
    unfolding live_conns_def
    using no_contexts_no_conns[OF _ that] service6.service_members[OF i(2)] no_context_not_live(2) by metis
  moreover have "open_fds H = open_fds h \<union> (s4 \<union> s6) \<union> set (live_conns v4 @ live_conns v6)" using AB(3) 4(3) 6(2) by auto
  moreover have "(open_fds h \<union> (s4 \<union> s6)) \<inter> set (live_conns v4 @ live_conns v6) = {}"
    using AB(1,2) 4(3,5) 6(2,4) by auto
  moreover have "s4 \<union> s6 \<subseteq> {L4, L6}" using 4(4) 6(3) by auto
  moreover have "clean H" using 4(1) by (simp add: H_def v4_def engine_calls_def)
  moreover have "distinct (live_conns v4 @ live_conns v6)" using AB(1) 4(2,3) 6(1,2) by auto
  ultimately show ?thesis
    by (intro conjI exI[of _ "s4 \<union> s6"] exI[of _ L4] exI[of _ L6]) simp_all
qed

theorem engine_program_descriptors_witness:
  "\<exists>m. reach (engine_main_step duo_platform) (ThreadsEchoEngine_main [] 0 0) m \<and> exit_code m = Some 0 \<and>
    clean (engine_calls duo_platform m) \<and> open_fds (engine_calls duo_platform m) = {3, 4}"
proof -
  obtain m where m: "reach (engine_main_step duo_platform) (ThreadsEchoEngine_main [] 0 0) m" "exit_code m = Some 0"
    "\<forall>s\<in>set (crew (shop (fst (threads m))) @ crew (shop (snd (threads m)))). mContext s = None"
    "open_fds (engine_calls duo_platform m) = {3, 4}" using closed_program by blast
  have "clean []" by simp
  from engine_program_descriptors[OF duo_platform_laws this m(1)] m show ?thesis by auto
qed

text \<open>
  C6: Clients are isolated from each other in the whole program: what an IPv4 client's request
  holds, with what its receive thread is about to append, is exactly what arrived on its own
  connection since it was accepted, whatever the other clients and the other server do.
\<close>

theorem engine_program_isolation:
  assumes "engine_laws p" and "clean h" and "reach (engine_main_step p) (ThreadsEchoEngine_main h j4 j6) m"
    and "(fd, s) \<in> set (team server_clients (shop (fst (threads m))))" and "live fd (whist s)"
  shows "\<exists>c. mContext s = Some c \<and> conn_stream fd (engine_calls p m) = mRequest c @ pending (rpc s)"
proof -
  obtain A where i: "service_inv (broker_design Bro4 p) (service_sound Bro4 p) server_clients (served p) False A (fst (threads m))"
    using engine_divides[OF assms(1-3)] by metis
  from service4.service_members[OF i assms(4)] assms(5) have "served p fd s"
    "conn_stream fd (engine_calls p m) = received fd (whist s)" by (simp_all add: engine_calls_def)
  with assms(5) show ?thesis by (auto simp: served_def retired_def closed_inv_def quiet_inv_def)
qed

theorem engine_program_isolation_witness:
  "\<exists>m s c. reach (engine_main_step duo_platform) (ThreadsEchoEngine_main [] 0 0) m \<and>
    (5, s) \<in> set (team server_clients (shop (fst (threads m)))) \<and> mContext s = Some c \<and>
    mRequest c @ pending (rpc s) = [104, 105]"
proof -
  obtain m s where m: "reach (engine_main_step duo_platform) (ThreadsEchoEngine_main [] 0 0) m"
    "(5, s) \<in> set (team server_clients (shop (fst (threads m))))" "live 5 (whist s)"
    "conn_stream 5 (engine_calls duo_platform m) = [104, 105]" using open_program by blast
  have "clean []" by simp
  from engine_program_isolation[OF duo_platform_laws this m(1-3)] m show ?thesis by metis
qed

text \<open>
  C9: The program named an echo never sends a byte: in every interleaving of both servers and all
  their clients no \<open>send\<close> is called at all.  So no client that breaks its connection can kill the
  process by \<open>SIGPIPE\<close> either.
\<close>

theorem engine_program_never_sends:
  assumes "engine_laws p" and "clean h" and "unsent h"
    and "reach (engine_main_step p) (ThreadsEchoEngine_main h j4 j6) m"
  shows "unsent (engine_calls p m) \<and> \<not> killed (engine_calls p m)"
proof -
  obtain A B where i: "service_inv (broker_design Bro4 p) (service_sound Bro4 p) server_clients (served p) False A (fst (threads m))"
    "service_inv (broker_design Bro6 p) (service_sound Bro6 p) server_clients unserved False B (snd (threads m))"
    using engine_divides[OF assms(1,2,4)] by metis
  have u: "unsent (whist s)" if "s \<in> set (crew (shop (fst (threads m))) @ crew (shop (snd (threads m))))" for s
  proof -
    from that consider "s \<in> set (crew (shop (fst (threads m))))" | "s \<in> set (crew (shop (snd (threads m))))" by auto
    then show ?thesis
    proof cases
      case 1
      with service4.crew_in_team[OF i(1)] service4.service_members[OF i(1)] show ?thesis by (auto simp: served_def)
    next
      case 2
      with service6.crew_in_team[OF i(2)] service6.service_members[OF i(2)] show ?thesis by (auto simp: unserved_def)
    qed
  qed
  have "\<not> is_send e" if "e \<in> set (engine_calls p m)" for e
  proof
    assume "is_send e"
    with engine_whole[OF assms(1,2,4)] that assms(3) have "e \<in> share (engine_parts p) (threads m)"
      by (cases "threads m") (auto simp: whole_def engine_calls_def unsent_def)
    with u \<open>is_send e\<close> show False by (cases "threads m") (auto simp: unsent_def)
  qed
  then have "unsent (engine_calls p m)" by (simp add: unsent_def)
  then show ?thesis using sigpipe_send by (auto simp: unsent_def killed_iff)
qed

theorem engine_program_never_sends_witness:
  "\<exists>m. reach (engine_main_step duo_platform) (ThreadsEchoEngine_main [] 0 0) m \<and>
    conn_stream 5 (engine_calls duo_platform m) = [104, 105] \<and> unsent (engine_calls duo_platform m)"
proof -
  obtain m where m: "reach (engine_main_step duo_platform) (ThreadsEchoEngine_main [] 0 0) m"
    "conn_stream 5 (engine_calls duo_platform m) = [104, 105]" using open_program by blast
  have "clean []" "unsent []" by simp_all
  from engine_program_never_sends[OF duo_platform_laws this m(1)] m show ?thesis by blast
qed



text \<open>
  C22: The program does not end by itself: \<open>main\<close> returns, with 0, only when both servers have left
  their loops and are destroyed, and none does as long as every call of a starting or accepting
  server succeeds.
\<close>

theorem engine_program_ends:
  assumes "inet_pton6 p ''::1'' \<noteq> None" and "reach (engine_main_step p) (ThreadsEchoEngine_main [] j4 j6) m"
    and "exit_code m = Some code"
  shows "code = 0 \<and> gone (fst (threads m)) \<and> gone (snd (threads m)) \<and>
    (\<exists>e\<in>set (engine_calls p m). call_failed e)"
proof -
  have m: "exit_code (ThreadsEchoEngine_main [] j4 j6) = None" "both_give_up (threads (ThreadsEchoEngine_main [] j4 j6))"
    by (auto simp: ThreadsEchoEngine_main_def new_service_def both_give_up_def gives_up_def)
  have "both_give_up (threads m) \<and>
      (\<forall>c. exit_code m = Some c \<longrightarrow> c = 0 \<and> gone (fst (threads m)) \<and> gone (snd (threads m)))"
    by (rule joining_inv[where I = both_give_up, OF assms(2)[unfolded engine_main_step_def] m]) (rule both_give_up_step[OF _ _ assms(1)])
  then have b: "both_give_up (threads m)" "code = 0" "gone (fst (threads m))" "gone (snd (threads m))"
    using assms(3) by simp_all
  then have "\<exists>e\<in>set (hist (snd (acceptor (shop (fst (threads m)))))). call_failed e"
    by (auto simp: both_give_up_def gives_up_def)
  then have "\<exists>e\<in>set (engine_calls p m). call_failed e"
    by (cases "acceptor (shop (fst (threads m)))") (simp add: engine_calls_def all_calls_def)
  with b show ?thesis by simp
qed

theorem engine_program_ends_witness:
  "\<exists>m. reach (engine_main_step duo_platform) (ThreadsEchoEngine_main [] 0 0) m \<and> exit_code m = Some 0 \<and>
    (\<exists>e\<in>set (engine_calls duo_platform m). call_failed e)"
proof -
  obtain m where m: "reach (engine_main_step duo_platform) (ThreadsEchoEngine_main [] 0 0) m" "exit_code m = Some 0"
    using closed_program by blast
  have "inet_pton6 duo_platform ''::1'' \<noteq> None" by (simp add: duo_platform_def)
  from engine_program_ends[OF this m] m show ?thesis by blast
qed

end
