(* ===== verification/Client_Refinement.thy ===== *)
theory Client_Refinement
  imports Client_Life
begin

text \<open>
  The older IPv4 client as an implementation of an abstract echo service.
\<close>

subsection \<open>An abstract echo\<close>

text \<open>
  What an echo service does with one connection: bytes arrive while it is open; any part of what
  arrived that has not been sent back yet may be sent, in order; and it ends once.
\<close>

record pipe =
  got :: "byte list"
  answered :: "byte list"
  is_open :: bool

inductive pipe_step :: "pipe \<Rightarrow> pipe \<Rightarrow> bool" where
  pipe_arrive: "is_open a \<Longrightarrow> pipe_step a (a\<lparr>got := got a @ x\<rparr>)"
| pipe_answer: "is_open a \<Longrightarrow> got a = answered a @ x @ rest \<Longrightarrow> pipe_step a (a\<lparr>answered := answered a @ x\<rparr>)"
| pipe_end: "is_open a \<Longrightarrow> pipe_step a (a\<lparr>is_open := False\<rparr>)"

text \<open>The client as such a pipe.\<close>

definition pipe_of :: "int \<Rightarrow> handle \<Rightarrow> pipe" where
  "pipe_of fd s = \<lparr>got = received fd (hhist s), answered = sent fd (hhist s), is_open = (hfd s = fd)\<rparr>"

lemma pipe_reader:
  assumes "reader_next V4 p s = Some t" and "echo_inv p fd [] s"
  shows "pipe_of fd t = pipe_of fd s \<or> pipe_step (pipe_of fd s) (pipe_of fd t)"
proof (cases "rd s")
  case Rd_Recv
  obtain r bs h where r: "sys_recv p (hfd s) MAX_MESSAGEBUFF_LEN_s 0 (hhist s) = (r, bs, h)" by (metis surj_pair)
  have b: "recv_bounded p" using assms(2) by (simp add: echo_inv_def)
  have t: "hhist t = h" "hfd t = hfd s" using assms(1) Rd_Recv r by (auto simp: reader_next_eq)
  show ?thesis
  proof (cases "hfd s = fd")
    case True
    with after_recv_cases_s[OF b r] obtain x where "received fd h = received fd (hhist s) @ x"
      "sent fd h = sent fd (hhist s)" by auto
    with True t have "pipe_of fd t = (pipe_of fd s)\<lparr>got := got (pipe_of fd s) @ x\<rparr>" by (simp add: pipe_of_def)
    moreover have "is_open (pipe_of fd s)" using True by (simp add: pipe_of_def)
    ultimately show ?thesis by (metis pipe_arrive)
  next
    case False
    then have "received fd h = received fd (hhist s)" "sent fd h = sent fd (hhist s)"
      using after_recv_cases_s(2,3)[OF b r] by auto
    with t show ?thesis by (simp add: pipe_of_def)
  qed
next
  case Rd_Clear
  have "fd \<noteq> INVALID_FD" using assms(2) by (simp add: echo_inv_def)
  then have t: "pipe_of fd t = (pipe_of fd s)\<lparr>is_open := False\<rparr>" using assms(1) Rd_Clear by (auto simp: reader_next_eq pipe_of_def)
  show ?thesis
  proof (cases "is_open (pipe_of fd s)")
    case True
    with t show ?thesis by (metis pipe_end)
  next
    case False
    with t show ?thesis by simp
  qed
qed (use assms(1) in \<open>auto simp: reader_next_eq pipe_of_def notify_one_def sys_simps\<close>)

lemma pipe_writer:
  assumes "writer_next V4 p s = Some t" and "echo_inv p fd [] s"
  shows "pipe_of fd t = pipe_of fd s \<or> pipe_step (pipe_of fd s) (pipe_of fd t)"
proof (cases "wr s")
  case (Wr_Send m tot)
  have "send_progresses p" "length m < 2 ^ 63" "unat tot \<le> length m"
    using assms(2) Wr_Send by (auto simp: echo_inv_def MAX_MESSAGEBUFF_LEN_s_def)
  note cases = send_turn_cases[OF this, of s]
  have t: "t = send_turn V4 p m tot s" using assms(1) Wr_Send by (simp add: writer_next_eq)
  from cases show ?thesis
  proof (elim disjE exE conjE)
    assume "send_turn V4 p m tot s = s\<lparr>wr := Wr_After\<rparr>"
    with t show ?thesis by (simp add: pipe_of_def)
  next
    fix h tot' x
    assume h: "send_turn V4 p m tot s = s\<lparr>hhist := h, wr := Wr_Send m tot'\<rparr>"
      and x: "drop (unat tot) m = x @ drop (unat tot') m"
      and sent: "sent (hfd s) h = sent (hfd s) (hhist s) @ x"
      and frame: "\<forall>fd. fd \<noteq> hfd s \<longrightarrow> sent fd h = sent fd (hhist s)" "\<forall>fd. received fd h = received fd (hhist s)"
    show ?thesis
    proof (cases "hfd s = fd")
      case True
      then have "received fd (hhist s) = sent fd (hhist s) @ held_wr (wr s) @ concat (mMessageQueue s) @ held_rd (rd s)"
        using assms(2) by (auto simp: echo_inv_def)
      then have "got (pipe_of fd s) = answered (pipe_of fd s) @ x @
          drop (unat tot') m @ concat (mMessageQueue s) @ held_rd (rd s)" "is_open (pipe_of fd s)"
        using Wr_Send x True by (simp_all add: pipe_of_def)
      from pipe_answer[OF this(2,1)] show ?thesis
        using True sent frame(2) by (simp add: pipe_of_def t h)
    next
      case False
      then have "sent fd h = sent fd (hhist s)" using frame(1) by auto
      with frame(2) t h show ?thesis by (simp add: pipe_of_def)
    qed
  qed
next
  case Wr_ErrClear
  have "fd \<noteq> INVALID_FD" using assms(2) by (simp add: echo_inv_def)
  then have t: "pipe_of fd t = (pipe_of fd s)\<lparr>is_open := False\<rparr>"
    using assms(1) Wr_ErrClear by (auto simp: writer_next_eq pipe_of_def)
  show ?thesis
  proof (cases "is_open (pipe_of fd s)")
    case True
    with t show ?thesis by (metis pipe_end)
  next
    case False
    with t show ?thesis by simp
  qed
next
  case Wr_Top
  with assms(1) take_message_cases[of s V4] show ?thesis
    by (auto simp: writer_next_eq pipe_of_def split: if_splits)
qed (use assms(1) in \<open>auto simp: writer_next_eq pipe_of_def sys_simps split: if_splits\<close>)

lemma pipe_refine:
  assumes "echo_ok p fd [] s" and "noisy_step V4 p s t"
  shows "pipe_of fd t = pipe_of fd s \<or> pipe_step (pipe_of fd s) (pipe_of fd t)"
  using assms(2)
proof (cases rule: noisy_step.cases)
  case by_handle
  then show ?thesis
  proof (cases rule: handle_step.cases)
    case by_doWork
    then show ?thesis by (auto simp: doWork_next_eq pipe_of_def split: work_pc.splits if_splits)
  qed (use assms(1) in \<open>auto simp: echo_ok_def dest: pipe_reader pipe_writer\<close>)
next
  case spurious
  then show ?thesis by (simp add: pipe_of_def)
qed

interpretation echo_pipe: refinement "noisy_step V4 p" "fresh_echo p fd []" "echo_ok p fd []" pipe_step "pipe_of fd" for p fd
  by unfold_locales (rule pipe_refine)

text \<open>
  The older IPv4 client implements an echo: in every run, spurious wake-ups included, each step of
  any of its threads is a step of the abstract echo on its connection or invisible there.
\<close>

lemma tcp4_implements_echo:
  assumes "recv_bounded p" and "send_progresses p" and "fd \<noteq> INVALID_FD"
    and "reach (noisy_step V4 p) (ThreadsClientHandle ok fd []) s"
  shows "reach pipe_step \<lparr>got = [], answered = [], is_open = True\<rparr> (pipe_of fd s)"
proof -
  have fresh: "fresh_echo p fd [] (ThreadsClientHandle ok fd [])" using assms(1-3) by (auto simp: fresh_echo_def)
  have "pipe_of fd (ThreadsClientHandle ok fd []) = \<lparr>got = [], answered = [], is_open = True\<rparr>"
    by (simp add: pipe_of_def ThreadsClientHandle_def)
  with echo_pipe.refine_reach[OF assms(4) fresh] show ?thesis by simp
qed

end
