(* ===== verification/Tcp_Service.thy ===== *)
theory Tcp_Service
  imports Tcp_System Client_Refinement Two_Services
begin

text \<open>
  The older servers as services of a program: the thread that calls \<open>start\<close>, the accept loop and
  the threads of the clients.
\<close>

subsection \<open>Start\<close>

text \<open>\<open>TcpServer::start\<close> up to its call of \<open>run\<close>; the first result says whether it makes that call.\<close>

definition tcp_begin ::
  "(tcp_server \<Rightarrow> history \<Rightarrow> bool \<times> tcp_server \<times> history) \<Rightarrow> 'a tcp_state \<Rightarrow> bool \<times> 'a tcp_state" where
  "tcp_begin initSocket = (\<lambda>(s, h, cs).
     if mFd_s s \<noteq> INVALID_FD then (False, s, h, cs)
     else let (ok, s, h) = initSocket s h in (ok, s, h, cs))"

lemma TcpServer_start_begin:
  "TcpServer_start initSocket run n (s, h, cs) =
    (case tcp_begin initSocket (s, h, cs) of (runs, st) \<Rightarrow>
       if runs then run n st else Some (mFd_s s \<noteq> INVALID_FD, st))"
  by (auto simp: TcpServer_start_def tcp_begin_def split: prod.split option.split)

lemma tcp_init_calls:
  assumes "socket_fresh p"
  shows "IPV4_initSocket p s h = (ok, s', h') \<Longrightarrow> socket_calls h h'"
    "IPV6_initSocket p s h = (ok, s', h') \<Longrightarrow> socket_calls h h'"
  by (auto simp: IPV4_initSocket_def IPV6_initSocket_def sys_simps Let_def split: if_splits option.splits
      intro!: socket_calls_more socket_calls_first[OF assms])

lemma tcp_begin_calls:
  assumes "socket_fresh p" and "tcp_begin init s = (ok, s')" and "init = IPV4_initSocket p \<or> init = IPV6_initSocket p"
  shows "tcp_clients s' = tcp_clients s \<and> socket_calls (tcp_hist s) (tcp_hist s')"
  using assms tcp_init_calls[OF assms(1)]
  by (cases s) (auto simp: tcp_begin_def tcp_views intro: socket_calls_refl split: prod.splits if_splits)

text \<open>
  A client's context dies with its handle, and the class of the context is not in the repository:
  the end of a server releases nothing.
\<close>

abbreviation no_release :: "handle \<Rightarrow> handle \<Rightarrow> bool" where
  "no_release \<equiv> \<lambda>s t. False"

abbreviation tcp4_part :: "platform \<Rightarrow> (addr4 tcp_state, handle) service part" where
  "tcp4_part p \<equiv> service_part (tcp4_design p) (tcp_begin (IPV4_initSocket p)) no_release"

abbreviation tcp6_part :: "platform \<Rightarrow> (addr6 tcp_state, handle) service part" where
  "tcp6_part p \<equiv> service_part (tcp6_design p) (tcp_begin (IPV6_initSocket p)) no_release"

subsection \<open>The flags of a client's sends\<close>

definition flags_of :: "int \<Rightarrow> history \<Rightarrow> bool" where
  "flags_of fl h \<longleftrightarrow> (\<forall>fd bs fl' r. E_send fd bs fl' r \<in> set h \<longrightarrow> fl' = fl)"

lemma flags_of_simps [simp]: "flags_of fl []" "flags_of fl (E_send fd bs fl' r # h) \<longleftrightarrow> fl' = fl \<and> flags_of fl h"
  "flags_of fl (E_recv fd r' # h) = flags_of fl h" "flags_of fl (E_close fd # h) = flags_of fl h"
  by (auto simp: flags_of_def)

lemma noisy_flags:
  assumes "noisy_step f p s t" and "flags_of (send_flags f) (hhist s)"
  shows "flags_of (send_flags f) (hhist t)"
  using assms(1)
proof (cases rule: noisy_step.cases)
  case by_handle
  then show ?thesis
  proof (cases rule: handle_step.cases)
    case by_doWork
    then show ?thesis using assms(2) by (auto simp: doWork_next_eq split: work_pc.splits if_splits)
  next
    case by_reader
    then show ?thesis using assms(2)
      by (cases "rd s") (auto simp: reader_next_eq notify_one_def sys_simps Let_def)
  next
    case by_writer
    then show ?thesis using assms(2)
      by (cases "wr s") (auto simp: writer_next_eq send_turn_def sys_simps Let_def split: if_splits)
  qed
next
  case spurious
  then show ?thesis using assms(2) by simp
qed

lemma nosignal_never_kills:
  assumes "flags_of 0x4000 h"
  shows "\<not> killed h"
proof -
  have "\<not> sigpipe (E_send fd bs fl r)" if "E_send fd bs fl r \<in> set h" for fd bs fl r
  proof -
    have "fl = 0x4000" using assms that by (auto simp: flags_of_def)
    then show ?thesis by (cases r) (simp_all add: MSG_NOSIGNAL_def)
  qed
  then show ?thesis unfolding killed_iff by (metis is_send.elims(2) sigpipe_send)
qed

subsection \<open>The servers as services\<close>

text \<open>
  The older IPv4 server is a service for every notion of a good client that fresh handles meet and
  that their steps keep, under laws \<open>P\<close> of the system.
\<close>

lemma tcp4_is_service:
  assumes "P \<Longrightarrow> accept_fresh p" and "P \<Longrightarrow> socket_fresh p"
    and "\<And>fd. P \<Longrightarrow> 0 \<le> fd \<Longrightarrow> good fd (ThreadsClientHandle True fd [])"
    and "\<And>fd c H t. good fd c \<Longrightarrow> noisy_step V4 (localise p H (hhist c)) c t \<Longrightarrow> good fd t \<and>
      (\<exists>evs. client_calls fd (hhist c) evs \<and> hhist t = evs @ hhist c)"
  shows "service (tcp4_design p) (\<lambda>s. P) tcp_clients good True (tcp_begin (IPV4_initSocket p)) no_release"
proof
  show "P \<and> (\<exists>opts l r. list_all is_option opts \<and> calls (tcp4_design p) s' = opts @ E_accept l r # calls (tcp4_design p) s \<and>
      0 \<le> c_ret id r \<and> c_ret id r \<notin> open_fds (calls (tcp4_design p) s) \<and> tcp_clients s' = tcp_clients s @ [c_ret id r] \<and>
      good (c_ret id r) (newest (tcp4_design p) s') \<and> own_calls (tcp4_design p) (newest (tcp4_design p) s') = [])"
    if P "turn (tcp4_design p) s = Inr s'" for s s'
    using tcp4_accepts[of p s s' good] assms(1,3) that by simp
  show "P \<and> tcp_clients s' = tcp_clients s \<and> (\<exists>opts l r. list_all is_option opts \<and>
      calls (tcp4_design p) s' = opts @ E_accept l r # calls (tcp4_design p) s \<and>
      (0 \<le> c_ret id r \<longrightarrow> True \<and> c_ret id r \<notin> open_fds (calls (tcp4_design p) s)))"
    if P "turn (tcp4_design p) s = Inl (b, s')" for s b s'
    using IPV4_leave[of p s b s'] assms(1) that by simp
  show "P \<and> tcp_clients s' = [] \<and> socket_calls (calls (tcp4_design p) s) (calls (tcp4_design p) s')"
    if P "tcp_clients s = []" "tcp_begin (IPV4_initSocket p) s = (ok, s')" for s ok s'
    using tcp_begin_calls[OF assms(2) that(3)] that by simp
qed (use tcp_logs assms(4) in simp_all)

lemma tcp6_is_service:
  assumes "P \<Longrightarrow> accept_fresh p" and "P \<Longrightarrow> socket_fresh p"
  shows "service (tcp6_design p) (\<lambda>s. P) tcp_clients (\<lambda>fd. life_inv V6 p fd []) False (tcp_begin (IPV6_initSocket p)) no_release"
proof
  show "P \<and> (\<exists>opts l r. list_all is_option opts \<and> calls (tcp6_design p) s' = opts @ E_accept l r # calls (tcp6_design p) s \<and>
      0 \<le> c_ret id r \<and> c_ret id r \<notin> open_fds (calls (tcp6_design p) s) \<and> tcp_clients s' = tcp_clients s @ [c_ret id r] \<and>
      life_inv V6 p (c_ret id r) [] (newest (tcp6_design p) s') \<and> own_calls (tcp6_design p) (newest (tcp6_design p) s') = [])"
    if P "turn (tcp6_design p) s = Inr s'" for s s'
    using tcp6_fleet.turn_accepts[of p s s'] assms(1) that by (simp add: tcp6_sound_def)
  show "P \<and> tcp_clients s' = tcp_clients s \<and> (\<exists>opts l r. list_all is_option opts \<and>
      calls (tcp6_design p) s' = opts @ E_accept l r # calls (tcp6_design p) s \<and>
      (0 \<le> c_ret id r \<longrightarrow> False \<and> c_ret id r \<notin> open_fds (calls (tcp6_design p) s)))"
    if P "turn (tcp6_design p) s = Inl (b, s')" for s b s'
    using tcp6_fleet.turn_leaves[of p s b s'] assms(1) that by (simp add: tcp6_sound_def)
  show "P \<and> tcp_clients s' = [] \<and> socket_calls (calls (tcp6_design p) s) (calls (tcp6_design p) s')"
    if P "tcp_clients s = []" "tcp_begin (IPV6_initSocket p) s = (ok, s')" for s ok s'
    using tcp_begin_calls[OF assms(2) that(3)] that by simp
qed (use tcp_logs life_works in simp_all)

text \<open>On any system whose \<open>send\<close> does not answer 0, and on one whose \<open>send\<close> succeeds.\<close>

definition polite :: "platform \<Rightarrow> int \<Rightarrow> handle \<Rightarrow> bool" where
  "polite p fd c \<longleftrightarrow> life_inv V4 p fd [] c \<and> flags_of 0x4000 (hhist c)"

definition plain_laws :: "platform \<Rightarrow> bool" where
  "plain_laws p \<longleftrightarrow> accept_fresh p \<and> socket_fresh p \<and> send_never_zero p"

definition echo_laws :: "platform \<Rightarrow> bool" where
  "echo_laws p \<longleftrightarrow> plain_laws p \<and> recv_bounded p \<and> send_progresses p"

lemma polite_works:
  assumes "polite p fd c" and "noisy_step V4 (localise p H (hhist c)) c t"
  shows "polite p fd t \<and> (\<exists>evs. client_calls fd (hhist c) evs \<and> hhist t = evs @ hhist c)"
  using life_works[of V4 p fd c H t] noisy_flags[OF assms(2)] assms by (simp add: polite_def)

text \<open>A good client of the second kind echoes, and its runs are runs of the abstract echo.\<close>

definition piping :: "platform \<Rightarrow> int \<Rightarrow> handle \<Rightarrow> bool" where
  "piping p fd c \<longleftrightarrow> echoing p fd c \<and> reach pipe_step \<lparr>got = [], answered = [], is_open = True\<rparr> (pipe_of fd c)"

lemma piping_works:
  assumes "piping p fd c" and "noisy_step V4 (localise p H (hhist c)) c t"
  shows "piping p fd t \<and> (\<exists>evs. client_calls fd (hhist c) evs \<and> hhist t = evs @ hhist c)"
proof -
  have e: "echoing p fd c" using assms(1) by (simp add: piping_def)
  then have "echo_ok (localise p H (hhist c)) fd [] c"
    using localise_bounded[of p H "hhist c"] localise_progresses[of p H "hhist c"] by (simp add: echoing_def echo_ok_def echo_inv_def)
  from pipe_refine[OF this assms(2)] assms(1)
  have "reach pipe_step \<lparr>got = [], answered = [], is_open = True\<rparr> (pipe_of fd t)"
    by (auto simp: piping_def intro: reach_step)
  with echo_works[OF e assms(2)] show ?thesis by (simp add: piping_def)
qed

lemma piping_start:
  assumes "echo_laws p" and "0 \<le> fd"
  shows "piping p fd (ThreadsClientHandle True fd [])"
proof -
  have "echo_sound p s" for s using assms(1) by (simp add: echo_laws_def plain_laws_def echo_sound_def)
  moreover have "pipe_of fd (ThreadsClientHandle True fd []) = \<lparr>got = [], answered = [], is_open = True\<rparr>"
    by (simp add: pipe_of_def ThreadsClientHandle_def)
  ultimately show ?thesis using echo_start assms(2) by (simp add: piping_def reach_start)
qed

interpretation polite4: service "tcp4_design p" "\<lambda>s. plain_laws p" tcp_clients "polite p" True
    "tcp_begin (IPV4_initSocket p)" no_release for p
  by (rule tcp4_is_service, simp_all add: plain_laws_def polite_works)
    (use life_start[of V4] in \<open>simp add: polite_def ThreadsClientHandle_def\<close>)

interpretation piping4: service "tcp4_design p" "\<lambda>s. echo_laws p" tcp_clients "piping p" True
    "tcp_begin (IPV4_initSocket p)" no_release for p
  by (rule tcp4_is_service) (auto simp: echo_laws_def plain_laws_def piping_works intro: piping_start)

interpretation plain6: service "tcp6_design p" "\<lambda>s. plain_laws p" tcp_clients "\<lambda>fd. life_inv V6 p fd []" False
    "tcp_begin (IPV6_initSocket p)" no_release for p
  by (rule tcp6_is_service) (simp_all add: plain_laws_def)

interpretation echo6: service "tcp6_design p" "\<lambda>s. echo_laws p" tcp_clients "\<lambda>fd. life_inv V6 p fd []" False
    "tcp_begin (IPV6_initSocket p)" no_release for p
  by (rule tcp6_is_service) (simp_all add: echo_laws_def plain_laws_def)

end
