(* ===== verification/Echo_Program.thy ===== *)
theory Echo_Program
  imports Tcp_Service
begin

text \<open>
  The older echo program, ThreadsEcho.cpp: its arguments, and the process in which the two servers
  it builds serve until both have ended.  \<open>atoi\<close> is the C library function, whose behaviour is
  undefined when the number does not fit in an \<open>int\<close>.
\<close>

subsection \<open>Arguments\<close>

definition is_space :: "char \<Rightarrow> bool" where
  "is_space c \<longleftrightarrow> (of_char c :: nat) = 32 \<or> (9 \<le> (of_char c :: nat) \<and> (of_char c :: nat) \<le> 13)"

definition is_digit :: "char \<Rightarrow> bool" where
  "is_digit c \<longleftrightarrow> 48 \<le> (of_char c :: nat) \<and> (of_char c :: nat) \<le> 57"

fun read_digits :: "int \<Rightarrow> string \<Rightarrow> int" where
  "read_digits acc [] = acc"
| "read_digits acc (c # cs) = (if is_digit c then read_digits (acc * 10 + (of_char c - 48)) cs else acc)"

fun read_signed :: "string \<Rightarrow> int" where
  "read_signed [] = 0"
| "read_signed (c # cs) =
     (if c = CHR ''-'' then - read_digits 0 cs
      else if c = CHR ''+'' then read_digits 0 cs
      else read_digits 0 (c # cs))"

definition atoi :: "string \<Rightarrow> ub + int" where
  "atoi s = (let v = read_signed (dropWhile is_space s) in
     if - 2147483648 \<le> v \<and> v \<le> INT_MAX then Inr v else Inl Signed_overflow)"

lemma digit_char_digit: "d < 10 \<Longrightarrow> is_digit (digit_char d) \<and> of_char (digit_char d) - 48 = int d"
  by (simp add: less_Suc_eq numeral_eq_Suc; elim disjE; simp add: is_digit_def digit_char_def)

lemma show_nat_digits: "list_all is_digit (show_nat n) \<and> show_nat n \<noteq> []"
proof (induction n rule: show_nat.induct)
  case (1 n)
  then show ?case by (subst (1 2) show_nat.simps) (auto simp: digit_char_digit)
qed

lemma read_digits_append:
  "list_all is_digit xs \<Longrightarrow> read_digits acc (xs @ ys) = read_digits (read_digits acc xs) ys"
  by (induction xs arbitrary: acc) auto

lemma read_show_nat: "read_digits 0 (show_nat n) = int n"
proof (induction n rule: show_nat.induct)
  case (1 n)
  show ?case
  proof (cases "n < 10")
    case True
    then show ?thesis by (subst show_nat.simps) (simp add: digit_char_digit)
  next
    case False
    with 1 have "read_digits 0 (show_nat (n div 10)) = int (n div 10)" by simp
    moreover have "int (n div 10) * 10 + int (n mod 10) = int n"
      by (metis div_mult_mod_eq of_nat_add of_nat_mult of_nat_numeral)
    ultimately show ?thesis using False show_nat_digits[of "n div 10"]
      by (subst show_nat.simps) (simp add: read_digits_append digit_char_digit)
  qed
qed

text \<open>\<open>atoi\<close> reads back what the output streams print.\<close>

lemma atoi_show_int:
  assumes "- 2147483648 \<le> i" and "i \<le> INT_MAX"
  shows "atoi (show_int i) = Inr i"
proof -
  obtain c cs where n: "show_nat (nat i) = c # cs" "is_digit c"
    using show_nat_digits[of "nat i"] by (cases "show_nat (nat i)") auto
  then have c: "\<not> is_space c" "c \<noteq> CHR ''-''" "c \<noteq> CHR ''+''" by (auto simp: is_digit_def is_space_def)
  have "read_signed (dropWhile is_space (show_int i)) = i"
  proof (cases "i < 0")
    case True
    then show ?thesis using read_show_nat[of "nat (- i)"] by (simp add: show_int_def is_space_def)
  next
    case False
    then show ?thesis using n c read_show_nat[of "nat i"] by (simp add: show_int_def)
  qed
  with assms show ?thesis by (simp add: atoi_def)
qed

subsection \<open>The program\<close>

text \<open>The constructors of the two server classes; the port argument is a \<open>uint16_t\<close>.\<close>

definition IPV4ThreadsTcpServer_port :: "16 word \<Rightarrow> tcp_server" where
  "IPV4ThreadsTcpServer_port port = TcpServer_port port"

definition IPV4ThreadsTcpServer_addr :: "string \<Rightarrow> 16 word \<Rightarrow> tcp_server" where
  "IPV4ThreadsTcpServer_addr ip port = TcpServer_addr ip port"

definition IPV6ThreadsTcpServer_port :: "16 word \<Rightarrow> tcp_server" where
  "IPV6ThreadsTcpServer_port port = TcpServer_port port"

definition IPV6ThreadsTcpServer_addr :: "string \<Rightarrow> 16 word \<Rightarrow> tcp_server" where
  "IPV6ThreadsTcpServer_addr ip port = TcpServer_addr ip port"

text \<open>
  What \<open>main\<close> makes of its arguments: undefined behaviour, an exit code, or the two servers whose
  \<open>start\<close> it runs in threads.
\<close>

definition echo_servers :: "string list \<Rightarrow> ub + int + (tcp_server \<times> tcp_server)" where
  "echo_servers argv =
     (if length argv < 2 then Inr (Inl (- 1))
      else (case atoi (argv ! 1) of
        Inl u \<Rightarrow> Inl u
      | Inr n \<Rightarrow>
          let port = word_of_int n in
          if 3 \<le> length argv
          then Inr (Inr (IPV4ThreadsTcpServer_addr (argv ! 2) port, IPV6ThreadsTcpServer_addr (argv ! 2) port))
          else Inr (Inr (IPV4ThreadsTcpServer_port port, IPV6ThreadsTcpServer_port port))))"

lemmas tcp_ctors = IPV4ThreadsTcpServer_port_def IPV4ThreadsTcpServer_addr_def IPV6ThreadsTcpServer_port_def
  IPV6ThreadsTcpServer_addr_def TcpServer_port_def TcpServer_addr_def

text \<open>
  The port argument is read as a decimal \<open>int\<close> and cut to 16 bits without a check: whatever
  number is given, both servers are built with its remainder modulo 65536, on the host given as the
  second argument or on any address.
\<close>

lemma echo_ports_wrap:
  assumes "- 2147483648 \<le> i" and "i \<le> INT_MAX"
  shows "\<exists>s4 s6. echo_servers (prog # show_int i # rest) = Inr (Inr (s4, s6)) \<and>
    uint (mPort_s s4) = i mod 65536 \<and> uint (mPort_s s6) = i mod 65536 \<and>
    mIp s4 = (case rest of [] \<Rightarrow> [] | host # _ \<Rightarrow> host) \<and> mIp s6 = mIp s4"
  using atoi_show_int[OF assms]
  by (cases rest) (auto simp: echo_servers_def tcp_ctors Let_def uint_word_of_int)

interpretation plain_echo: two_services
  "tcp4_design p" "\<lambda>s. plain_laws p" tcp_clients "polite p" True "tcp_begin (IPV4_initSocket p)" no_release
  "tcp6_design p" "\<lambda>s. plain_laws p" tcp_clients "\<lambda>fd. life_inv V6 p fd []" False "tcp_begin (IPV6_initSocket p)" no_release
  for p
  by unfold_locales


text \<open>
  \<open>main\<close>: undefined behaviour, an exit code, or the process with the two threads, which it joins.
\<close>

type_synonym echo_main = "((addr4 tcp_state, handle) service, (addr6 tcp_state, handle) service) main_thread"

definition ThreadsEcho_main :: "history \<Rightarrow> string list \<Rightarrow> ub + int + echo_main" where
  "ThreadsEcho_main h argv =
     (case echo_servers argv of
        Inl u \<Rightarrow> Inl u
      | Inr (Inl code) \<Rightarrow> Inr (Inl code)
      | Inr (Inr (server4, server6)) \<Rightarrow>
          Inr (Inr \<lparr>threads = (new_service (server4, h, []), new_service (server6, h, [])), exit_code = None\<rparr>))"

definition echo_main_step :: "platform \<Rightarrow> echo_main \<Rightarrow> echo_main \<Rightarrow> bool" where
  "echo_main_step p = joining_step (tcp4_part p) (tcp6_part p)"

text \<open>The states the process can reach when it is started with arguments \<open>argv\<close>.\<close>

definition echo_runs :: "platform \<Rightarrow> history \<Rightarrow> string list \<Rightarrow> echo_main \<Rightarrow> bool" where
  "echo_runs p h argv m \<longleftrightarrow> (\<exists>m0. ThreadsEcho_main h argv = Inr (Inr m0) \<and> reach (echo_main_step p) m0 m)"

definition echo_calls :: "platform \<Rightarrow> echo_main \<Rightarrow> history" where
  "echo_calls p m = all_calls (tcp4_design p) (shop (fst (threads m)))"

definition conns_live :: "('a tcp_state, handle) service \<Rightarrow> int list" where
  "conns_live v = live_fds hhist (team tcp_clients (shop v))"

lemma ThreadsEcho_main_cases:
  assumes "ThreadsEcho_main h argv = Inr (Inr m)"
  obtains s4 s6 where "echo_servers argv = Inr (Inr (s4, s6))" "exit_code m = None"
    "threads m = (new_service (s4, h, []), new_service (s6, h, []))"
  using assms by (auto simp: ThreadsEcho_main_def split: sum.splits prod.splits)

subsection \<open>What holds at every moment\<close>

lemma echo_divides:
  assumes "plain_laws p" and "clean h" and "echo_runs p h argv m"
  obtains A B where "service_inv (tcp4_design p) (\<lambda>s. plain_laws p) tcp_clients (polite p) True A (fst (threads m))"
    "service_inv (tcp6_design p) (\<lambda>s. plain_laws p) tcp_clients (\<lambda>fd. life_inv V6 p fd []) False B (snd (threads m))"
    "A \<inter> B = {}" "open_fds h \<inter> (A \<union> B) = {}" "open_fds (echo_calls p m) = open_fds h \<union> A \<union> B"
    "\<forall>e\<in>set (echo_calls p m). is_send e \<longrightarrow>
      (\<exists>c\<in>set (crew (shop (fst (threads m)))) \<union> set (crew (shop (snd (threads m)))). e \<in> set (hhist c)) \<or> e \<in> set h"
proof -
  obtain m0 s4 s6 where m0: "reach (echo_main_step p) m0 m" "threads m0 = (new_service (s4, h, []), new_service (s6, h, []))"
    using assms(3) ThreadsEcho_main_cases unfolding echo_runs_def by metis
  have "whole (plain_echo.program p) (plain_echo.program_inv p) (open_fds h) (set h) (threads m0)"
    unfolding m0(2) by (rule plain_echo.program_start) (simp_all add: assms(1,2) tcp_views)
  then have w: "whole (plain_echo.program p) (plain_echo.program_inv p) (open_fds h) (set h) (threads m)"
    by (rule plain_echo.pair.joint.all.reach_inv[OF program_moves[OF joining_threads[OF m0(1)[unfolded echo_main_step_def]]]])
  then have "\<forall>e\<in>set (echo_calls p m). is_send e \<longrightarrow>
      (\<exists>c\<in>set (crew (shop (fst (threads m)))) \<union> set (crew (shop (snd (threads m)))). e \<in> set (hhist c)) \<or> e \<in> set h"
    by (cases "threads m") (auto simp: whole_def echo_calls_def)
  with that plain_echo.program_divides[of p "open_fds h" "set h" "fst (threads m)" "snd (threads m)"] w
  show ?thesis unfolding echo_calls_def by (metis prod.collapse)
qed


subsection \<open>Runs\<close>

definition tcp4_service_next where
  "tcp4_service_next p = service_next (tcp4_design p) (tcp_begin (IPV4_initSocket p)) (\<lambda>c. None)
     (\<lambda>H a c. role_next V4 (localise p H (hhist c)) a c)"

definition tcp6_service_next where
  "tcp6_service_next p = service_next (tcp6_design p) (tcp_begin (IPV6_initSocket p)) (\<lambda>c. None)
     (\<lambda>H a c. role_next V6 (localise p H (hhist c)) a c)"

lemma tcp_service_next_step:
  "tcp4_service_next p a v = Some w \<Longrightarrow> moves (tcp4_part p) v w"
  "tcp6_service_next p a u = Some x \<Longrightarrow> moves (tcp6_part p) u x"
  unfolding tcp4_service_next_def tcp6_service_next_def service_sel
  by (erule service_next_step[rotated 2]; auto intro: noisy_step.by_handle role_next_step)+

definition echo_next where
  "echo_next p = program_next (tcp4_part p) (tcp4_service_next p) (tcp6_part p) (tcp6_service_next p)"

lemma echo_sched_runs:
  assumes "ThreadsEcho_main h argv = Inr (Inr m)" and "sched (echo_next p) as (threads m) = Some s"
  shows "echo_runs p h argv (m\<lparr>threads := s\<rparr>)"
proof -
  have "exit_code m = None" using assms(1) by (rule ThreadsEcho_main_cases)
  then have "reach (echo_main_step p) m (m\<lparr>threads := s\<rparr>)"
    unfolding echo_main_step_def
    by (rule joining_sched[rotated 3]) (fact tcp_service_next_step assms(2)[unfolded echo_next_def])+
  with assms(1) show ?thesis unfolding echo_runs_def by blast
qed

text \<open>The process with port 80 on any address, and on the IPv4 loopback address.\<close>

definition echo_80 :: "string \<Rightarrow> echo_main" where
  "echo_80 host = \<lparr>threads =
     (new_service (IPV4ThreadsTcpServer_addr host 80, [], []), new_service (IPV6ThreadsTcpServer_addr host 80, [], [])),
     exit_code = None\<rparr>"

lemma ThreadsEcho_main_80:
  "ThreadsEcho_main [] [''echo'', show_int 80] = Inr (Inr (echo_80 []))"
  "ThreadsEcho_main [] [''echo'', show_int 80, ''127.0.0.1''] = Inr (Inr (echo_80 ''127.0.0.1''))"
  using atoi_show_int[of 80] by (simp_all add: ThreadsEcho_main_def echo_servers_def INT_MAX_def tcp_ctors echo_80_def)

lemma duo_laws: "echo_laws duo_platform" "accept_ebadf duo_platform"
  by (auto simp: echo_laws_def plain_laws_def duo_platform_def recv_bounded_def accept_fresh_def socket_fresh_def
      send_never_zero_def send_progresses_def send_bounded_def accept_ebadf_def next_fd_def split: if_splits)

lemmas echo_eval = IPV4ThreadsTcpServer_addr_def IPV6ThreadsTcpServer_addr_def TcpServer_addr_def echo_next_def tcp4_service_next_def tcp6_service_next_def tcp_begin_def echo_80_def new_service_def
  IPV4_initSocket_def IPV6_initSocket_def BACK_LOG_s_def tcp_eval handle_eval next_fd_def duo_platform_def

text \<open>Both servers start and accept a client each; the reader of a client passes a message on.\<close>

definition both_open where
  "both_open = [Inl Start, Inr Start, Inl (Run Accept), Inr (Run Accept)]"

definition read_once :: "role service_move list" where
  "read_once = map (\<lambda>a. Run (Client 0 a)) [Work, Work, Reader, Reader, Reader, Reader]"

lemma answering_run:
  "\<exists>v4 v6 c. sched (echo_next duo_platform) (both_open @ map Inl (read_once @ map (\<lambda>a. Run (Client 0 a)) [Writer, Writer, Writer]))
      (threads (echo_80 [])) = Some (v4, v6) \<and>
    team tcp_clients (shop v4) = [(5, c)] \<and> live 5 (hhist c) \<and> sent 5 (hhist c) = [104, 105] \<and>
    conns_live v6 = [6]"
  by (simp add: both_open_def read_once_def echo_eval team_def conns_live_def live_fds_def live_team_def live_def)

text \<open>
  A system that differs in one point: the peer of the IPv6 client has broken its connection, so
  that a \<open>send\<close> without \<open>MSG_NOSIGNAL\<close> fails with \<open>EPIPE\<close>.
\<close>

definition broken_pipe_platform :: platform where
  "broken_pipe_platform = duo_platform\<lparr>
     k_send := \<lambda>h fd bs fl. if fl = 0 then Fail EPIPE else Done (min 2 (int (length bs)))\<rparr>"

lemma broken_pipe_laws: "plain_laws broken_pipe_platform"
  by (auto simp: plain_laws_def broken_pipe_platform_def duo_platform_def accept_fresh_def socket_fresh_def
      send_never_zero_def next_fd_def split: if_splits)

lemma broken_pipe_run:
  "\<exists>v4 v6 c d. sched (echo_next broken_pipe_platform)
      (both_open @ map Inl read_once @ map Inr (read_once @ map (\<lambda>a. Run (Client 0 a)) [Writer, Writer, Writer]))
      (threads (echo_80 [])) = Some (v4, v6) \<and>
    team tcp_clients (shop v4) = [(5, c)] \<and> live 5 (hhist c) \<and> mMessageQueue c = [[104, 105]] \<and> sent 5 (hhist c) = [] \<and>
    crew (shop v6) = [d] \<and> killed (all_calls (tcp4_design broken_pipe_platform) (shop v4))"
  by (simp add: both_open_def read_once_def broken_pipe_platform_def EPIPE_def MSG_NOSIGNAL_def echo_eval team_def live_def)

text \<open>The program with an IPv4 host, to the end.\<close>

lemma ipv4_host_run:
  "\<exists>v4 v6. sched (echo_next duo_platform) [Inl Start, Inr Start, Inr (Run Accept), Inr Destroy,
      Inl (Run Accept), Inl (Run Accept), Inl (Run Accept), Inl Destroy] (threads (echo_80 ''127.0.0.1'')) = Some (v4, v6) \<and>
    gone v4 \<and> gone v6 \<and> \<not> killed (all_calls (tcp4_design duo_platform) (shop v4)) \<and> tcp_clients (acceptor (shop v4)) = [5, 6] \<and>
    4 \<in> open_fds (all_calls (tcp4_design duo_platform) (shop v4))"
  by (simp add: echo_eval)

text \<open>An IPv4 server that ends before the threads of its clients have begun.\<close>

lemma orphan_run:
  "\<exists>v4 v6 c d. sched (echo_next duo_platform) [Inl Start, Inr Start, Inl (Run Accept), Inl (Run Accept), Inl (Run Accept), Inl Destroy]
      (threads (echo_80 [])) = Some (v4, v6) \<and>
    gone v4 \<and> serving (shop v6) \<and> team tcp_clients (shop v4) = [(5, c), (6, d)] \<and> live 5 (hhist c) \<and> work c = D_Read \<and>
    hfd c = 5 \<and> cast_ok c"
  by (simp add: echo_eval team_def live_def)

subsection \<open>Properties of the program\<close>



text \<open>
  C10: In every interleaving of the process no descriptor is closed that is not open, no two live
  connections share one, and what is open is what was open before, at most two listening sockets,
  the live connections of both servers, and at most one connection that the IPv4 loop has dropped
  when it ended.
\<close>

theorem echo_program_descriptors:
  assumes "plain_laws p" and "clean h" and "echo_runs p h argv m"
  defines "H \<equiv> echo_calls p m" and "fds \<equiv> conns_live (fst (threads m)) @ conns_live (snd (threads m))"
  shows "clean H \<and> distinct fds \<and>
    (\<exists>socks lost L4 L6 L. socks \<subseteq> {L4, L6} \<and> lost \<subseteq> {L} \<and> open_fds H = open_fds h \<union> socks \<union> set fds \<union> lost \<and>
      (open_fds h \<union> socks \<union> lost) \<inter> set fds = {} \<and> (serving (shop (fst (threads m))) \<longrightarrow> lost = {}))"
proof -
  obtain A B where i: "service_inv (tcp4_design p) (\<lambda>s. plain_laws p) tcp_clients (polite p) True A (fst (threads m))"
    "service_inv (tcp6_design p) (\<lambda>s. plain_laws p) tcp_clients (\<lambda>fd. life_inv V6 p fd []) False B (snd (threads m))"
    and AB: "A \<inter> B = {}" "open_fds h \<inter> (A \<union> B) = {}" "open_fds H = open_fds h \<union> A \<union> B"
    using echo_divides[OF assms(1-3)] unfolding H_def by metis
  let ?l4 = "conns_live (fst (threads m))" and ?l6 = "conns_live (snd (threads m))"
  from polite4.service_descriptors[OF i(1)] obtain s4 lost L4 L where 4: "clean H" "distinct ?l4"
    "A = s4 \<union> set ?l4 \<union> lost" "s4 \<subseteq> {L4}" "lost \<subseteq> {L}" "s4 \<inter> (set ?l4 \<union> lost) = {}" "lost \<inter> set ?l4 = {}"
    "serving (shop (fst (threads m))) \<Longrightarrow> lost = {}"
    by (auto simp: conns_live_def H_def echo_calls_def)
  from plain6.service_descriptors[OF i(2)] obtain s6 L6 where 6: "distinct ?l6" "B = s6 \<union> set ?l6" "s6 \<subseteq> {L6}"
    "s6 \<inter> set ?l6 = {}" by (auto simp: conns_live_def)
  have "distinct fds" using AB(1) 4(2,3) 6(1,2) by (auto simp: fds_def)
  moreover have "open_fds H = open_fds h \<union> (s4 \<union> s6) \<union> set fds \<union> lost" using AB(3) 4(3) 6(2) by (auto simp: fds_def)
  moreover have "(open_fds h \<union> (s4 \<union> s6) \<union> lost) \<inter> set fds = {}" using AB(1,2) 4(3,6,7) 6(2,4) by (auto simp: fds_def)
  moreover have "s4 \<union> s6 \<subseteq> {L4, L6}" using 4(4) 6(3) by auto
  ultimately show ?thesis using 4(1,5,8)
    by (intro conjI exI[of _ "s4 \<union> s6"] exI[of _ lost] exI[of _ L4] exI[of _ L6] exI[of _ L]) simp_all
qed

theorem echo_program_descriptors_witness:
  "\<exists>m. echo_runs duo_platform [] [''echo'', show_int 80] m \<and> conns_live (snd (threads m)) = [6] \<and>
    clean (echo_calls duo_platform m) \<and> distinct (conns_live (fst (threads m)) @ conns_live (snd (threads m)))"
proof -
  obtain v4 v6 where r: "sched (echo_next duo_platform)
      (both_open @ map Inl (read_once @ map (\<lambda>a. Run (Client 0 a)) [Writer, Writer, Writer])) (threads (echo_80 [])) = Some (v4, v6)"
    and v: "conns_live v6 = [6]" using answering_run by blast
  have m: "echo_runs duo_platform [] [''echo'', show_int 80] ((echo_80 [])\<lparr>threads := (v4, v6)\<rparr>)"
    using echo_sched_runs[OF ThreadsEcho_main_80(1) r] .
  have "plain_laws duo_platform" using duo_laws(1) by (simp add: echo_laws_def)
  from echo_program_descriptors[OF this _ m] v m show ?thesis
    by (intro exI[of _ "(echo_80 [])\<lparr>threads := (v4, v6)\<rparr>"]) simp
qed

text \<open>
  C11: Only an IPv6 client can end the process by breaking its connection: the IPv4 writers pass
  \<open>MSG_NOSIGNAL\<close> with every \<open>send\<close>, so when the process has been killed by \<open>SIGPIPE\<close>, the
  \<open>send\<close> that did it belongs to a client of the IPv6 server.
\<close>

theorem echo_program_killer:
  assumes "plain_laws p" and "clean h" and "\<not> killed h" and "echo_runs p h argv m" and "killed (echo_calls p m)"
  shows "(\<forall>c\<in>set (crew (shop (fst (threads m)))). \<not> killed (hhist c)) \<and>
    (\<exists>c\<in>set (crew (shop (snd (threads m)))). killed (hhist c))"
proof -
  obtain A where i: "service_inv (tcp4_design p) (\<lambda>s. plain_laws p) tcp_clients (polite p) True A (fst (threads m))"
    and sends: "\<forall>e\<in>set (echo_calls p m). is_send e \<longrightarrow>
      (\<exists>c\<in>set (crew (shop (fst (threads m)))) \<union> set (crew (shop (snd (threads m)))). e \<in> set (hhist c)) \<or> e \<in> set h"
    using echo_divides[OF assms(1,2,4)] by metis
  have 4: "\<not> killed (hhist c)" if "c \<in> set (crew (shop (fst (threads m))))" for c
    using polite4.crew_in_team[OF i that] polite4.service_members[OF i] nosignal_never_kills by (auto simp: polite_def)
  obtain e where e: "e \<in> set (echo_calls p m)" "sigpipe e" using assms(5) by (auto simp: killed_iff)
  with assms(3) have "e \<notin> set h" by (auto simp: killed_iff)
  with sends e obtain c where "c \<in> set (crew (shop (fst (threads m)))) \<union> set (crew (shop (snd (threads m))))" "killed (hhist c)"
    unfolding killed_iff using sigpipe_send by metis
  with 4 show ?thesis by blast
qed

lemma broken_pipe_state:
  "\<exists>m c. echo_runs broken_pipe_platform [] [''echo'', show_int 80] m \<and> killed (echo_calls broken_pipe_platform m) \<and>
    exit_code m = None \<and> team tcp_clients (shop (fst (threads m))) = [(5, c)] \<and> live 5 (hhist c) \<and>
    mMessageQueue c = [[104, 105]] \<and> sent 5 (hhist c) = [] \<and> crew (shop (snd (threads m))) \<noteq> []"
proof -
  obtain v4 v6 c d where r: "sched (echo_next broken_pipe_platform)
      (both_open @ map Inl read_once @ map Inr (read_once @ map (\<lambda>a. Run (Client 0 a)) [Writer, Writer, Writer]))
      (threads (echo_80 [])) = Some (v4, v6)"
    and v: "team tcp_clients (shop v4) = [(5, c)]" "live 5 (hhist c)" "mMessageQueue c = [[104, 105]]" "sent 5 (hhist c) = []"
      "crew (shop v6) = [d]" "killed (all_calls (tcp4_design broken_pipe_platform) (shop v4))"
    using broken_pipe_run by blast
  from echo_sched_runs[OF ThreadsEcho_main_80(1) r] v show ?thesis
    by (intro exI[of _ "(echo_80 [])\<lparr>threads := (v4, v6)\<rparr>"] exI[of _ c]) (simp add: echo_calls_def echo_80_def)
qed

theorem echo_program_killer_witness:
  "\<exists>m. echo_runs broken_pipe_platform [] [''echo'', show_int 80] m \<and> killed (echo_calls broken_pipe_platform m) \<and>
    (\<exists>c\<in>set (crew (shop (snd (threads m)))). killed (hhist c))"
proof -
  obtain m where m: "echo_runs broken_pipe_platform [] [''echo'', show_int 80] m" "killed (echo_calls broken_pipe_platform m)"
    using broken_pipe_state by blast
  have "clean []" "\<not> killed []" by simp_all
  from echo_program_killer[OF broken_pipe_laws this m] m show ?thesis by blast
qed


text \<open>An IPv6 server whose address is rejected serves nobody.\<close>

definition deaf :: "string \<Rightarrow> (addr6 tcp_state, handle) service \<Rightarrow> bool" where
  "deaf host v \<longleftrightarrow> crew (shop v) = [] \<and> tcp_clients (acceptor (shop v)) = [] \<and>
     mFd_s (fst (acceptor (shop v))) = INVALID_FD \<and> mIp (fst (acceptor (shop v))) = host"

lemma deaf_step:
  assumes "deaf host v" and "moves (tcp6_part p) v t" and "host \<noteq> []" and "inet_pton6 p host = None" and "accept_ebadf p"
  shows "deaf host t"
  using assms(2)[unfolded service_sel]
proof (cases rule: service_step.cases)
  case (starts ok s)
  obtain e h cs where a: "acceptor (shop v) = (e, h, cs)" by (metis surj_pair)
  have e: "cs = []" "mFd_s e = INVALID_FD" "mIp e = host" using assms(1) a by (simp_all add: deaf_def tcp_views)
  obtain h' where "s = (e, h', [])"
    using starts(3) assms(3,4) e
    by (auto simp: a tcp_begin_def IPV6_initSocket_def Let_def split: prod.splits if_splits)
  then show ?thesis using starts(1) e by (simp add: deaf_def tcp_views)
next
  case (serves b)
  obtain e h cs where a: "acceptor (shop v) = (e, h, cs)" by (metis surj_pair)
  have e: "cs = []" "mFd_s e = INVALID_FD" "mIp e = host" "crew (shop v) = []"
    using assms(1) a by (simp_all add: deaf_def tcp_views)
  obtain r where r: "k_accept6 p h INVALID_FD = Fail r" using assms(5) INVALID_not_open[of h] by (auto simp: accept_ebadf_def)
  have "IPV6_body p (e, h, cs) = Inl (False, e, E_accept INVALID_FD (Fail r) # h, cs)"
    by (simp add: body_defs sys_simps e(2) r)
  with serves(1,3) e show ?thesis
    by (auto simp: deaf_def a tcp_views elim!: fleet_step.cases)
qed (use assms(1) in \<open>auto simp: deaf_def\<close>)

lemma deaf_told: "deaf host v \<Longrightarrow> deaf host (told (tcp6_part p) evs v)"
  by (cases "acceptor (shop v)") (auto simp: deaf_def tcp_views)

lemma deaf_beside:
  assumes "deaf host (snd s)" and "beside (tcp4_part p) (tcp6_part p) s t"
    and "host \<noteq> []" and "inet_pton6 p host = None" and "accept_ebadf p"
  shows "deaf host (snd t)"
  using assms(2)
  by (cases rule: beside.cases)
    (use assms(1) deaf_step[OF _ _ assms(3-5)] deaf_told in \<open>auto simp del: service_sel\<close>)

text \<open>
  C40: Given a host that is no IPv6 address, such as any IPv4 one, the process serves IPv4 only: at no
  moment does its IPv6 server have a listening socket or a client, and \<open>main\<close> reports success all
  the same.
\<close>

theorem echo_ipv4_host:
  assumes "host \<noteq> []" and "inet_pton6 p host = None" and "accept_ebadf p"
    and "- 2147483648 \<le> i" and "i \<le> INT_MAX" and "echo_runs p h (prog # show_int i # host # rest) m"
  shows "tcp_fd (acceptor (shop (snd (threads m)))) = INVALID_FD \<and> tcp_clients (acceptor (shop (snd (threads m)))) = [] \<and>
    crew (shop (snd (threads m))) = [] \<and> (\<forall>code. exit_code m = Some code \<longrightarrow> code = 0)"
proof -
  obtain m0 s4 s6 where m0: "reach (echo_main_step p) m0 m" "exit_code m0 = None"
    "threads m0 = (new_service (s4, h, []), new_service (s6, h, []))"
    and s: "echo_servers (prog # show_int i # host # rest) = Inr (Inr (s4, s6))"
    using assms(6) ThreadsEcho_main_cases unfolding echo_runs_def by metis
  have "deaf host (snd (threads m0))"
    using s atoi_show_int[OF assms(4,5)]
    by (auto simp: m0(3) deaf_def new_service_def echo_servers_def Let_def tcp_ctors tcp_views)
  from joining_inv[where I = "\<lambda>s. deaf host (snd s)", OF m0(1)[unfolded echo_main_step_def] m0(2) this]
  have "deaf host (snd (threads m)) \<and> (\<forall>code. exit_code m = Some code \<longrightarrow> code = 0)"
    using deaf_beside[OF _ _ assms(1-3)] by blast
  then show ?thesis by (cases "acceptor (shop (snd (threads m)))") (simp add: deaf_def tcp_views)
qed

lemma ipv4_host_state:
  "\<exists>m. echo_runs duo_platform [] [''echo'', show_int 80, ''127.0.0.1''] m \<and> exit_code m = Some 0 \<and>
    tcp_clients (acceptor (shop (fst (threads m)))) = [5, 6] \<and> 4 \<in> open_fds (echo_calls duo_platform m)"
proof -
  obtain v4 v6 where r: "sched (echo_next duo_platform) [Inl Start, Inr Start, Inr (Run Accept), Inr Destroy,
      Inl (Run Accept), Inl (Run Accept), Inl (Run Accept), Inl Destroy] (threads (echo_80 ''127.0.0.1'')) = Some (v4, v6)"
    and v: "gone v4" "gone v6" "\<not> killed (all_calls (tcp4_design duo_platform) (shop v4))"
      "tcp_clients (acceptor (shop v4)) = [5, 6]" "4 \<in> open_fds (all_calls (tcp4_design duo_platform) (shop v4))"
    using ipv4_host_run by blast
  let ?m = "(echo_80 ''127.0.0.1'')\<lparr>threads := (v4, v6)\<rparr>"
  have "echo_main_step duo_platform ?m (?m\<lparr>exit_code := Some 0\<rparr>)"
    unfolding echo_main_step_def by (rule main_returns) (use v in \<open>simp_all add: echo_80_def\<close>)
  with echo_sched_runs[OF ThreadsEcho_main_80(2) r] v(4,5) show ?thesis
    by (intro exI[of _ "?m\<lparr>exit_code := Some 0\<rparr>"]) (auto simp: echo_calls_def echo_runs_def intro: reach_step)
qed

theorem echo_ipv4_host_witness:
  "\<exists>m. echo_runs duo_platform [] [''echo'', show_int 80, ''127.0.0.1''] m \<and> exit_code m = Some 0 \<and>
    tcp_clients (acceptor (shop (fst (threads m)))) = [5, 6] \<and> tcp_clients (acceptor (shop (snd (threads m)))) = [] \<and>
    4 \<in> open_fds (echo_calls duo_platform m)"
proof -
  obtain m where m: "echo_runs duo_platform [] [''echo'', show_int 80, ''127.0.0.1''] m" "exit_code m = Some 0"
    "tcp_clients (acceptor (shop (fst (threads m)))) = [5, 6]" "4 \<in> open_fds (echo_calls duo_platform m)"
    using ipv4_host_state by blast
  have "inet_pton6 duo_platform ''127.0.0.1'' = None" by (simp add: duo_platform_def)
  from echo_ipv4_host[OF _ this duo_laws(2) _ _ m(1)] m show ?thesis by (auto simp: INT_MAX_def)
qed

end
