(* ===== verification/Async_Client.thy ===== *)
theory Async_Client
  imports Prelude
begin

text \<open>
  \<open>AsyncClient\<close> (async_client/AsyncClient.h/.cpp), an unfinished class that the build leaves out:
  it keeps an address and three callbacks in an implementation object and never calls any of them.
  The callbacks are values of any type.
\<close>

record 'cb async_impl =
  mServerIP :: string
  mServerPort :: "16 word"
  mConnCb :: "'cb option"
  mReadCb :: "'cb option"
  mWriteCb :: "'cb option"

definition AsyncClientImpl :: "string \<Rightarrow> 16 word \<Rightarrow> 'cb async_impl" where
  "AsyncClientImpl ip port =
     \<lparr>mServerIP = ip, mServerPort = port, mConnCb = None, mReadCb = None, mWriteCb = None\<rparr>"

definition Impl_registerConnectedCB :: "'cb option \<Rightarrow> 'cb async_impl \<Rightarrow> 'cb async_impl" where
  "Impl_registerConnectedCB conn_cb i = i\<lparr>mConnCb := conn_cb\<rparr>"

definition Impl_registerReadCB :: "'cb option \<Rightarrow> 'cb async_impl \<Rightarrow> 'cb async_impl" where
  "Impl_registerReadCB read_cb i = i\<lparr>mReadCb := read_cb\<rparr>"

definition Impl_registerWriteCB :: "'cb option \<Rightarrow> 'cb async_impl \<Rightarrow> 'cb async_impl" where
  "Impl_registerWriteCB write_cb i = i\<lparr>mWriteCb := write_cb\<rparr>"

definition Impl_connect :: "'cb async_impl \<Rightarrow> 'cb async_impl" where
  "Impl_connect i = i"

text \<open>The public class holds a shared pointer, null only after its destruction, and forwards.\<close>

type_synonym 'cb async_client = "'cb async_impl option"

definition AsyncClient :: "string \<Rightarrow> 16 word \<Rightarrow> 'cb async_client" where
  "AsyncClient ip port = Some (AsyncClientImpl ip port)"

definition AsyncClient_destroy :: "'cb async_client \<Rightarrow> 'cb async_client" where
  "AsyncClient_destroy c = None"

definition deref :: "('cb async_impl \<Rightarrow> 'cb async_impl) \<Rightarrow> 'cb async_client \<Rightarrow> ub + 'cb async_client" where
  "deref f c = (case c of None \<Rightarrow> Inl Null_deref | Some i \<Rightarrow> Inr (Some (f i)))"

definition registerConnectedCB :: "'cb option \<Rightarrow> 'cb async_client \<Rightarrow> ub + 'cb async_client" where
  "registerConnectedCB conn_cb = deref (Impl_registerConnectedCB conn_cb)"

definition registerReadCB :: "'cb option \<Rightarrow> 'cb async_client \<Rightarrow> ub + 'cb async_client" where
  "registerReadCB read_cb = deref (Impl_registerReadCB read_cb)"

definition registerWriteCB :: "'cb option \<Rightarrow> 'cb async_client \<Rightarrow> ub + 'cb async_client" where
  "registerWriteCB write_cb = deref (Impl_registerWriteCB write_cb)"

definition connect :: "'cb async_client \<Rightarrow> ub + 'cb async_client" where
  "connect = deref Impl_connect"

text \<open>Calls of the public functions, in any order.\<close>

datatype 'cb async_op = Reg_conn "'cb option" | Reg_read "'cb option" | Reg_write "'cb option" | Do_connect

fun async_exec :: "'cb async_op \<Rightarrow> 'cb async_client \<Rightarrow> ub + 'cb async_client" where
  "async_exec (Reg_conn cb) c = registerConnectedCB cb c"
| "async_exec (Reg_read cb) c = registerReadCB cb c"
| "async_exec (Reg_write cb) c = registerWriteCB cb c"
| "async_exec Do_connect c = connect c"

fun async_execs :: "'cb async_op list \<Rightarrow> 'cb async_client \<Rightarrow> ub + 'cb async_client" where
  "async_execs [] c = Inr c"
| "async_execs (x # xs) c = (case async_exec x c of Inl u \<Rightarrow> Inl u | Inr c' \<Rightarrow> async_execs xs c')"

text \<open>The last registration of a kind, after \<open>cb\<close>.\<close>

definition last_conn :: "'cb async_op list \<Rightarrow> 'cb option \<Rightarrow> 'cb option" where
  "last_conn xs cb = fold (\<lambda>x cb. case x of Reg_conn cb' \<Rightarrow> cb' | _ \<Rightarrow> cb) xs cb"

definition last_read :: "'cb async_op list \<Rightarrow> 'cb option \<Rightarrow> 'cb option" where
  "last_read xs cb = fold (\<lambda>x cb. case x of Reg_read cb' \<Rightarrow> cb' | _ \<Rightarrow> cb) xs cb"

definition last_write :: "'cb async_op list \<Rightarrow> 'cb option \<Rightarrow> 'cb option" where
  "last_write xs cb = fold (\<lambda>x cb. case x of Reg_write cb' \<Rightarrow> cb' | _ \<Rightarrow> cb) xs cb"

lemmas async_defs = registerConnectedCB_def registerReadCB_def registerWriteCB_def connect_def deref_def
  Impl_registerConnectedCB_def Impl_registerReadCB_def Impl_registerWriteCB_def Impl_connect_def
  last_conn_def last_read_def last_write_def

text \<open>No call fails on a live client; each kind of callback is the last one registered.\<close>

lemma async_execs_impl:
  "async_execs xs (Some i) = Inr (Some (i\<lparr>mConnCb := last_conn xs (mConnCb i), mReadCb := last_read xs (mReadCb i),
     mWriteCb := last_write xs (mWriteCb i)\<rparr>))"
proof (induction xs arbitrary: i)
  case (Cons x xs)
  then show ?case by (cases x) (simp_all add: async_defs)
qed (simp add: async_defs)

lemma async_destroyed: "xs \<noteq> [] \<Longrightarrow> async_execs xs (AsyncClient_destroy c) = Inl Null_deref"
  by (cases xs; cases "hd xs") (auto simp: AsyncClient_destroy_def async_defs)

end
