(* ===== verification/Spec2Isabelle.thy ===== *)
theory Spec2Isabelle
  imports Hexdump Worker_Refinement Worker_Runs Worker_Answers Broker_Stop Broker_Shutdown Tcp_System Client_Runs
    Engine_Program Echo_Program Async_Client
begin

text \<open>
  A model of NetUtils (src/src/NetUtils), a C++ library of threaded TCP servers, and the theorems
  that say what its parts guarantee and where they fail.

  The program.  A server object (\<open>ThreadsTcpBroServer\<close> for IPv4, \<open>ThreadsTcp6BroServer\<close> for
  IPv6, both \<open>ITcpBrokerServerEngine\<close>s, themselves \<open>IEngine\<close>s) creates a listening socket in
  \<open>start\<close> and runs an accept loop.  Each accepted connection becomes a socket context, is queued
  in the server and handed by \<open>ThreadsTcpBroProcessor\<close> to a detached thread that runs a
  \<open>ThreadsTcpBroWorker\<close>.  The worker has a receive thread, which appends what arrives to the
  context's request, and a send thread, which sends the context's response with
  \<open>IOHelper::send_bytes\<close> when the write event is enabled; both close the descriptor when they
  leave and try to make the other one leave.  ThreadsEchoEngine.cpp starts one server of each kind
  in one process.
  An older generation of the same idea is still in the repository: \<open>TcpServer\<close> with
  \<open>IPV4ThreadsTcpServer\<close> and \<open>IPV6ThreadsTcpServer\<close>, whose \<open>ThreadsClientHandle\<close>s pass
  messages from a reader to a writer thread through a queue; ThreadsEcho.cpp starts one of each.

  The theories, and what they model.
  \<^item> Prelude: C types and undefined behaviours, decimal printing, the \<open>while (true)\<close> combinator
    \<open>forever\<close>, reachability and schedules, the contracts of an invariant, of a refinement and of a system
    that comes to rest.
  \<^item> Posix: the socket calls, as functions of the history of calls.  The kernel is a record of
    arbitrary functions (\<open>platform\<close>), so a theorem about every platform is one about every
    behaviour of the system; documented laws (\<open>accept_ebadf\<close>, \<open>send_bounded\<close>,
    \<open>recv_bounded\<close>, \<open>send_never_zero\<close>, \<open>accept_fresh\<close> of Fleet and \<open>socket_fresh\<close> of
    Service) are hypotheses where they are needed.
  \<^item> Hexdump: \<open>IOHelper::hexdump\<close> (IOHelper.cpp) and \<open>ThreadsClientHandle::dumpHex\<close>.
  \<^item> IOHelper: \<open>send_bytes\<close> and \<open>recv_bytes\<close> (IOHelper.cpp).
  \<^item> Context: protocol.h, SocketContext.h, and the store the threads share.
  \<^item> Interfaces: the contracts (locales) of a function that creates a listening socket and of an
    accept loop, with the lemmas their clients use.
  \<^item> Engine: IEngine.cpp and ITcpBrokerServerEngine.h/.cpp; its socket functions satisfy the
    contract \<open>listener\<close>.
  \<^item> Servers: ThreadsTcpBroProcessor.cpp, ThreadsTcpBroServer.cpp, ThreadsTcp6BroServer.cpp; their
    loops satisfy \<open>accept_server_exact\<close>.
  \<^item> Worker, Worker_Properties: ThreadsTcpBroWorker.h/.cpp as an interleaving of three threads, as
    step relations and as the functions they are the graphs of.
  \<^item> Worker_Runs, Client_Runs: once its peer has gone a worker, or a client of the older IPv4 server,
    comes to rest after a bounded number of steps, and where it does.
  \<^item> Tcp_Server: TcpServer.h/.cpp and the \<open>initSocket\<close> and \<open>run\<close> of the older servers; the
    IPv4 one is a \<open>listener\<close> and an \<open>accept_server\<close>, the IPv6 one only a \<open>listener_keeps\<close>
    and an \<open>accept_server_exact\<close>.
  \<^item> Client_Handle: the client handles of the older servers, one function per thread and class,
    and the common form in which the proofs use them.  Client_Properties, Client_Life: what they
    guarantee, who closes the descriptor, where they get stuck.  Client_Refinement: the IPv4 handle
    as a \<open>refinement\<close> of an abstract echo.
  \<^item> Fleet: a server together with the threads of all its clients, over one history of the whole
    process, for any design of server and client; its contract (\<open>fleet\<close>) and what follows from it,
    up to a refinement of an abstract table of connections.
  \<^item> Broker, Broker_Properties, Open_Broker, Broker_Stop, Broker_Shutdown, Worker_Refinement: both
    broker servers with their workers as fleets, the IPv4 broker under an application that uses the
    workers' public functions and sets responses, a broker that is stopped while it serves, the
    destruction of a server with its queue of contexts, and the worker as a refinement of an abstract
    collector.
  \<^item> Worker_Waiting, Worker_Answers: what an application gets from a worker: what happens when it
    enables an event a thread waits for, and the responses that are sent, in terms of a journal of
    what the application has stored and asked for and what the send thread has taken.
  \<^item> Tcp_Fleet, Tcp_System: \<open>handleClient\<close> of the older servers, and these servers with their
    clients as fleets.
  \<^item> Process: the parts of a process that share its descriptors and its history, as a contract
    (\<open>party\<close>) in the manner of rely and guarantee, which two parts side by side keep if each does;
    and the \<open>SIGPIPE\<close> that ends a process.
  \<^item> Service, Two_Services: the life of a server object in a process, from \<open>start\<close> to its
    destruction, for any \<open>fleet\<close>; two servers in one process and the \<open>main\<close> that joins their
    threads.
  \<^item> Broker_Service, Engine_Program: the broker servers as services, and \<open>main\<close> of
    ThreadsEchoEngine.cpp.
  \<^item> Tcp_Service, Echo_Program: the older servers as services, and \<open>main\<close> of ThreadsEcho.cpp.
  \<^item> Async_Client: async_client/AsyncClient.h/.cpp.
  \<^item> This theory: properties of a server together with one of its workers.

  State and code.  Each class is a record with the fields of the code; each member function is a
  definition of the same name.  A call that may reach undefined behaviour returns \<open>Inl\<close> of the
  behaviour; \<open>size_t\<close> and \<open>int\<close> are kept at their widths where the code depends on them.  A
  \<open>while (true)\<close> loop is \<open>forever\<close> of its body; the bound of turns is an argument, \<open>None\<close>
  means that the loop still runs after that many turns, the result does not depend on a bound that
  is enough (\<open>forever_determ\<close>), and where the code is meant to return a theorem says that a
  given bound is enough: \<open>len + 1\<close> turns for \<open>send_bytes\<close> over a system that makes
  progress and for \<open>recv_bytes\<close> over one that does not answer \<open>EAGAIN\<close>.  The accept loops
  are meant to run for ever; \<open>server_run_returns_iff\<close> says when they return.  Threads are
  interleaved between accesses to shared state; each turn of the loop of \<open>send_bytes\<close> is a step
  of the send thread, and left alone these steps are the function (\<open>send_bytes_alone\<close>).  A thread's
  history holds the calls of its own client; other clients
  act through the kernel's answers, which are arbitrary.  In a fleet the kernel answers every thread
  from the history of the whole process (\<open>localise\<close>), so descriptor numbers are reused and one
  client's calls are seen by the others.  A worker keeps its own copy of the context it was
  given; the store of the server shows it as it was when it was accepted.  In a program both servers
  and all their clients share one history and one space of descriptors; the calls of \<open>start\<close> up to
  \<open>run\<close> are one step there (\<open>engine_begin\<close>, \<open>tcp_begin\<close>), and so is a turn of an accept loop.

  What is shown.  The IO helpers: what is delivered, when the loops return, and what happens to an
  error.  The dumps: the text can be read back, and the two functions agree.  The engine: the exact
  calls a successful start makes, what a failed one leaves behind, and that stopping and restarting
  leaves a dead server.  The servers: every accepted connection is queued and handed over once, in
  order, under any sequence of public operations.  The worker: the descriptor is closed once, the
  request is the received stream, the single deadlock and an interleaving that reaches it, a bound
  on the steps it takes once its peer has gone, and what it does with contexts of another class.  Its
  application: while a client's descriptor is open it receives whole responses, in the order in which
  they were stored and no more of them than were asked for; but a thread that waits for an event is
  not woken by enabling it, so a response can stay unsent and a client unread for ever.  The whole
  broker: in every interleaving of the accept loop and all threads, and whatever an application does,
  descriptors are neither shared nor
  closed twice nor lost and requests do not mix, but a response can reach a connection that inherited
  a descriptor number; stopping the server ends its service and nothing else; the IPv6 server keeps every
  connection until it is destroyed; no connection of either server is left open after that, but
  their listening sockets are.  The older servers: the IPv4 client implements an echo, alone, in the
  system and in the program, but hangs when its peer leaves without a word, and can deliver a message
  to a connection that inherited its descriptor number; the IPv6 client truncates messages and can
  read the front of an empty queue; a rejected address counts as success, so the program serves one
  protocol only when it is given a host.  The programs, as whole processes with both servers: the
  descriptors are divided between the servers and their clients, all connections together are one
  table, ThreadsEchoEngine never sends a byte and ends only by failing calls, ThreadsEcho echoes
  over IPv4, and a single IPv6 peer can kill it.

  Not modelled: the logger, \<open>ScopedGuard\<close>, \<open>rwmutex\<close> and \<open>IBaseService\<close> (the submodule
  .submodule/common, not in the repository; \<open>isTraceEnabled\<close> is a parameter); the \<open>WIN32\<close>
  branches; the delivery of signals other than \<open>SIGPIPE\<close>; console output; the engine's \<open>mRWLock\<close>, which guards only
  the queue that one thread writes; the abstract interfaces; ThreadsTcpV6BroServer.h, which
  nothing includes; the \<open>SocketContext.h\<close> of the older servers, which is not in the repository;
  the build and the XML configuration.
\<close>

section \<open>Properties that span components\<close>

text \<open>
  IPv6 clients are accepted and abandoned: whatever the threads of a client accepted by
  \<open>ThreadsTcp6BroServer\<close> do, they make no system call, so nothing is read from the client,
  nothing sent, and its descriptor is not closed by them.
\<close>

lemma bro6_clients_abandoned:
  assumes "mSocketContextQueue e = []" and "spawned w = []"
    and "server_run Bro6 p n (e, w) = Some (b, e', w')" and "r \<in> set (spawned w')"
    and "reach (closed_step q) (ThreadsTcpBroWorker (Some (heap w' ! r)) h) s"
  shows "whist s = h \<and> mContext s = Some (heap w' ! r)"
proof -
  have "client_contexts Bro6 (e', w')"
    by (rule client_contexts_run[OF assms(3) client_contexts_init[OF assms(1,2)]])
  then have "\<not> is_ipv4 (ctx_class (heap w' ! r))"
    using assms(4) by (auto simp: client_contexts_def client_context_def)
  then have i: "ignored_worker (Some (heap w' ! r)) h (ThreadsTcpBroWorker (Some (heap w' ! r)) h)"
    by (simp add: ignored_worker_def cast_ipv4_def)
  from ignored.reach_inv[OF assms(5) i] show ?thesis by (simp add: ignored_inv_def)
qed

text \<open>A system on which one client connects over IPv6 (or IPv4) before \<open>accept\<close> fails.\<close>

definition one_client :: platform where
  "one_client = sample_platform\<lparr>
     k_accept4 := \<lambda>h fd. if accepted h = [] then Done (4, 0x0100007F, htons 5000) else Fail (EOther 24),
     k_accept6 := \<lambda>h fd. if accepted h = [] then Done (4, 1, htons 5000) else Fail (EOther 24)\<rparr>"

lemma one_client_run:
  "\<exists>e' w'. server_run k one_client 2 (sample_server\<lparr>mFd := 3\<rparr>, empty_world) = Some (False, e', w') \<and>
    0 \<in> set (spawned w') \<and> mClientFd (heap w' ! 0) = 4"
  by (cases k) (simp_all add: numeral_2_eq_2 ThreadsTcpBroServer_run_def ThreadsTcp6BroServer_run_def body_defs
      sys_simps Let_def process_defs one_client_def empty_world_def)

text \<open>
  C13: IPv4 clients are read to the end: for every client accepted by \<open>ThreadsTcpBroServer\<close> and
  every state its worker reaches, the request is the byte stream received from that client,
  its descriptor has been closed at most once, and exactly once when the worker has finished.
\<close>

theorem bro4_clients_collected:
  assumes "mSocketContextQueue e = []" and "spawned w = []"
    and "server_run Bro4 p n (e, w) = Some (b, e', w')" and "r \<in> set (spawned w')"
    and "recv_bounded q" and "reach (closed_step q) (ThreadsTcpBroWorker (Some (heap w' ! r)) h) s"
    and "fd = mClientFd (heap w' ! r)"
  shows "\<exists>c. mContext s = Some c \<and> received fd (whist s) = received fd h @ mRequest c @ pending (rpc s) \<and>
    closes_of fd (whist s) \<le> closes_of fd h + 1 \<and>
    (main s = M_Done \<longrightarrow> closes_of fd (whist s) = closes_of fd h + 1)"
proof -
  have "client_contexts Bro4 (e', w')"
    by (rule client_contexts_run[OF assms(3) client_contexts_init[OF assms(1,2)]])
  then have "client_context Bro4 (heap w' ! r)" using assms(4) by (auto simp: client_contexts_def)
  then have "fresh_client q fd h (ThreadsTcpBroWorker (Some (heap w' ! r)) h)"
    using assms(5,7) by (auto simp: fresh_client_def client_context_def INVALID_FD_def)
  from quiet.reach_inv[OF assms(6) this] have "client_inv fd h s" "quiet_inv fd h s" by (simp_all add: closed_inv_def)
  then show ?thesis using client_inv_closes[of fd h s] by (auto simp: quiet_inv_def)
qed

theorem bro4_clients_collected_witness:
  "\<exists>e' w' s c. server_run Bro4 one_client 2 (sample_server\<lparr>mFd := 3\<rparr>, empty_world) = Some (False, e', w') \<and>
    mClientFd (heap w' ! 0) = 4 \<and>
    reach (closed_step eof_platform) (ThreadsTcpBroWorker (Some (heap w' ! 0)) []) s \<and> main s = M_Done \<and>
    mContext s = Some c \<and> closes_of 4 (whist s) = 1"
proof -
  obtain e' w' where r: "server_run Bro4 one_client 2 (sample_server\<lparr>mFd := 3\<rparr>, empty_world) = Some (False, e', w')"
    and m: "0 \<in> set (spawned w')" "mClientFd (heap w' ! 0) = 4" using one_client_run by blast
  have q: "mSocketContextQueue (sample_server\<lparr>mFd := 3\<rparr>) = []" "spawned empty_world = []"
    by (simp_all add: empty_world_def)
  have "client_contexts Bro4 (e', w')" by (rule client_contexts_run[OF r client_contexts_init[OF q]])
  then have "client_context Bro4 (heap w' ! 0)" using m(1) by (auto simp: client_contexts_def)
  then obtain s where s: "reach (closed_step eof_platform) (ThreadsTcpBroWorker (Some (heap w' ! 0)) []) s"
    "main s = M_Done"
    using schedule_finishes[of "heap w' ! 0" eof_platform "[]"] schedule_closed m(2)
    by (fastforce simp: eof_platform_recv client_context_def INVALID_FD_def)
  from bro4_clients_collected[OF q r m(1) eof_platform_recv(2) s(1) m(2)[symmetric]] s(2)
  obtain c where "mContext s = Some c" "closes_of 4 (whist s) = 1" by auto
  with r m(2) s show ?thesis by blast
qed

end
